(* ===== verification/Rucene_Prelude.thy ===== *)
theory Rucene_Prelude
  imports Main "HOL-Library.Word" "HOL-Library.List_Lexorder"
begin

text \<open>
  Shared vocabulary of the development: the names of Rust's integer types, the error
  values and the result type of fallible code (\<^verbatim>\<open>src/src/error.rs\<close>), sequencing of
  fallible steps, the integer methods of the Rust standard library that the sources call
  (\<open>leading_zeros\<close>, \<open>trailing_zeros\<close>, \<open>count_ones\<close>, big-endian bytes), and generic lemmas
  on words and lists that several components use.
\<close>

unbundle bit_operations_syntax

section \<open>Types\<close>

text \<open>
  A Rust integer is a word of its width. Signed and unsigned integers of one width share
  the word type, as \<open>as\<close> casts between them keep the bits; \<open>sint\<close> and \<open>uint\<close> read them.
  Sizes and indices (\<open>usize\<close>) are natural numbers unless a definition says otherwise.
\<close>

type_synonym u8 = "8 word"
type_synonym i8 = "8 word"
type_synonym u16 = "16 word"
type_synonym i16 = "16 word"
type_synonym u32 = "32 word"
type_synonym i32 = "32 word"
type_synonym u64 = "64 word"
type_synonym i64 = "64 word"
type_synonym bytes = "8 word list"

text \<open>
  The error kinds of the crate with their message, the two \<open>std::io\<close> errors the code can
  meet on in-memory streams, the UTF-8 conversion error, the error kinds of the collectors, and \<open>Panic\<close> for a failed
  \<open>assert!\<close>, an out-of-range slice index or an arithmetic overflow, which abort the call.
\<close>

datatype error =
    Poisoned
  | IllegalState string
  | IllegalArgument string
  | UnexpectedEOF string
  | CorruptIndex string
  | UnsupportedOperation string
  | AlreadyClosed string
  | IOError string
  | RuntimeError string
  | IoUnexpectedEof
  | IoWriteZero
  | FromUtf8Err
  | LeafCollectionTerminated
  | CollectionTerminated
  | CollectionTimeout
  | CollectionFailed
  | Panic string

type_synonym 'a result = "error + 'a"

section \<open>Sequencing of fallible steps\<close>

text \<open>The \<open>?\<close> operator: an error ends the function, a value goes to the rest of it.\<close>

definition rbind :: "'a result \<Rightarrow> ('a \<Rightarrow> 'b result) \<Rightarrow> 'b result" where
  "rbind m f = (case m of Inl e \<Rightarrow> Inl e | Inr x \<Rightarrow> f x)"

lemma rbind_simps [simp]:
  "rbind (Inl e) f = Inl e"
  "rbind (Inr x) f = f x"
  by (simp_all add: rbind_def)

lemma rbind_eq_Inr: "rbind m f = Inr y \<longleftrightarrow> (\<exists>x. m = Inr x \<and> f x = Inr y)"
  by (cases m) auto

lemma rbind_cong [fundef_cong]:
  "m = m' \<Longrightarrow> (\<And>x. m' = Inr x \<Longrightarrow> f x = f' x) \<Longrightarrow> rbind m f = rbind m' f'"
  by (cases m') auto

section \<open>Runs that may not end\<close>

text \<open>
  A loop that may run on returns a result or nothing; \<open>run_bind\<close> is the \<open>?\<close> operator for it.
\<close>

type_synonym 'a run = "'a result option"

definition run_bind :: "'a run \<Rightarrow> ('a \<Rightarrow> 'b run) \<Rightarrow> 'b run" where
  "run_bind m f = (case m of None \<Rightarrow> None | Some (Inl e) \<Rightarrow> Some (Inl e) | Some (Inr x) \<Rightarrow> f x)"

lemma run_bind_simps [simp]:
  "run_bind None f = None"
  "run_bind (Some (Inl e)) f = Some (Inl e)"
  "run_bind (Some (Inr x)) f = f x"
  by (simp_all add: run_bind_def)

lemma run_bind_assoc: "run_bind (run_bind m f) g = run_bind m (\<lambda>x. run_bind (f x) g)"
  by (simp add: run_bind_def split: option.split sum.split)

lemma run_bind_mono [partial_function_mono]:
  assumes "mono_option B" "\<And>y. mono_option (\<lambda>f. C y f)"
  shows "mono_option (\<lambda>f. run_bind (B f) (\<lambda>y. C y f))"
proof (rule monotoneI)
  fix f g :: "'a \<Rightarrow> 'b option"
  assume fg: "fun_ord option_ord f g"
  have B: "option_ord (B f) (B g)" and C: "\<And>y. option_ord (C y f) (C y g)"
    using assms fg by (auto dest: monotoneD)
  show "option_ord (run_bind (B f) (\<lambda>y. C y f)) (run_bind (B g) (\<lambda>y. C y g))"
  proof (cases "B f")
    case None
    then show ?thesis by (simp add: flat_ord_def)
  next
    case (Some r)
    then have "B g = Some r" using B by (simp add: flat_ord_def)
    then show ?thesis using Some C by (cases r) (simp_all add: flat_ord_def)
  qed
qed

definition i32_checked :: "int \<Rightarrow> int run" where
  "i32_checked x = Some (if - 2147483648 \<le> x \<and> x \<le> 2147483647 then Inr x else Inl (Panic ''arithmetic overflow''))"

lemma i32_checked_ok [simp]: "- 2147483648 \<le> x \<Longrightarrow> x \<le> 2147483647 \<Longrightarrow> i32_checked x = Some (Inr x)"
  by (simp add: i32_checked_def)

text \<open>That a run ends without an error in a value with a property.\<close>

definition returns :: "'a run \<Rightarrow> ('a \<Rightarrow> bool) \<Rightarrow> bool" where
  "returns r Q \<longleftrightarrow> (\<exists>x. r = Some (Inr x) \<and> Q x)"

lemma returns_Some [simp]: "returns (Some (Inr x)) Q \<longleftrightarrow> Q x"
  by (simp add: returns_def)

lemma returns_bind:
  assumes "returns m P" "\<And>x. P x \<Longrightarrow> returns (f x) Q"
  shows "returns (run_bind m f) Q"
  using assms by (auto simp: returns_def)

lemma returns_mono: "returns m P \<Longrightarrow> (\<And>x. P x \<Longrightarrow> Q x) \<Longrightarrow> returns m Q"
  by (auto simp: returns_def)

section \<open>Integer methods of the standard library\<close>

definition leading_zeros :: "'a::len word \<Rightarrow> nat" where
  "leading_zeros w = length (takeWhile (\<lambda>i. \<not> bit w i) (rev [0..<LENGTH('a)]))"

definition trailing_zeros :: "'a::len word \<Rightarrow> nat" where
  "trailing_zeros w = length (takeWhile (\<lambda>i. \<not> bit w i) [0..<LENGTH('a)])"

definition count_ones :: "'a::len word \<Rightarrow> nat" where
  "count_ones w = length (filter (bit w) [0..<LENGTH('a)])"

text \<open>\<open>to_be\<close> and a transmute to bytes: the most significant byte first.\<close>

primrec be_bytes :: "nat \<Rightarrow> 'a::len word \<Rightarrow> bytes" where
  "be_bytes 0 w = []"
| "be_bytes (Suc n) w = be_bytes n (drop_bit 8 w) @ [ucast w]"

definition be_word :: "bytes \<Rightarrow> 'a::len word" where
  "be_word bs = foldl (\<lambda>acc b. push_bit 8 acc OR ucast b) 0 bs"

lemma length_be_bytes [simp]: "length (be_bytes n w) = n"
  by (induction n arbitrary: w) auto

lemma be_bytes_unfold:
  "be_bytes 2 w = [ucast (drop_bit 8 w), ucast w]"
  "be_bytes 4 w = [ucast (drop_bit 24 w), ucast (drop_bit 16 w), ucast (drop_bit 8 w), ucast w]"
  "be_bytes 8 w = [ucast (drop_bit 56 w), ucast (drop_bit 48 w), ucast (drop_bit 40 w),
     ucast (drop_bit 32 w), ucast (drop_bit 24 w), ucast (drop_bit 16 w), ucast (drop_bit 8 w), ucast w]"
proof -
  have n: "(2::nat) = Suc (Suc 0)" "(4::nat) = Suc (Suc (Suc (Suc 0)))"
    "(8::nat) = Suc (Suc (Suc (Suc (Suc (Suc (Suc (Suc 0)))))))" by simp_all
  show "be_bytes 2 w = [ucast (drop_bit 8 w), ucast w]"
    by (subst n(1)) simp
  show "be_bytes 4 w = [ucast (drop_bit 24 w), ucast (drop_bit 16 w), ucast (drop_bit 8 w), ucast w]"
    by (subst n(2)) (simp add: drop_bit_drop_bit)
  show "be_bytes 8 w = [ucast (drop_bit 56 w), ucast (drop_bit 48 w), ucast (drop_bit 40 w),
     ucast (drop_bit 32 w), ucast (drop_bit 24 w), ucast (drop_bit 16 w), ucast (drop_bit 8 w), ucast w]"
    by (subst n(3)) (simp add: drop_bit_drop_bit)
qed

lemma be_word_snoc: "be_word (bs @ [b]) = (push_bit 8 (be_word bs) OR ucast b :: 'a::len word)"
  by (simp add: be_word_def)

lemma be_word_be_bytes:
  fixes w :: "'a::len word"
  shows "be_word (be_bytes n w) = take_bit (8 * n) w"
proof (induction n arbitrary: w)
  case 0
  then show ?case by (simp add: be_word_def)
next
  case (Suc n)
  have "be_word (be_bytes (Suc n) w) = push_bit 8 (take_bit (8 * n) (drop_bit 8 w)) OR (ucast (ucast w :: u8) :: 'a word)"
    by (simp add: be_word_snoc Suc.IH)
  also have "\<dots> = take_bit (8 * Suc n) w"
    by (rule bit_word_eqI) (auto simp: bit_simps)
  finally show ?case .
qed

lemma be_word_unfold:
  "be_word [a, b] = push_bit 8 (ucast a) OR (ucast b :: 'a::len word)"
  "be_word [a, b, c, d] =
     (push_bit 24 (ucast a) OR push_bit 16 (ucast b) OR push_bit 8 (ucast c) OR ucast d :: 'a::len word)"
  "be_word [a, b, c, d, e, f, g, h] =
     (push_bit 56 (ucast a) OR push_bit 48 (ucast b) OR push_bit 40 (ucast c) OR push_bit 32 (ucast d)
      OR push_bit 24 (ucast e) OR push_bit 16 (ucast f) OR push_bit 8 (ucast g) OR ucast h :: 'a::len word)"
  by (simp_all add: be_word_def push_bit_or or.assoc)

lemma be_roundtrip: "LENGTH('a) \<le> 8 * n \<Longrightarrow> be_word (be_bytes n w) = (w :: 'a::len word)"
  by (simp add: be_word_be_bytes take_bit_word_eq_self)

section \<open>Bits of a word\<close>

lemma length_takeWhile_upt:
  assumes "k < n" "P k" "\<And>i. i < k \<Longrightarrow> \<not> P i"
  shows "length (takeWhile (\<lambda>i. \<not> P i) [0..<n]) = k"
proof -
  have "[0..<n] = [0..<k] @ k # [Suc k..<n]"
    using assms(1) upt_conv_Cons [of k n] upt_add_eq_append [of 0 k "n - k"] by simp
  moreover have "takeWhile (\<lambda>i. \<not> P i) [0..<k] = [0..<k]"
    using assms(3) by (simp add: takeWhile_eq_all_conv)
  ultimately show ?thesis using assms(2) by (simp add: takeWhile_append)
qed

lemma trailing_zeros_eqI:
  assumes "bit (w :: 'a::len word) k" "\<And>i. i < k \<Longrightarrow> \<not> bit w i"
  shows "trailing_zeros w = k"
  unfolding trailing_zeros_def
  by (rule length_takeWhile_upt) (use assms bit_imp_le_length in auto)

lemma word_least_bit:
  fixes w :: "'a::len word"
  assumes "w \<noteq> 0"
  obtains k where "k < LENGTH('a)" "bit w k" "\<And>i. i < k \<Longrightarrow> \<not> bit w i" "trailing_zeros w = k"
proof -
  from assms have ex: "\<exists>k. bit w k"
    by (metis bit_0_eq bit_word_eqI bot_apply bot_bool_def)
  let ?k = "LEAST k. bit w k"
  have k: "bit w ?k" using ex by (rule LeastI_ex)
  have least: "\<And>i. i < ?k \<Longrightarrow> \<not> bit w i" by (rule not_less_Least)
  from k have "?k < LENGTH('a)" by (rule bit_imp_le_length)
  with k least show thesis using that trailing_zeros_eqI by metis
qed

lemma count_ones_card: "count_ones w = card {j. j < LENGTH('a) \<and> bit w j}" for w :: "'a::len word"
proof -
  have "count_ones w = card (set (filter (bit w) [0..<LENGTH('a)]))"
    unfolding count_ones_def by (rule distinct_card [symmetric]) simp
  also have "set (filter (bit w) [0..<LENGTH('a)]) = {j. j < LENGTH('a) \<and> bit w j}" by auto
  finally show ?thesis .
qed

lemma bit_trailing_zeros: "w \<noteq> 0 \<Longrightarrow> bit w (trailing_zeros w)"
  by (metis word_least_bit)

lemma not_bit_below_trailing_zeros: "w \<noteq> 0 \<Longrightarrow> i < trailing_zeros w \<Longrightarrow> \<not> bit w i"
  by (metis word_least_bit)

lemma trailing_zeros_less: "(w :: 'a::len word) \<noteq> 0 \<Longrightarrow> trailing_zeros w < LENGTH('a)"
  by (metis word_least_bit)

lemma sless_0_bit: "w <s 0 \<longleftrightarrow> bit w (LENGTH('a) - 1)" for w :: "'a::len word"
  by (simp add: word_sless_alt bit_last_iff)

lemma unat_drop_bit_div: "unat (drop_bit n w) = unat w div 2 ^ n"
  by (subst unat_drop_bit_eq) (rule drop_bit_eq_div)

lemma unat_take_bit_mod: "unat (take_bit n w) = unat w mod 2 ^ n"
  by (subst unsigned_take_bit_eq) (rule take_bit_eq_mod)

lemma sint_eq_unat:
  fixes w :: "'a::len word"
  assumes "unat w < 2 ^ (LENGTH('a) - 1)"
  shows "sint w = int (unat w)"
proof -
  have "uint w < 2 ^ (LENGTH('a) - 1)"
    using assms by (metis of_nat_less_iff of_nat_numeral of_nat_power uint_nat)
  moreover have "- (2 ^ (LENGTH('a) - 1)) \<le> uint w"
    by (rule order_trans [of _ 0]) simp_all
  ultimately have "signed_take_bit (LENGTH('a) - 1) (uint w) = uint w"
    by (intro signed_take_bit_int_eq_self)
  then show ?thesis by (simp add: sint_uint)
qed

lemma sless_0_unat: "w <s 0 \<longleftrightarrow> 2 ^ (LENGTH('a) - 1) \<le> unat w" for w :: "'a::len word"
proof
  assume "w <s 0"
  show "2 ^ (LENGTH('a) - 1) \<le> unat w"
  proof (rule ccontr)
    assume "\<not> 2 ^ (LENGTH('a) - 1) \<le> unat w"
    then have "sint w = int (unat w)" by (intro sint_eq_unat) simp
    with \<open>w <s 0\<close> show False by (simp add: word_sless_alt)
  qed
next
  assume big: "2 ^ (LENGTH('a) - 1) \<le> unat w"
  show "w <s 0"
  proof (rule ccontr)
    assume "\<not> w <s 0"
    then have "\<not> bit w (LENGTH('a) - 1)" by (simp add: sless_0_bit)
    then have top: "bit w n \<Longrightarrow> n \<noteq> LENGTH('a) - 1" for n by metis
    have "take_bit (LENGTH('a) - 1) w = w"
    proof (rule bit_word_eqI)
      fix n assume "n < LENGTH('a)"
      then show "bit (take_bit (LENGTH('a) - 1) w) n = bit w n"
        using top [of n] by (auto simp: bit_take_bit_iff)
    qed
    then have "unat w mod 2 ^ (LENGTH('a) - 1) = unat w" by (metis unat_take_bit_mod)
    moreover have "unat w mod 2 ^ (LENGTH('a) - 1) < 2 ^ (LENGTH('a) - 1)" by simp
    ultimately have "unat w < 2 ^ (LENGTH('a) - 1)" by simp
    with big show False by simp
  qed
qed

lemma sless_iff_unat:
  fixes a b :: "'a::len word"
  assumes "unat a < 2 ^ (LENGTH('a) - 1)" "unat b < 2 ^ (LENGTH('a) - 1)"
  shows "a <s b \<longleftrightarrow> unat a < unat b"
  using assms by (simp only: word_sless_alt sint_eq_unat of_nat_less_iff)

section \<open>Byte order\<close>

text \<open>Big-endian bytes compare lexicographically as the words compare as unsigned numbers.\<close>

lemma snoc_less_snoc:
  fixes xs ys :: "'a::linorder list"
  assumes "length xs = length ys"
  shows "xs @ [a] < ys @ [b] \<longleftrightarrow> xs < ys \<or> xs = ys \<and> a < b"
  using assms by (induction xs ys rule: list_induct2) auto

lemma be_bytes_inj: "be_bytes n v = be_bytes n w \<longleftrightarrow> take_bit (8 * n) v = take_bit (8 * n) (w :: 'a::len word)"
proof
  assume "be_bytes n v = be_bytes n w"
  then show "take_bit (8 * n) v = take_bit (8 * n) w" by (metis be_word_be_bytes)
next
  assume "take_bit (8 * n) v = take_bit (8 * n) w"
  then show "be_bytes n v = be_bytes n w"
  proof (induction n arbitrary: v w)
    case (Suc n)
    have b: "bit v i = bit w i" if "i < 8 * Suc n" for i
      using that Suc.prems by (metis bit_take_bit_iff)
    have h: "take_bit (8 * n) (drop_bit 8 v) = take_bit (8 * n) (drop_bit 8 w)"
      by (rule bit_word_eqI) (auto simp: bit_simps b)
    have l: "(ucast v :: u8) = ucast w"
      by (rule bit_word_eqI) (auto simp: bit_simps b)
    from Suc.IH [OF h] l show ?case by (simp only: be_bytes.simps)
  qed simp
qed

lemma less_256_split:
  "l < 256 \<Longrightarrow> l' < 256 \<Longrightarrow> (h < h' \<or> h = h' \<and> l < l') \<longleftrightarrow> h * 256 + l < h' * 256 + (l' :: nat)"
  by arith

lemma be_bytes_less:
  fixes v w :: "'a::len word"
  shows "be_bytes n v < be_bytes n w \<longleftrightarrow> unat (take_bit (8 * n) v) < unat (take_bit (8 * n) w)"
proof (induction n arbitrary: v w)
  case (Suc n)
  let ?h = "\<lambda>v :: 'a word. unat (take_bit (8 * n) (drop_bit 8 v))" and ?l = "\<lambda>v :: 'a word. unat (ucast v :: u8)"
  have split: "unat (take_bit (8 * Suc n) v) = ?h v * 256 + ?l v" for v :: "'a word"
  proof -
    have "unat (take_bit (8 * Suc n) v) = take_bit (8 * n + 8) (unat v)"
      by (simp add: unsigned_take_bit_eq add.commute)
    also have "\<dots> = take_bit (8 * n) (drop_bit 8 (unat v)) * 256 + take_bit 8 (unat v)"
      by (simp add: take_bit_eq_mod drop_bit_eq_div power_add mod_mult2_eq mult.commute)
    also have "\<dots> = ?h v * 256 + ?l v"
      by (simp only: unsigned_take_bit_eq unat_drop_bit_eq unsigned_ucast_eq) simp
    finally show ?thesis .
  qed
  have l: "?l v < 256" for v :: "'a word" using unsigned_less [of "ucast v :: u8"] by simp
  have "be_bytes (Suc n) v < be_bytes (Suc n) w \<longleftrightarrow> ?h v < ?h w \<or> ?h v = ?h w \<and> ?l v < ?l w"
    by (simp only: be_bytes.simps snoc_less_snoc length_be_bytes Suc.IH be_bytes_inj
      word_less_nat_alt word_unat_eq_iff)
  also have "\<dots> \<longleftrightarrow> ?h v * 256 + ?l v < ?h w * 256 + ?l w"
    by (rule less_256_split [OF l l])
  finally show ?case by (simp only: split)
qed simp

end
