(* ===== verification/Bit_Util.thy ===== *)
theory Bit_Util
  imports Rucene_Prelude
begin

text \<open>
  The arithmetic helpers of \<^verbatim>\<open>src/src/core/util\<close>: zig-zag encoding, unsigned shifts and
  bit counting (\<^verbatim>\<open>bit_util.rs\<close>), logarithm, checked narrowing and binary gcd
  (\<^verbatim>\<open>math.rs\<close>), the order-preserving encodings of numbers (\<^verbatim>\<open>numeric.rs\<close>) and the
  one-byte float of the norms (\<^verbatim>\<open>small_float.rs\<close>). Floats are their IEEE bit patterns
  (\<open>to_bits\<close> and \<open>from_bits\<close> are identities).
\<close>

unbundle bit_operations_syntax

section \<open>bit\_util.rs\<close>

definition zigzag_encode_i32 :: "i32 \<Rightarrow> i32" where
  "zigzag_encode_i32 i = signed_drop_bit 31 i XOR push_bit 1 i"

definition zigzag_decode_i32 :: "i32 \<Rightarrow> i32" where
  "zigzag_decode_i32 i = drop_bit 1 i XOR (- (i AND 1))"

definition zigzag_encode_i64 :: "i64 \<Rightarrow> i64" where
  "zigzag_encode_i64 i = signed_drop_bit 63 i XOR push_bit 1 i"

definition zigzag_decode_i64 :: "i64 \<Rightarrow> i64" where
  "zigzag_decode_i64 i = drop_bit 1 i XOR (- (i AND 1))"

definition unsigned_shift :: "'a::len word \<Rightarrow> nat \<Rightarrow> 'a word" where
  "unsigned_shift w by' = drop_bit by' w"

definition bits_required :: "'a::len word \<Rightarrow> nat" where
  "bits_required w = max 1 (LENGTH('a) - leading_zeros w)"

definition pop_array :: "i64 list \<Rightarrow> nat \<Rightarrow> nat \<Rightarrow> nat" where
  "pop_array arr word_offset num_words =
     foldl (\<lambda>pop_count a. pop_count + count_ones a) 0 (take num_words (drop word_offset arr))"

text \<open>Both zig-zag directions are bijections: each undoes the other.\<close>

lemma neg_lsb_bit: "bit (- (w AND 1)) n \<longleftrightarrow> n < LENGTH('a) \<and> bit w 0" for w :: "'a::len word"
  by (cases "bit w 0") (auto simp: and_one_eq bit_0 mod_2_eq_odd bit_simps)

lemma bit_zigzag_encode:
  fixes i :: "'a::len word"
  shows "bit (signed_drop_bit (LENGTH('a) - 1) i XOR push_bit 1 i) n \<longleftrightarrow>
    n < LENGTH('a) \<and> bit i (LENGTH('a) - 1) \<noteq> (0 < n \<and> bit i (n - 1))"
proof -
  have "bit (push_bit 1 i) n \<longleftrightarrow> n < LENGTH('a) \<and> 0 < n \<and> bit i (n - 1)"
    by (simp only: bit_push_bit_iff possible_bit_word) auto
  moreover have "bit (signed_drop_bit (LENGTH('a) - 1) i) n \<longleftrightarrow> n < LENGTH('a) \<and> bit i (LENGTH('a) - 1)"
    by (cases n) (auto simp: bit_signed_drop_bit_iff dest: bit_imp_le_length)
  ultimately show ?thesis by (simp only: bit_xor_iff) blast
qed

lemma bit_zigzag_decode:
  fixes i :: "'a::len word"
  shows "bit (drop_bit 1 i XOR - (i AND 1)) n \<longleftrightarrow> n < LENGTH('a) \<and> bit i (Suc n) \<noteq> bit i 0"
  by (simp only: bit_xor_iff neg_lsb_bit bit_drop_bit_eq comp_def) (auto dest: bit_imp_le_length)

lemma zigzag_roundtrip_generic:
  fixes i :: "'a::len word"
  defines "e \<equiv> \<lambda>i :: 'a word. signed_drop_bit (LENGTH('a) - 1) i XOR push_bit 1 i"
    and "d \<equiv> \<lambda>i :: 'a word. drop_bit 1 i XOR - (i AND 1)"
  shows "d (e i) = i" "e (d i) = i"
proof -
  have d: "bit (d i) n \<longleftrightarrow> n < LENGTH('a) \<and> bit i (Suc n) \<noteq> bit i 0" for n i
    unfolding d_def by (rule bit_zigzag_decode)
  have e: "bit (e i) n \<longleftrightarrow> n < LENGTH('a) \<and> bit i (LENGTH('a) - 1) \<noteq> (0 < n \<and> bit i (n - 1))" for n i
    unfolding e_def by (rule bit_zigzag_encode)
  show "d (e i) = i"
  proof (rule bit_word_eqI)
    fix n assume "n < LENGTH('a)"
    then show "bit (d (e i)) n = bit i n"
      by (cases "n = LENGTH('a) - 1") (auto simp: d e)
  qed
  show "e (d i) = i"
  proof (rule bit_word_eqI)
    fix n assume "n < LENGTH('a)"
    then show "bit (e (d i)) n = bit i n"
      by (cases n) (auto simp: d e dest: bit_imp_le_length)
  qed
qed

lemma zigzag_i32_roundtrip:
  "zigzag_decode_i32 (zigzag_encode_i32 i) = i" "zigzag_encode_i32 (zigzag_decode_i32 i) = i"
  using zigzag_roundtrip_generic [where 'a = 32]
  by (simp_all add: zigzag_encode_i32_def zigzag_decode_i32_def)

lemma zigzag_i64_roundtrip:
  "zigzag_decode_i64 (zigzag_encode_i64 i) = i" "zigzag_encode_i64 (zigzag_decode_i64 i) = i"
  using zigzag_roundtrip_generic [where 'a = 64]
  by (simp_all add: zigzag_encode_i64_def zigzag_decode_i64_def)

text \<open>\<open>bits_required\<close> is the least positive width that holds the value.\<close>

lemma leading_zeros_bits:
  fixes w :: "'a::len word"
  shows "w = take_bit (LENGTH('a) - leading_zeros w) w" "leading_zeros w \<le> LENGTH('a)"
    "leading_zeros w < LENGTH('a) \<Longrightarrow> bit w (LENGTH('a) - leading_zeros w - 1)"
proof -
  let ?xs = "rev [0..<LENGTH('a)]" and ?P = "\<lambda>i. \<not> bit w i"
  show le: "leading_zeros w \<le> LENGTH('a)"
    using length_takeWhile_le [of ?P ?xs] by (simp add: leading_zeros_def)
  have zero: "\<not> bit w i" if "LENGTH('a) - leading_zeros w \<le> i" "i < LENGTH('a)" for i
  proof -
    let ?j = "LENGTH('a) - 1 - i"
    have j: "?j < leading_zeros w" using that le by simp
    then have "takeWhile ?P ?xs ! ?j \<in> set (takeWhile ?P ?xs)"
      by (simp add: leading_zeros_def)
    moreover have "takeWhile ?P ?xs ! ?j = i"
      using j that by (simp add: leading_zeros_def takeWhile_nth rev_nth)
    ultimately show ?thesis using set_takeWhileD [of i ?P ?xs] by simp
  qed
  show "w = take_bit (LENGTH('a) - leading_zeros w) w"
    by (rule bit_word_eqI) (use zero not_le in \<open>auto simp: bit_simps\<close>)
  assume lt: "leading_zeros w < LENGTH('a)"
  then have "\<not> ?P (?xs ! leading_zeros w)"
    using nth_length_takeWhile [of ?P ?xs] by (simp add: leading_zeros_def)
  with lt show "bit w (LENGTH('a) - leading_zeros w - 1)"
    by (simp add: rev_nth)
qed

lemma bits_required_fits: "unat w < 2 ^ bits_required w"
proof -
  let ?n = "LENGTH('a) - leading_zeros w"
  have "unat w = unat (take_bit ?n w)" using leading_zeros_bits(1) [of w] by simp
  also have "\<dots> < 2 ^ ?n" by (simp add: unsigned_take_bit_eq)
  finally have "unat w < 2 ^ ?n" .
  also have "(2::nat) ^ ?n \<le> 2 ^ bits_required w"
    by (rule power_increasing) (auto simp: bits_required_def)
  finally show ?thesis .
qed

lemma bits_required_least:
  assumes "unat w < 2 ^ n" "0 < n"
  shows "bits_required w \<le> n"
proof (rule ccontr)
  let ?n = "LENGTH('a) - leading_zeros w"
  assume "\<not> bits_required w \<le> n"
  with assms have n: "n < ?n" by (auto simp: bits_required_def)
  then have "bit w (?n - 1)" using leading_zeros_bits(3) [of w] by simp
  then have "bit (unat w) (?n - 1)" by (simp add: bit_unsigned_iff bit_imp_le_length)
  moreover have "unat w = take_bit n (unat w)" using assms(1) by (simp add: take_bit_nat_eq_self)
  ultimately have "?n - 1 < n" by (metis bit_take_bit_iff)
  with n show False by simp
qed

lemma pop_array_eq_sum:
  "pop_array arr off n = (\<Sum>a\<leftarrow>take n (drop off arr). count_ones a)"
proof -
  have "foldl (\<lambda>c a. c + count_ones a) k xs = k + (\<Sum>a\<leftarrow>xs. count_ones a)" for k and xs :: "i64 list"
    by (induction xs arbitrary: k) auto
  then show ?thesis by (simp add: pop_array_def)
qed

section \<open>math.rs\<close>

function log_loop :: "int \<Rightarrow> int \<Rightarrow> int \<Rightarrow> int" where
  "log_loop x base ret = (if 1 < base \<and> base \<le> x then log_loop (x div base) base (ret + 1) else ret)"
  by pat_completeness auto
termination
proof (relation "measure (\<lambda>(x, base, ret). nat x)", goal_cases)
  case (2 x base ret)
  then have "x div base < x" by (auto intro: int_div_less_self)
  with 2 show ?case by auto
qed simp

declare log_loop.simps [simp del]

definition log :: "int \<Rightarrow> int \<Rightarrow> int result" where
  "log x base = (if \<not> 1 < base then Inl (Panic ''base > 1'') else Inr (log_loop x base 0))"

definition long_to_int_exact :: "i64 \<Rightarrow> i32 result" where
  "long_to_int_exact val =
     (let ans = (ucast val :: i32)
      in if (scast ans :: i64) \<noteq> val then Inl (IllegalState ''integer overflow'') else Inr ans)"

text \<open>
  The loop of the binary gcd. It is a partial function of the source (with \<open>a = 0\<close> it
  would not stop), so not returning is \<open>None\<close>.
\<close>

partial_function (option) gcd_loop :: "i64 \<Rightarrow> i64 \<Rightarrow> i64 option" where
  "gcd_loop a b0 =
     (let b = unsigned_shift b0 (trailing_zeros b0)
      in if a = b then Some a
         else if b <s a \<or> a = 0x8000000000000000
         then (if b = 1 then Some b else gcd_loop b (a - b))
         else (if a = 1 then Some a else gcd_loop a (b - a)))"

definition i64_abs :: "i64 \<Rightarrow> i64" where
  "i64_abs a = (if a <s 0 then - a else a)"

definition gcd_i64 :: "i64 \<Rightarrow> i64 \<Rightarrow> i64 result option" where
  "gcd_i64 a0 b0 =
     (if a0 = 0x8000000000000000 \<or> b0 = 0x8000000000000000 then Some (Inl (Panic ''i64::min_value''))
      else let a = i64_abs a0; b = i64_abs b0
      in if a = 0 then Some (Inr b)
         else if b = 0 then Some (Inr a)
         else let common_trailing_zeros = trailing_zeros (a OR b);
                  a' = unsigned_shift a (trailing_zeros a)
              in case gcd_loop a' b of
                   None \<Rightarrow> None
                 | Some r \<Rightarrow> Some (Inr (push_bit common_trailing_zeros r)))"

lemma log_loop_spec:
  assumes "1 < base" "1 \<le> x"
  shows "\<exists>k. log_loop x base ret = ret + int k \<and> base ^ k \<le> x \<and> x < base ^ Suc k"
  using assms
proof (induction x base ret rule: log_loop.induct)
  case (1 x base ret)
  show ?case
  proof (cases "base \<le> x")
    case False
    then show ?thesis
      using "1.prems" by (intro exI [of _ 0]) (simp add: log_loop.simps [of x base ret])
  next
    case True
    have "0 < x div base" using True "1.prems" by (simp add: pos_imp_zdiv_pos_iff)
    then obtain k where k: "log_loop (x div base) base (ret + 1) = ret + 1 + int k"
      "base ^ k \<le> x div base" "x div base < base ^ Suc k"
      using "1.IH" True "1.prems" by fastforce
    have lo: "base * (x div base) \<le> x" and hi: "x < base * (x div base + 1)"
      using "1.prems" pos_mod_sign [of base x] pos_mod_bound [of base x]
        mult_div_mod_eq [of base x] by (simp_all only: distrib_left) linarith+
    have "base ^ Suc k \<le> base * (x div base)" using k(2) "1.prems" by simp
    with lo have "base ^ Suc k \<le> x" by linarith
    moreover have "x < base ^ Suc (Suc k)"
    proof -
      have "base * (x div base + 1) \<le> base * base ^ Suc k"
        using k(3) "1.prems" by (intro mult_left_mono) auto
      with hi show ?thesis by simp
    qed
    ultimately show ?thesis
      using True "1.prems" k(1)
      by (intro exI [of _ "Suc k"]) (simp add: log_loop.simps [of x base ret])
  qed
qed

lemma long_to_int_exact_spec:
  "long_to_int_exact v =
     (if - (2 ^ 31) \<le> sint v \<and> sint v < 2 ^ 31 then Inr (ucast v)
      else Inl (IllegalState ''integer overflow''))"
proof -
  have "sint (scast (ucast v :: i32) :: i64) = signed_take_bit 31 (sint v)"
    by (simp add: signed_scast_eq signed_ucast_eq bit_eq_iff bit_simps min_def)
  then have "(scast (ucast v :: i32) :: i64) = v \<longleftrightarrow> signed_take_bit 31 (sint v) = sint v"
    by (metis signed_word_eqI)
  also have "\<dots> \<longleftrightarrow> - (2 ^ 31) \<le> sint v \<and> sint v < 2 ^ 31"
    by (simp add: signed_take_bit_int_eq_self_iff)
  finally show ?thesis by (simp add: long_to_int_exact_def Let_def)
qed

text \<open>The odd part of a word, and what one round of the loop keeps: the gcd.\<close>

lemma odd_part:
  fixes w :: "'a::len word"
  assumes "w \<noteq> 0"
  shows "odd (unat (unsigned_shift w (trailing_zeros w)))"
    and "unat w = unat (unsigned_shift w (trailing_zeros w)) * 2 ^ trailing_zeros w"
proof -
  let ?k = "trailing_zeros w"
  show "odd (unat (unsigned_shift w ?k))"
    using bit_trailing_zeros [OF assms] bit_imp_le_length [OF bit_trailing_zeros [OF assms]]
    by (simp add: unsigned_shift_def unat_drop_bit_eq bit_unsigned_iff flip: bit_iff_odd_drop_bit)
  have "take_bit ?k w = 0"
    by (rule bit_word_eqI) (auto simp: bit_simps not_bit_below_trailing_zeros [OF assms])
  then have "take_bit ?k (unat w) = 0"
    by (metis unsigned_0 unsigned_take_bit_eq)
  then show "unat w = unat (unsigned_shift w ?k) * 2 ^ ?k"
    by (simp only: unsigned_shift_def unat_drop_bit_eq)
      (simp add: drop_bit_eq_div take_bit_eq_mod mod_eq_0_iff_dvd)
qed

lemma gcd_odd_power2: "odd (a::nat) \<Longrightarrow> gcd a (b * 2 ^ k) = gcd a b"
  by (simp add: gcd_mult_right_right_cancel coprime_commute)

lemma gcd_sub_nat: "a \<le> b \<Longrightarrow> gcd a (b - a) = gcd a (b::nat)"
  by (metis gcd.commute gcd_diff1_nat)

lemma gcd_loop_spec:
  fixes a b0 :: i64
  assumes "odd (unat a)" "0 < unat b0" "unat a < 2 ^ 63" "unat b0 < 2 ^ 63"
  shows "\<exists>r. gcd_loop a b0 = Some r \<and> unat r = gcd (unat a) (unat b0)"
  using assms
proof (induction "unat a + unat b0" arbitrary: a b0 rule: less_induct)
  case less
  define b where "b = unsigned_shift b0 (trailing_zeros b0)"
  have b0: "b0 \<noteq> 0" using less.prems(2) by auto
  have b: "odd (unat b)" "unat b0 = unat b * 2 ^ trailing_zeros b0"
    unfolding b_def by (rule odd_part [OF b0])+
  then have le: "unat b \<le> unat b0" by simp
  have g: "gcd (unat a) (unat b0) = gcd (unat a) (unat b)"
    using b less.prems(1) by (simp add: gcd_odd_power2)
  have ne: "a \<noteq> 0x8000000000000000" using less.prems(3) by auto
  have small: "unat b < 2 ^ 63" using le less.prems(4) by simp
  have unfold: "gcd_loop a b0 = (if a = b then Some a
      else if unat b < unat a then (if b = 1 then Some b else gcd_loop b (a - b))
      else (if a = 1 then Some a else gcd_loop a (b - a)))"
    using ne sless_iff_unat [of b a] small less.prems(3)
    by (subst gcd_loop.simps) (simp add: b_def [symmetric])
  consider "a = b" | "unat b < unat a" | "unat a < unat b"
    by (metis linorder_neqE_nat word_unat_eq_iff)
  then show ?case
  proof cases
    case 1
    then show ?thesis using unfold g by simp
  next
    case 2
    have d: "unat (a - b) = unat a - unat b" using 2 by (simp add: unat_sub word_le_nat_alt)
    have "\<exists>r. gcd_loop b (a - b) = Some r \<and> unat r = gcd (unat b) (unat (a - b))"
      by (rule less.hyps) (use 2 d b(1) less.prems small le in \<open>auto intro: odd_pos\<close>)
    moreover have "gcd (unat b) (unat (a - b)) = gcd (unat a) (unat b)"
      using 2 by (simp add: d gcd_sub_nat gcd.commute)
    ultimately show ?thesis using unfold g 2 by auto
  next
    case 3
    have d: "unat (b - a) = unat b - unat a" using 3 by (simp add: unat_sub word_le_nat_alt)
    have "\<exists>r. gcd_loop a (b - a) = Some r \<and> unat r = gcd (unat a) (unat (b - a))"
      by (rule less.hyps) (use 3 d b(1) less.prems odd_pos [OF less.prems(1)] small le in \<open>auto intro: odd_pos\<close>)
    moreover have "gcd (unat a) (unat (b - a)) = gcd (unat a) (unat b)"
      using 3 by (simp add: d gcd_sub_nat)
    ultimately show ?thesis using unfold g 3 by auto
  qed
qed

lemma trailing_zeros_or:
  fixes a b :: "'a::len word"
  assumes "a \<noteq> 0" "b \<noteq> 0"
  shows "trailing_zeros (a OR b) = min (trailing_zeros a) (trailing_zeros b)"
proof (rule trailing_zeros_eqI)
  show "bit (a OR b) (min (trailing_zeros a) (trailing_zeros b))"
    using assms by (auto simp: bit_or_iff min_def bit_trailing_zeros)
  show "\<not> bit (a OR b) i" if "i < min (trailing_zeros a) (trailing_zeros b)" for i
    using that assms by (auto simp: bit_or_iff not_bit_below_trailing_zeros)
qed

lemma gcd_powers2:
  fixes a b :: nat
  assumes "odd a" "odd b"
  shows "gcd (a * 2 ^ x) (b * 2 ^ y) = gcd a b * 2 ^ min x y"
proof (cases "x \<le> y")
  case True
  then have y: "b * 2 ^ y = 2 ^ x * (b * 2 ^ (y - x))" by (simp flip: power_add)
  have "gcd (a * 2 ^ x) (b * 2 ^ y) = 2 ^ x * gcd a (b * 2 ^ (y - x))"
    unfolding y mult.commute [of a] by (rule gcd_mult_distrib_nat [symmetric])
  then show ?thesis using True assms by (simp add: gcd_odd_power2)
next
  case False
  then have x: "a * 2 ^ x = 2 ^ y * (a * 2 ^ (x - y))" by (simp flip: power_add)
  have "gcd (a * 2 ^ x) (b * 2 ^ y) = 2 ^ y * gcd (a * 2 ^ (x - y)) b"
    unfolding x mult.commute [of b] by (rule gcd_mult_distrib_nat [symmetric])
  then show ?thesis
    using False assms gcd_odd_power2 [of b a "x - y"] by (simp add: gcd.commute)
qed

lemma i64_abs_spec:
  assumes "a \<noteq> 0x8000000000000000"
  shows "int (unat (i64_abs a)) = \<bar>sint a\<bar>" "unat (i64_abs a) < 2 ^ 63"
proof -
  have min: "sint a \<noteq> - (2 ^ 63)"
  proof
    assume "sint a = - (2 ^ 63)"
    then have "word_of_int (sint a) = (word_of_int (- (2 ^ 63)) :: i64)" by simp
    with assms show False by simp
  qed
  have b: "- (2 ^ 63) \<le> sint a" "sint a < 2 ^ 63"
    using sint_greater_eq [of a] sint_less [of a] by simp_all
  have "uint (i64_abs a) = \<bar>sint a\<bar>"
  proof -
    have "i64_abs a = word_of_int \<bar>sint a\<bar>"
      by (simp add: i64_abs_def word_sless_alt)
    moreover have "\<bar>sint a\<bar> < 2 ^ 64" using b by simp
    ultimately show ?thesis by (simp only: uint_word_of_int_eq) (simp add: take_bit_int_eq_self)
  qed
  then show u: "int (unat (i64_abs a)) = \<bar>sint a\<bar>" by simp
  have "\<bar>sint a\<bar> < 2 ^ 63" using b min by linarith
  with u show "unat (i64_abs a) < 2 ^ 63"
    by (metis of_nat_less_iff of_nat_numeral of_nat_power)
qed

lemma gcd_i64_nonzero:
  fixes a b :: i64
  assumes "a \<noteq> 0" "b \<noteq> 0" "unat a < 2 ^ 63" "unat b < 2 ^ 63"
  shows "\<exists>r. gcd_loop (unsigned_shift a (trailing_zeros a)) b = Some r \<and>
    unat (push_bit (trailing_zeros (a OR b)) r) = gcd (unat a) (unat b)"
proof -
  let ?a = "unsigned_shift a (trailing_zeros a)" and ?b = "unsigned_shift b (trailing_zeros b)"
  let ?k = "trailing_zeros (a OR b)"
  note a = odd_part [OF assms(1)] and b = odd_part [OF assms(2)]
  have "unat ?a * 1 \<le> unat ?a * 2 ^ trailing_zeros a" by (rule mult_le_mono2) simp
  then have "unat ?a < 2 ^ 63" using a(2) assms(3) by (metis le_less_trans mult.right_neutral)
  then obtain r where r: "gcd_loop ?a b = Some r" "unat r = gcd (unat ?a) (unat b)"
    using gcd_loop_spec [of ?a b] a(1) assms by (auto simp: unat_gt_0)
  have "gcd (unat ?a) (unat b) = gcd (unat ?a) (unat ?b)"
    using b(2) a(1) by (metis gcd_odd_power2)
  then have eq: "unat r * 2 ^ ?k = gcd (unat a) (unat b)"
    using r(2) a b gcd_powers2 [of "unat ?a" "unat ?b"] trailing_zeros_or [OF assms(1,2)] by metis
  have "gcd (unat a) (unat b) \<le> unat a" using assms(1) by (simp add: unat_gt_0 gcd_le1_nat)
  then have "unat r * 2 ^ ?k < 2 ^ 64" using eq assms(3) by simp
  then have "unat (push_bit ?k r) = unat r * 2 ^ ?k"
    by (simp only: unsigned_push_bit_eq) (simp add: push_bit_eq_mult take_bit_nat_eq_self)
  then show ?thesis using r(1) eq by simp
qed

lemma gcd_i64_spec:
  assumes "a \<noteq> 0x8000000000000000" "b \<noteq> 0x8000000000000000"
  shows "\<exists>r. gcd_i64 a b = Some (Inr r) \<and> sint r = gcd (sint a) (sint b)"
proof -
  let ?a = "i64_abs a" and ?b = "i64_abs b"
  note A = i64_abs_spec [OF assms(1)] and B = i64_abs_spec [OF assms(2)]
  have gcd: "gcd (sint a) (sint b) = int (gcd (unat ?a) (unat ?b))"
    using A(1) B(1) by (metis gcd_abs1_int gcd_abs2_int gcd_int_int_eq)
  show ?thesis
  proof (cases "?a = 0 \<or> ?b = 0")
    case True
    then show ?thesis
      using assms A B gcd by (auto simp: gcd_i64_def Let_def sint_eq_unat)
  next
    case False
    then obtain r where r: "gcd_loop (unsigned_shift ?a (trailing_zeros ?a)) ?b = Some r"
      "unat (push_bit (trailing_zeros (?a OR ?b)) r) = gcd (unat ?a) (unat ?b)"
      using gcd_i64_nonzero [of ?a ?b] A B by auto
    have "gcd (unat ?a) (unat ?b) \<le> unat ?a" using False by (simp add: unat_gt_0 gcd_le1_nat)
    then have "sint (push_bit (trailing_zeros (?a OR ?b)) r) = int (gcd (unat ?a) (unat ?b))"
      using r(2) A(2) by (subst sint_eq_unat) auto
    with False assms r gcd show ?thesis by (auto simp: gcd_i64_def Let_def)
  qed
qed

section \<open>numeric.rs\<close>

definition sortable_double_bits :: "i64 \<Rightarrow> i64" where
  "sortable_double_bits bits = bits XOR (signed_drop_bit 63 bits AND 0x7fffffffffffffff)"

definition sortable_float_bits :: "i32 \<Rightarrow> i32" where
  "sortable_float_bits bits = bits XOR (signed_drop_bit 31 bits AND 0x7fffffff)"

definition int2sortable_bytes :: "i32 \<Rightarrow> bytes \<Rightarrow> bytes result" where
  "int2sortable_bytes value0 result =
     (let value = value0 XOR 0x80000000
      in if length result < 4 then Inl (Panic ''index out of bounds'')
         else Inr ([ucast (signed_drop_bit 24 value), ucast (signed_drop_bit 16 value),
                    ucast (signed_drop_bit 8 value), ucast value] @ drop 4 result))"

definition sortable_bytes2int :: "bytes \<Rightarrow> i32 result" where
  "sortable_bytes2int encoded =
     (if length encoded < 4 then Inl (Panic ''index out of bounds'')
      else let x = push_bit 24 (ucast (encoded ! 0) AND 0xff) OR push_bit 16 (ucast (encoded ! 1) AND 0xff)
                   OR push_bit 8 (ucast (encoded ! 2) AND 0xff) OR (ucast (encoded ! 3) AND 0xff)
           in Inr (x XOR 0x80000000))"

definition long2sortable_bytes :: "i64 \<Rightarrow> bytes \<Rightarrow> bytes result" where
  "long2sortable_bytes value0 result =
     (let value = value0 XOR 0x8000000000000000
      in if length result < 8 then Inl (Panic ''index out of bounds'')
         else Inr ([ucast (signed_drop_bit 56 value), ucast (signed_drop_bit 48 value),
                    ucast (signed_drop_bit 40 value), ucast (signed_drop_bit 32 value),
                    ucast (signed_drop_bit 24 value), ucast (signed_drop_bit 16 value),
                    ucast (signed_drop_bit 8 value), ucast value] @ drop 8 result))"

definition sortable_bytes2long :: "bytes \<Rightarrow> i64 result" where
  "sortable_bytes2long encoded =
     (if length encoded < 8 then Inl (Panic ''index out of bounds'')
      else let v = push_bit 56 (ucast (encoded ! 0) AND 0xff) OR push_bit 48 (ucast (encoded ! 1) AND 0xff)
                   OR push_bit 40 (ucast (encoded ! 2) AND 0xff) OR push_bit 32 (ucast (encoded ! 3) AND 0xff)
                   OR push_bit 24 (ucast (encoded ! 4) AND 0xff) OR push_bit 16 (ucast (encoded ! 5) AND 0xff)
                   OR push_bit 8 (ucast (encoded ! 6) AND 0xff) OR (ucast (encoded ! 7) AND 0xff)
           in Inr (v XOR 0x8000000000000000))"

section \<open>small\_float.rs\<close>

definition float_to_byte315 :: "u32 \<Rightarrow> u8" where
  "float_to_byte315 f =
     (let bits = f; small_float = signed_drop_bit (24 - 3) bits
      in if small_float \<le>s push_bit 3 (63 - 15) then (if bits \<le>s 0 then 0 else 1)
         else if push_bit 3 (63 - 15) + 0x100 \<le>s small_float then 255
         else ucast (small_float - push_bit 3 (63 - 15)))"

definition byte315_to_float :: "u8 \<Rightarrow> u32" where
  "byte315_to_float b = (if b = 0 then 0 else push_bit (24 - 3) (ucast b) + push_bit 24 (63 - 15))"

text \<open>
  The sign-magnitude bits of a float become a two's complement number of the same order:
  the bits of a negative value below the sign are inverted. The map is its own inverse.
\<close>

lemma sortable_bits_generic:
  fixes b :: "'a::len word"
  defines "f \<equiv> \<lambda>b :: 'a word. b XOR (signed_drop_bit (LENGTH('a) - 1) b AND mask (LENGTH('a) - 1))"
  shows "f b = (if b <s 0 then NOT (take_bit (LENGTH('a) - 1) b) else b)"
proof -
  have s: "bit (signed_drop_bit (LENGTH('a) - 1) b) n \<longleftrightarrow> n < LENGTH('a) \<and> bit b (LENGTH('a) - 1)" for n
    by (cases n) (auto simp: bit_signed_drop_bit_iff dest: bit_imp_le_length)
  show ?thesis
  proof (rule bit_word_eqI)
    fix n assume "n < LENGTH('a)"
    then consider "n = LENGTH('a) - 1" | "n < LENGTH('a) - 1" by linarith
    then show "bit (f b) n = bit (if b <s 0 then NOT (take_bit (LENGTH('a) - 1) b) else b) n"
      using \<open>n < LENGTH('a)\<close>
      by cases (simp_all add: f_def sless_0_bit s [simplified] bit_xor_iff bit_and_iff bit_mask_iff
        bit_not_iff bit_take_bit_iff)
  qed
qed

lemma xor_top_bit: "v XOR 2 ^ (LENGTH('a) - 1) = v + 2 ^ (LENGTH('a) - 1)" for v :: "'a::len word"
proof (cases "bit v (LENGTH('a) - 1)")
  case False
  then have "v + 2 ^ (LENGTH('a) - 1) = v OR 2 ^ (LENGTH('a) - 1)"
    by (intro disjunctive_add) (auto simp: bit_exp_iff)
  also have "\<dots> = v XOR 2 ^ (LENGTH('a) - 1)"
    using False by (intro bit_word_eqI) (auto simp: bit_simps)
  finally show ?thesis by simp
next
  case True
  let ?t = "take_bit (LENGTH('a) - 1) v"
  have "v = ?t OR 2 ^ (LENGTH('a) - 1)"
    using True by (intro bit_word_eqI) (auto simp: bit_simps le_less_Suc_eq not_less dest!: le_imp_less_or_eq)
  also have "\<dots> = ?t + 2 ^ (LENGTH('a) - 1)"
    by (intro disjunctive_add [symmetric]) (auto simp: bit_simps)
  finally have v: "v = ?t + 2 ^ (LENGTH('a) - 1)" .
  have "v XOR 2 ^ (LENGTH('a) - 1) = ?t"
    using True by (intro bit_word_eqI) (auto simp: bit_simps)
  moreover have "(2 :: 'a word) ^ (LENGTH('a) - 1) + 2 ^ (LENGTH('a) - 1) = 0"
    by (simp only: mult_2 [symmetric] power_Suc [symmetric]) simp
  then have "v + 2 ^ (LENGTH('a) - 1) = ?t"
    by (subst v) (simp add: add.assoc)
  ultimately show ?thesis by simp
qed

lemma uint_flip_sign: "uint (v XOR 2 ^ (LENGTH('a) - 1)) = sint v + 2 ^ (LENGTH('a) - 1)"
  for v :: "'a::len word"
proof -
  have b: "- (2 ^ (LENGTH('a) - 1)) \<le> sint v" "sint v < 2 ^ (LENGTH('a) - 1)"
    using sint_greater_eq [of v] sint_less [of v] by simp_all
  have "v XOR 2 ^ (LENGTH('a) - 1) = word_of_int (sint v + 2 ^ (LENGTH('a) - 1))"
    by (simp only: xor_top_bit of_int_add of_int_power of_int_numeral) simp
  moreover have "(2::int) ^ LENGTH('a) = 2 ^ (LENGTH('a) - 1) + 2 ^ (LENGTH('a) - 1)"
    by (simp only: mult_2 [symmetric] power_Suc [symmetric]) simp
  ultimately show ?thesis
    using b by (simp only: uint_word_of_int_eq) (simp add: take_bit_int_eq_self)
qed

lemma sless_iff_flip_sign:
  "sint v < sint w \<longleftrightarrow> unat (v XOR 2 ^ (LENGTH('a) - 1)) < unat (w XOR 2 ^ (LENGTH('a) - 1))"
  for v w :: "'a::len word"
  by (simp only: word_less_nat_alt [symmetric] word_less_def uint_flip_sign add_less_cancel_right)

lemma ucast_signed_drop_bit:
  "k + 8 \<le> LENGTH('a) \<Longrightarrow> (ucast (signed_drop_bit k v) :: u8) = ucast (drop_bit k v)" for v :: "'a::len word"
  by (rule bit_word_eqI) (auto simp: bit_simps)

lemma int2sortable_bytes_eq:
  "4 \<le> length result \<Longrightarrow>
   int2sortable_bytes v result = Inr (be_bytes 4 (v XOR 2 ^ (LENGTH(32) - 1)) @ drop 4 result)"
  by (simp add: int2sortable_bytes_def ucast_signed_drop_bit be_bytes_unfold Let_def)

lemma long2sortable_bytes_eq:
  "8 \<le> length result \<Longrightarrow>
   long2sortable_bytes v result = Inr (be_bytes 8 (v XOR 2 ^ (LENGTH(64) - 1)) @ drop 8 result)"
  by (simp add: long2sortable_bytes_def ucast_signed_drop_bit be_bytes_unfold Let_def)

lemma ucast_and_255: "(ucast (b :: u8) :: 'a::len word) AND 255 = ucast b"
proof -
  have m: "(255 :: 'a word) = mask 8" by (simp add: mask_eq_exp_minus_1)
  show ?thesis
    unfolding m by (rule bit_word_eqI) (auto simp: bit_simps dest: bit_imp_le_length)
qed

lemma take_4_nth: "4 \<le> length e \<Longrightarrow> take 4 e = [e ! 0, e ! 1, e ! 2, e ! 3]"
  by (rule nth_equalityI) (auto simp: less_Suc_eq numeral_eq_Suc)

lemma take_8_nth: "8 \<le> length e \<Longrightarrow> take 8 e = [e ! 0, e ! 1, e ! 2, e ! 3, e ! 4, e ! 5, e ! 6, e ! 7]"
  by (rule nth_equalityI) (auto simp: less_Suc_eq numeral_eq_Suc)

lemma sortable_bytes2int_eq:
  "4 \<le> length e \<Longrightarrow> sortable_bytes2int e = Inr (be_word (take 4 e) XOR 2 ^ (LENGTH(32) - 1))"
  by (simp only: sortable_bytes2int_def take_4_nth be_word_unfold ucast_and_255 Let_def) simp

lemma sortable_bytes2long_eq:
  "8 \<le> length e \<Longrightarrow> sortable_bytes2long e = Inr (be_word (take 8 e) XOR 2 ^ (LENGTH(64) - 1))"
  by (simp only: sortable_bytes2long_def take_8_nth be_word_unfold ucast_and_255 Let_def) simp

lemma xor_cancel: "(v XOR m) XOR m = (v :: 'a::len word)"
  by (simp add: xor.assoc)

lemma sint_sortable_float_bits:
  "sint (sortable_float_bits b) = (if b <s 0 then - 1 - int (unat (take_bit 31 b)) else sint b)"
proof -
  have m: "(0x7fffffff :: i32) = mask 31" by (simp add: mask_eq_exp_minus_1)
  have "sortable_float_bits b = (if b <s 0 then NOT (take_bit 31 b) else b)"
    using sortable_bits_generic [of b] by (simp add: sortable_float_bits_def m)
  moreover have "unat (take_bit 31 b) < 2 ^ 31" by (simp only: unsigned_take_bit_eq take_bit_nat_less_exp)
  then have "sint (take_bit 31 b) = int (unat (take_bit 31 b))"
    by (intro sint_eq_unat) simp
  moreover have "sint (NOT w) = - 1 - sint w" for w :: i32
    using sint_greater_eq [of w] sint_less [of w]
    by (simp only: signed_not_eq) (simp add: not_int_def signed_take_bit_int_eq_self)
  ultimately show ?thesis by simp
qed

lemma float_byte315_roundtrip: "float_to_byte315 (byte315_to_float b) = b"
proof (cases "b = 0")
  case True
  then show ?thesis by (simp add: byte315_to_float_def float_to_byte315_def word_sle_eq)
next
  case False
  let ?f = "byte315_to_float b"
  have b: "0 < unat b" "unat b < 256" using False unsigned_less [of b] by (simp_all add: unat_gt_0)
  have "unat (push_bit 21 (ucast b) :: u32) = unat b * 2 ^ 21"
    using b(2) by (simp only: unsigned_push_bit_eq unsigned_ucast_eq)
      (simp add: push_bit_eq_mult take_bit_nat_eq_self)
  then have "unat ?f = (unat b + 384) * 2 ^ 21"
    using b(2) False by (simp add: byte315_to_float_def unat_word_ariths)
  then have f: "sint ?f = (int (unat b) + 384) * 2 ^ 21"
    using b(2) by (subst sint_eq_unat) auto
  then have sf: "sint (signed_drop_bit 21 ?f) = int (unat b) + 384"
    by (simp add: sint_signed_drop_bit_eq drop_bit_eq_div)
  have "ucast (signed_drop_bit 21 ?f - 384) = b"
  proof -
    have "signed_drop_bit 21 ?f = word_of_int (int (unat b) + 384)"
      using sf by (metis of_int_sint scast_id)
    moreover have "(ucast (ucast b :: u32) :: u8) = b"
      by (rule bit_word_eqI) (auto simp: bit_simps)
    ultimately show ?thesis by simp
  qed
  moreover have "0 < int (unat b)" "int (unat b) < 256" using b by linarith+
  ultimately show ?thesis
    using sf by (simp add: float_to_byte315_def Let_def word_sle_eq)
qed

text \<open>
  C24: the sortable encodings of \<open>i32\<close> and \<open>i64\<close> are written in place, decode to the value
  they were made from, and compare byte by byte exactly as the signed numbers compare.
\<close>

theorem sortable_bytes_order:
  "(\<exists>b c. int2sortable_bytes x [0, 0, 0, 0] = Inr b \<and> int2sortable_bytes y [0, 0, 0, 0] = Inr c \<and>
      sortable_bytes2int b = Inr x \<and> sortable_bytes2int c = Inr y \<and> (b < c \<longleftrightarrow> sint x < sint y)) \<and>
   (\<exists>b c. long2sortable_bytes v [0, 0, 0, 0, 0, 0, 0, 0] = Inr b \<and>
      long2sortable_bytes w [0, 0, 0, 0, 0, 0, 0, 0] = Inr c \<and>
      sortable_bytes2long b = Inr v \<and> sortable_bytes2long c = Inr w \<and> (b < c \<longleftrightarrow> sint v < sint w))"
proof (intro conjI)
  show "\<exists>b c. int2sortable_bytes x [0, 0, 0, 0] = Inr b \<and> int2sortable_bytes y [0, 0, 0, 0] = Inr c \<and>
      sortable_bytes2int b = Inr x \<and> sortable_bytes2int c = Inr y \<and> (b < c \<longleftrightarrow> sint x < sint y)"
    by (simp add: int2sortable_bytes_eq sortable_bytes2int_eq be_roundtrip xor_cancel be_bytes_less
      take_bit_word_eq_self sless_iff_flip_sign [of x y])
  show "\<exists>b c. long2sortable_bytes v [0, 0, 0, 0, 0, 0, 0, 0] = Inr b \<and>
      long2sortable_bytes w [0, 0, 0, 0, 0, 0, 0, 0] = Inr c \<and>
      sortable_bytes2long b = Inr v \<and> sortable_bytes2long c = Inr w \<and> (b < c \<longleftrightarrow> sint v < sint w)"
    by (simp add: long2sortable_bytes_eq sortable_bytes2long_eq be_roundtrip xor_cancel be_bytes_less
      take_bit_word_eq_self sless_iff_flip_sign [of v w])
qed

text \<open>
  C25: the binary gcd loop terminates on every pair of \<open>i64\<close> values but the smallest one, and
  returns their greatest common divisor.
\<close>

theorem gcd_terminates_correct:
  assumes "a \<noteq> 0x8000000000000000" "b \<noteq> 0x8000000000000000"
  shows "\<exists>r. gcd_i64 a b = Some (Inr r) \<and> sint r = gcd (sint a) (sint b)"
  using assms by (rule gcd_i64_spec)

theorem gcd_terminates_correct_witness:
  "\<exists>r. gcd_i64 (- 12) 18 = Some (Inr r) \<and> sint r = gcd (sint (- 12 :: i64)) (sint (18 :: i64))"
  by (rule gcd_terminates_correct) simp_all

end
