(* ===== verification/Data_IO.thy ===== *)
theory Data_IO
  imports Bit_Util "HOL-Library.Finite_Map"
begin

text \<open>
  The byte-level codec of the index files: the default methods of the traits \<open>DataOutput\<close>
  and \<open>DataInput\<close> (\<^verbatim>\<open>src/src/core/store/io/data_output.rs\<close>, \<^verbatim>\<open>data_input.rs\<close>) and
  the in-memory implementors \<open>Vec<u8>\<close>, \<open>&[u8]\<close>, \<open>ByteArrayDataInput\<close>,
  \<open>ByteArrayDataOutput\<close> and \<open>GrowableByteArrayDataOutput\<close>. A trait default method takes
  the implementor's methods as an argument. The locales \<open>data_output\<close> and \<open>data_input\<close> state
  what an implementor promises about the bytes written and the bytes still to be read; every
  codec lemma is proved once inside them.
\<close>

unbundle bit_operations_syntax

section \<open>Output\<close>

text \<open>
  An output is its \<open>Write::write\<close>: it takes a buffer, returns how many bytes it accepted and
  the new state. \<open>write_all\<close> is the standard library's loop over it.
\<close>

type_synonym 's writer = "bytes \<Rightarrow> 's \<Rightarrow> (nat \<times> 's) result"

function write_all :: "'s writer \<Rightarrow> bytes \<Rightarrow> 's \<Rightarrow> 's result" where
  "write_all out buf s =
     (if buf = [] then Inr s
      else case out buf s of
        Inl e \<Rightarrow> Inl e
      | Inr (n, s') \<Rightarrow> if n = 0 then Inl IoWriteZero else write_all out (drop n buf) s')"
  by pat_completeness auto
termination
  by (relation "measure (\<lambda>(out, buf, s). length buf)") auto

declare write_all.simps [simp del]

definition write_byte :: "'s writer \<Rightarrow> u8 \<Rightarrow> 's \<Rightarrow> 's result" where
  "write_byte out b s = write_all out [b] s"

definition write_bytes :: "'s writer \<Rightarrow> bytes \<Rightarrow> nat \<Rightarrow> nat \<Rightarrow> 's \<Rightarrow> 's result" where
  "write_bytes out b offset len s =
     (if \<not> offset + len \<le> length b then Inl (Panic ''offset + length <= b.len()'')
      else write_all out (take len (drop offset b)) s)"

definition write_short :: "'s writer \<Rightarrow> i16 \<Rightarrow> 's \<Rightarrow> 's result" where
  "write_short out i s = write_all out (be_bytes 2 i) s"

definition write_int :: "'s writer \<Rightarrow> i32 \<Rightarrow> 's \<Rightarrow> 's result" where
  "write_int out i s = write_all out (be_bytes 4 i) s"

definition write_long :: "'s writer \<Rightarrow> i64 \<Rightarrow> 's \<Rightarrow> 's result" where
  "write_long out i s = write_all out (be_bytes 8 i) s"

text \<open>The loop shared by \<open>write_vint\<close> (on \<open>u32\<close>) and \<open>_write_signed_vlong\<close> (on \<open>u64\<close>).\<close>

lemma and_not_127: "8 \<le> LENGTH('a) \<Longrightarrow> i AND NOT 0x7f \<noteq> 0 \<longleftrightarrow> 128 \<le> unat i" for i :: "'a::len word"
proof -
  assume len: "8 \<le> LENGTH('a)"
  have m: "(0x7f :: 'a word) = mask 7" by (simp add: mask_eq_exp_minus_1)
  have "i AND NOT (mask 7) = 0 \<longleftrightarrow> (\<forall>n. bit i n \<longrightarrow> n < 7)"
    unfolding bit_eq_iff by (auto simp: bit_and_iff bit_not_iff bit_mask_iff dest: bit_imp_le_length)
  also have "\<dots> \<longleftrightarrow> take_bit 7 i = i"
    unfolding bit_eq_iff by (auto simp: bit_take_bit_iff) (metis bit_imp_le_length)
  also have "\<dots> \<longleftrightarrow> take_bit 7 (unat i) = unat i"
    by (metis unsigned_take_bit_eq unsigned_word_eqI)
  also have "\<dots> \<longleftrightarrow> unat i < 128"
    by (simp add: take_bit_nat_eq_self_iff)
  finally show ?thesis unfolding m by (simp add: not_less)
qed

function write_varint :: "'s writer \<Rightarrow> 'a::len word \<Rightarrow> 's \<Rightarrow> 's result" where
  "write_varint out i s =
     (if 8 \<le> LENGTH('a) \<and> i AND NOT 0x7f \<noteq> 0
      then case write_byte out (ucast ((i AND 0x7f) OR 0x80)) s of
             Inl e \<Rightarrow> Inl e
           | Inr s' \<Rightarrow> write_varint out (drop_bit 7 i) s'
      else write_byte out (ucast i) s)"
  by pat_completeness auto
termination
proof (relation "measure (\<lambda>(out, i, s). unat i)", goal_cases)
  case (2 out i s s')
  then have "128 \<le> unat i" using and_not_127 [of i] by simp
  then have "unat i div 128 < unat i" by simp
  moreover have "unat (drop_bit 7 i) = unat i div 128"
    by (simp only: unat_drop_bit_div) simp
  ultimately show ?case by simp
qed simp

declare write_varint.simps [simp del]

definition write_vint :: "'s writer \<Rightarrow> i32 \<Rightarrow> 's \<Rightarrow> 's result" where
  "write_vint out i s = write_varint out i s"

definition write_zint :: "'s writer \<Rightarrow> i32 \<Rightarrow> 's \<Rightarrow> 's result" where
  "write_zint out i s = write_vint out (zigzag_encode_i32 i) s"

definition write_signed_vlong :: "'s writer \<Rightarrow> i64 \<Rightarrow> 's \<Rightarrow> 's result" where
  "write_signed_vlong out i s = write_varint out i s"

definition write_vlong :: "'s writer \<Rightarrow> i64 \<Rightarrow> 's \<Rightarrow> 's result" where
  "write_vlong out i s =
     (if i <s 0 then Inl (IllegalArgument ''Can't write negative vLong'')
      else write_signed_vlong out i s)"

definition write_zlong :: "'s writer \<Rightarrow> i64 \<Rightarrow> 's \<Rightarrow> 's result" where
  "write_zlong out i s = write_signed_vlong out (zigzag_encode_i64 i) s"

text \<open>A string is its UTF-8 bytes (\<open>as_bytes\<close>); its length is cast to \<open>i32\<close>.\<close>

definition write_string :: "'s writer \<Rightarrow> bytes \<Rightarrow> 's \<Rightarrow> 's result" where
  "write_string out str s = rbind (write_vint out (of_nat (length str)) s) (\<lambda>s'. write_all out str s')"

fun write_string_pairs :: "'s writer \<Rightarrow> (bytes, bytes) fmap \<Rightarrow> bytes list \<Rightarrow> 's \<Rightarrow> 's result" where
  "write_string_pairs out m [] s = Inr s"
| "write_string_pairs out m (k # ks) s =
     rbind (write_string out k s) (\<lambda>s1.
     rbind (case fmlookup m k of None \<Rightarrow> Inl (Panic ''unwrap'') | Some v \<Rightarrow> write_string out v s1)
       (\<lambda>s2. write_string_pairs out m ks s2))"

definition write_map_of_strings :: "'s writer \<Rightarrow> (bytes, bytes) fmap \<Rightarrow> 's \<Rightarrow> 's result" where
  "write_map_of_strings out m s =
     rbind (write_vint out (of_nat (fcard (fmdom m))) s)
       (\<lambda>s'. write_string_pairs out m (sorted_list_of_fset (fmdom m)) s')"

fun write_strings :: "'s writer \<Rightarrow> bytes list \<Rightarrow> 's \<Rightarrow> 's result" where
  "write_strings out [] s = Inr s"
| "write_strings out (k # ks) s = rbind (write_string out k s) (\<lambda>s'. write_strings out ks s')"

definition write_set_of_strings :: "'s writer \<Rightarrow> bytes fset \<Rightarrow> 's \<Rightarrow> 's result" where
  "write_set_of_strings out keys s =
     rbind (write_vint out (of_nat (fcard keys)) s) (\<lambda>s'. write_strings out (sorted_list_of_fset keys) s')"

section \<open>Input\<close>

text \<open>
  An input is \<open>Read::read\<close> (asked for \<open>n\<close> bytes, it returns the bytes it put in the buffer)
  together with the methods of \<open>DataInput\<close> that some implementors override.
\<close>

record 's reader =
  in_read :: "nat \<Rightarrow> 's \<Rightarrow> (bytes \<times> 's) result"
  in_read_byte :: "'s \<Rightarrow> (u8 \<times> 's) result"
  in_read_bytes :: "bytes \<Rightarrow> nat \<Rightarrow> nat \<Rightarrow> 's \<Rightarrow> (bytes \<times> 's) result"
  in_skip_bytes :: "nat \<Rightarrow> 's \<Rightarrow> 's result"

function read_exact :: "(nat \<Rightarrow> 's \<Rightarrow> (bytes \<times> 's) result) \<Rightarrow> nat \<Rightarrow> 's \<Rightarrow> (bytes \<times> 's) result" where
  "read_exact rd n s =
     (if n = 0 then Inr ([], s)
      else case rd n s of
        Inl e \<Rightarrow> Inl e
      | Inr (bs, s') \<Rightarrow>
          if bs = [] then Inl IoUnexpectedEof
          else rbind (read_exact rd (n - length bs) s') (\<lambda>(bs', s''). Inr (bs @ bs', s'')))"
  by pat_completeness auto
termination
  by (relation "measure (\<lambda>(rd, n, s). n)") auto

declare read_exact.simps [simp del]

definition default_read_byte :: "(nat \<Rightarrow> 's \<Rightarrow> (bytes \<times> 's) result) \<Rightarrow> 's \<Rightarrow> (u8 \<times> 's) result" where
  "default_read_byte rd s =
     rbind (rd 1 s) (\<lambda>(bs, s').
       case bs of [b] \<Rightarrow> Inr (b, s')
       | _ \<Rightarrow> Inl (UnexpectedEOF ''Reached EOF when a single byte is expected''))"

definition default_read_bytes ::
  "(nat \<Rightarrow> 's \<Rightarrow> (bytes \<times> 's) result) \<Rightarrow> bytes \<Rightarrow> nat \<Rightarrow> nat \<Rightarrow> 's \<Rightarrow> (bytes \<times> 's) result" where
  "default_read_bytes rd b offset len s =
     (if length b < offset + len then Inl (IllegalArgument ''Buffer too small'')
      else rbind (rd len s) (\<lambda>(bs, s').
        if length bs \<noteq> len then Inl (UnexpectedEOF ''Reached EOF'')
        else Inr (take offset b @ bs @ drop (offset + len) b, s')))"

text \<open>\<open>skip_bytes\<close> reads through a buffer of 1024 bytes.\<close>

function default_skip_bytes ::
  "(bytes \<Rightarrow> nat \<Rightarrow> nat \<Rightarrow> 's \<Rightarrow> (bytes \<times> 's) result) \<Rightarrow> nat \<Rightarrow> nat \<Rightarrow> bytes \<Rightarrow> 's \<Rightarrow> 's result" where
  "default_skip_bytes rdb count skipped skip_buffer s =
     (if skipped < count
      then case rdb skip_buffer 0 (min 1024 (count - skipped)) s of
             Inl e \<Rightarrow> Inl e
           | Inr (buf, s') \<Rightarrow> default_skip_bytes rdb count (skipped + min 1024 (count - skipped)) buf s'
      else Inr s)"
  by pat_completeness auto
termination
  by (relation "measure (\<lambda>(rdb, count, skipped, b, s). count - skipped)") auto

declare default_skip_bytes.simps [simp del]

definition read_short :: "('s, 'e) reader_scheme \<Rightarrow> 's \<Rightarrow> (i16 \<times> 's) result" where
  "read_short inp s = rbind (read_exact (in_read inp) 2 s) (\<lambda>(bs, s'). Inr (be_word bs, s'))"

definition read_int :: "('s, 'e) reader_scheme \<Rightarrow> 's \<Rightarrow> (i32 \<times> 's) result" where
  "read_int inp s = rbind (read_exact (in_read inp) 4 s) (\<lambda>(bs, s'). Inr (be_word bs, s'))"

definition read_long :: "('s, 'e) reader_scheme \<Rightarrow> 's \<Rightarrow> (i64 \<times> 's) result" where
  "read_long inp s = rbind (read_exact (in_read inp) 8 s) (\<lambda>(bs, s'). Inr (be_word bs, s'))"

text \<open>
  The unrolled steps of \<open>read_vint\<close> and \<open>read_vlong_ex\<close>: one byte per shift, added to \<open>i\<close>
  below its top bit; a byte with the top bit clear (\<open>b >= 0\<close> as \<open>i8\<close>) ends the number. The
  flag says whether that happened within the given shifts.
\<close>

fun read_groups :: "('s, 'e) reader_scheme \<Rightarrow> nat list \<Rightarrow> 'a::len word \<Rightarrow> 's \<Rightarrow> (('a word \<times> bool) \<times> 's) result" where
  "read_groups inp [] i s = Inr ((i, False), s)"
| "read_groups inp (sh # shs) i s =
     rbind (in_read_byte inp s) (\<lambda>(b, s').
       let i' = i OR push_bit sh (scast b AND 0x7f)
       in if 0 \<le>s b then Inr ((i', True), s') else read_groups inp shs i' s')"

definition read_vint :: "('s, 'e) reader_scheme \<Rightarrow> 's \<Rightarrow> (i32 \<times> 's) result" where
  "read_vint inp s =
     rbind (in_read_byte inp s) (\<lambda>(b, s1).
     if 0 \<le>s b then Inr (scast b, s1)
     else rbind (read_groups inp [7, 14, 21] (scast b AND 0x7f) s1) (\<lambda>((i, done), s2).
     if done then Inr (i, s2)
     else rbind (in_read_byte inp s2) (\<lambda>(b, s3).
       let i' = i OR push_bit 28 (scast b AND 0x0f)
       in if b AND 0xf0 \<noteq> 0 then Inl (IllegalState ''Invalid vInt detected'')
          else Inr (i', s3))))"

definition read_zint :: "('s, 'e) reader_scheme \<Rightarrow> 's \<Rightarrow> (i32 \<times> 's) result" where
  "read_zint inp s = rbind (read_vint inp s) (\<lambda>(i, s'). Inr (zigzag_decode_i32 i, s'))"

definition read_vlong_ex :: "('s, 'e) reader_scheme \<Rightarrow> bool \<Rightarrow> 's \<Rightarrow> (i64 \<times> 's) result" where
  "read_vlong_ex inp negative_allowed s =
     rbind (in_read_byte inp s) (\<lambda>(b, s1).
     if 0 \<le>s b then Inr (scast b, s1)
     else rbind (read_groups inp [7, 14, 21, 28, 35, 42, 49, 56] (scast b AND 0x7f) s1) (\<lambda>((i, done), s2).
     if done then Inr (i, s2)
     else if negative_allowed
     then rbind (in_read_byte inp s2) (\<lambda>(b, s3).
       if b = 0 \<or> b = 1 then Inr (i OR push_bit 63 (scast b AND 0x7f), s3)
       else Inl (IllegalState ''Invalid vLong detected''))
     else Inl (IllegalState ''Invalid vLong detected'')))"

definition read_vlong :: "('s, 'e) reader_scheme \<Rightarrow> 's \<Rightarrow> (i64 \<times> 's) result" where
  "read_vlong inp s = read_vlong_ex inp False s"

definition read_zlong :: "('s, 'e) reader_scheme \<Rightarrow> 's \<Rightarrow> (i64 \<times> 's) result" where
  "read_zlong inp s = rbind (read_vlong_ex inp True s) (\<lambda>(i, s'). Inr (zigzag_decode_i64 i, s'))"

text \<open>\<open>String::from_utf8\<close>: the well-formed byte sequences of UTF-8.\<close>

definition utf8_cont :: "u8 \<Rightarrow> bool" where
  "utf8_cont b \<longleftrightarrow> 0x80 \<le> b \<and> b \<le> 0xbf"

fun utf8_valid :: "bytes \<Rightarrow> bool" where
  "utf8_valid [] = True"
| "utf8_valid (a # bs) =
     (if a < 0x80 then utf8_valid bs
      else case bs of
        b # cs \<Rightarrow>
          if 0xc2 \<le> a \<and> a \<le> 0xdf then utf8_cont b \<and> utf8_valid cs
          else (case cs of
            c # ds \<Rightarrow>
              if 0xe0 \<le> a \<and> a \<le> 0xef
              then utf8_cont b \<and> utf8_cont c \<and> (a = 0xe0 \<longrightarrow> 0xa0 \<le> b) \<and> (a = 0xed \<longrightarrow> b \<le> 0x9f) \<and> utf8_valid ds
              else (case ds of
                d # es \<Rightarrow>
                  0xf0 \<le> a \<and> a \<le> 0xf4 \<and> utf8_cont b \<and> utf8_cont c \<and> utf8_cont d
                  \<and> (a = 0xf0 \<longrightarrow> 0x90 \<le> b) \<and> (a = 0xf4 \<longrightarrow> b \<le> 0x8f) \<and> utf8_valid es
              | [] \<Rightarrow> False)
          | [] \<Rightarrow> False)
      | [] \<Rightarrow> False)"

definition read_string :: "('s, 'e) reader_scheme \<Rightarrow> 's \<Rightarrow> (bytes \<times> 's) result" where
  "read_string inp s =
     rbind (read_vint inp s) (\<lambda>(len, s1).
     if len <s 0 then Inl (IllegalState ''Invalid String detected'')
     else rbind (read_exact (in_read inp) (unat len) s1) (\<lambda>(buffer, s2).
       if utf8_valid buffer then Inr (buffer, s2) else Inl FromUtf8Err))"

primrec read_string_pairs ::
  "('s, 'e) reader_scheme \<Rightarrow> nat \<Rightarrow> (bytes, bytes) fmap \<Rightarrow> 's \<Rightarrow> ((bytes, bytes) fmap \<times> 's) result" where
  "read_string_pairs inp 0 m s = Inr (m, s)"
| "read_string_pairs inp (Suc n) m s =
     rbind (read_string inp s) (\<lambda>(k, s1).
     rbind (read_string inp s1) (\<lambda>(v, s2). read_string_pairs inp n (fmupd k v m) s2))"

definition read_map_of_strings :: "('s, 'e) reader_scheme \<Rightarrow> 's \<Rightarrow> ((bytes, bytes) fmap \<times> 's) result" where
  "read_map_of_strings inp s =
     rbind (read_vint inp s) (\<lambda>(count, s1).
     if count <s 0 then Inl (IllegalState ''Invalid StringMap detected'')
     else if count \<noteq> 0 then read_string_pairs inp (unat count) fmempty s1
     else Inr (fmempty, s1))"

primrec read_strings ::
  "('s, 'e) reader_scheme \<Rightarrow> nat \<Rightarrow> bytes fset \<Rightarrow> 's \<Rightarrow> (bytes fset \<times> 's) result" where
  "read_strings inp 0 hash_set s = Inr (hash_set, s)"
| "read_strings inp (Suc n) hash_set s =
     rbind (read_string inp s) (\<lambda>(k, s1). read_strings inp n (finsert k hash_set) s1)"

definition read_set_of_strings :: "('s, 'e) reader_scheme \<Rightarrow> 's \<Rightarrow> (bytes fset \<times> 's) result" where
  "read_set_of_strings inp s =
     rbind (read_vint inp s) (\<lambda>(count, s1).
     if count <s 0 then Inl (IllegalState ''Invalid StringSet detected'')
     else if count \<noteq> 0 then read_strings inp (unat count) {||} s1
     else Inr ({||}, s1))"

text \<open>\<open>DataOutput::copy_bytes\<close>: through a buffer of 16384 bytes.\<close>

function copy_bytes :: "'o writer \<Rightarrow> ('s, 'e) reader_scheme \<Rightarrow> nat \<Rightarrow> bytes \<Rightarrow> 'o \<Rightarrow> 's \<Rightarrow> ('o \<times> 's) result" where
  "copy_bytes out inp left copy_buffer o' s =
     (if 0 < left
      then case in_read_bytes inp copy_buffer 0 (min 16384 left) s of
             Inl e \<Rightarrow> Inl e
           | Inr (buf, s') \<Rightarrow>
               (case write_all out (take (min 16384 left) buf) o' of
                  Inl e \<Rightarrow> Inl e
                | Inr o'' \<Rightarrow> copy_bytes out inp (left - min 16384 left) buf o'' s')
      else Inr (o', s))"
  by pat_completeness auto
termination
  by (relation "measure (\<lambda>(out, inp, left, b, o', s). left)") auto

declare copy_bytes.simps [simp del]

section \<open>Implementors\<close>

text \<open>\<open>impl Write for Vec<u8>\<close> of the standard library appends the whole buffer.\<close>

definition vec_write :: "bytes writer" where
  "vec_write buf v = Inr (length buf, v @ buf)"

text \<open>\<open>impl DataInput for &[u8]\<close>: the state is the slice that is left.\<close>

definition slice_read :: "nat \<Rightarrow> bytes \<Rightarrow> (bytes \<times> bytes) result" where
  "slice_read n s = Inr (take n s, drop n s)"

definition slice_read_byte :: "bytes \<Rightarrow> (u8 \<times> bytes) result" where
  "slice_read_byte s = (case s of [] \<Rightarrow> Inl IoUnexpectedEof | b # bs \<Rightarrow> Inr (b, bs))"

definition slice_skip_bytes :: "nat \<Rightarrow> bytes \<Rightarrow> bytes result" where
  "slice_skip_bytes count s = (if length s < count then Inl IoUnexpectedEof else Inr (drop count s))"

definition slice_reader :: "bytes reader" where
  "slice_reader = \<lparr>in_read = slice_read, in_read_byte = slice_read_byte,
     in_read_bytes = default_read_bytes slice_read, in_skip_bytes = slice_skip_bytes\<rparr>"

record byte_array_input =
  bai_bytes :: bytes
  bai_pos :: nat

definition bai_new :: "bytes \<Rightarrow> byte_array_input" where
  "bai_new bs = \<lparr>bai_bytes = bs, bai_pos = 0\<rparr>"

definition bai_rewind :: "byte_array_input \<Rightarrow> byte_array_input" where
  "bai_rewind s = s\<lparr>bai_pos := 0\<rparr>"

definition bai_set_position :: "nat \<Rightarrow> byte_array_input \<Rightarrow> byte_array_input" where
  "bai_set_position pos s = s\<lparr>bai_pos := pos\<rparr>"

definition bai_length :: "byte_array_input \<Rightarrow> nat" where
  "bai_length s = length (bai_bytes s)"

definition bai_eof :: "byte_array_input \<Rightarrow> bool" where
  "bai_eof s \<longleftrightarrow> bai_pos s = bai_length s"

definition bai_reset :: "bytes \<Rightarrow> byte_array_input \<Rightarrow> byte_array_input" where
  "bai_reset bs s = s\<lparr>bai_bytes := bs, bai_pos := 0\<rparr>"

definition bai_get_slice :: "nat \<Rightarrow> nat \<Rightarrow> byte_array_input \<Rightarrow> bytes result" where
  "bai_get_slice pos len s =
     (let limit = length (bai_bytes s)
      in if pos < bai_pos s \<or> limit < pos \<or> limit < pos + len then Inl (RuntimeError ''Invalid Argument'')
         else Inr (take len (drop pos (bai_bytes s))))"

definition bai_read_byte :: "byte_array_input \<Rightarrow> (u8 \<times> byte_array_input) result" where
  "bai_read_byte s =
     (if bai_pos s < length (bai_bytes s)
      then Inr (bai_bytes s ! bai_pos s, s\<lparr>bai_pos := bai_pos s + 1\<rparr>)
      else Inl (Panic ''index out of bounds''))"

definition bai_read_bytes :: "bytes \<Rightarrow> nat \<Rightarrow> nat \<Rightarrow> byte_array_input \<Rightarrow> (bytes \<times> byte_array_input) result" where
  "bai_read_bytes b offset len s =
     (if length b < offset + len \<or> length (bai_bytes s) < bai_pos s + len
      then Inl (Panic ''range end index out of range'')
      else Inr (take offset b @ take len (drop (bai_pos s) (bai_bytes s)) @ drop (offset + len) b,
                s\<lparr>bai_pos := bai_pos s + len\<rparr>))"

definition bai_skip_bytes :: "nat \<Rightarrow> byte_array_input \<Rightarrow> byte_array_input result" where
  "bai_skip_bytes count s = Inr (s\<lparr>bai_pos := bai_pos s + count\<rparr>)"

definition bai_read :: "nat \<Rightarrow> byte_array_input \<Rightarrow> (bytes \<times> byte_array_input) result" where
  "bai_read n s =
     (if bai_length s < bai_pos s then Inl (Panic ''attempt to subtract with overflow'')
      else let size = min n (bai_length s - bai_pos s)
           in Inr (take size (drop (bai_pos s) (bai_bytes s)), s\<lparr>bai_pos := bai_pos s + size\<rparr>))"

definition bai_reader :: "byte_array_input reader" where
  "bai_reader = \<lparr>in_read = bai_read, in_read_byte = bai_read_byte,
     in_read_bytes = bai_read_bytes, in_skip_bytes = bai_skip_bytes\<rparr>"

record byte_array_output =
  bao_bytes :: bytes
  bao_pos :: nat
  bao_limit :: nat

definition bao_new :: "bytes \<Rightarrow> nat \<Rightarrow> nat \<Rightarrow> byte_array_output" where
  "bao_new bs offset len = \<lparr>bao_bytes = bs, bao_pos = offset, bao_limit = offset + len\<rparr>"

definition bao_write :: "byte_array_output writer" where
  "bao_write buf s =
     (if bao_limit s < bao_pos s then Inl (Panic ''attempt to subtract with overflow'')
      else let len = min (bao_limit s - bao_pos s) (length buf); pos = bao_pos s
      in if length (bao_bytes s) < pos + len then Inl (Panic ''range end index out of range'')
         else Inr (len, s\<lparr>bao_bytes := take pos (bao_bytes s) @ take len buf @ drop (pos + len) (bao_bytes s),
                          bao_pos := pos + len\<rparr>))"

record growable_output =
  go_bytes :: bytes
  go_length :: nat

definition go_new :: "nat \<Rightarrow> growable_output" where
  "go_new cp = \<lparr>go_bytes = replicate (cp + 65536) 0, go_length = 0\<rparr>"

definition go_reset :: "growable_output \<Rightarrow> growable_output" where
  "go_reset s = s\<lparr>go_length := 0\<rparr>"

definition go_write :: "growable_output writer" where
  "go_write buf s =
     (let buf_len = length buf; new_len = go_length s + buf_len;
          bs = (if length (go_bytes s) < new_len
                then go_bytes s @ replicate (new_len - length (go_bytes s)) 0 else go_bytes s)
      in Inr (buf_len, s\<lparr>go_bytes := take (go_length s) bs @ buf @ drop new_len bs, go_length := new_len\<rparr>))"

section \<open>The reference encoding\<close>

text \<open>
  Little-endian groups of seven bits, the top bit of each byte saying that more follow:
  the specification of the variable-length integers, on natural numbers.
\<close>

function vnat_bytes :: "nat \<Rightarrow> bytes" where
  "vnat_bytes n = (if n < 128 then [of_nat n] else of_nat (n mod 128 + 128) # vnat_bytes (n div 128))"
  by pat_completeness auto
termination
  by (relation "measure id") auto

declare vnat_bytes.simps [simp del]

definition string_bytes :: "bytes \<Rightarrow> bytes" where
  "string_bytes str = vnat_bytes (length str) @ str"

lemma length_vnat_bytes: "n < 2 ^ (7 * k) \<Longrightarrow> 0 < k \<Longrightarrow> length (vnat_bytes n) \<le> k"
proof (induction n arbitrary: k rule: vnat_bytes.induct)
  case (1 n)
  show ?case
  proof (cases "n < 128")
    case True
    then show ?thesis using 1 by (subst vnat_bytes.simps) simp
  next
    case False
    then have "k \<noteq> 1" using "1.prems" by (intro notI) simp
    with "1.prems"(2) obtain j where k: "k = Suc j" "0 < j" by (cases k) auto
    have "n div 128 < 2 ^ (7 * j)"
      using "1.prems"(1) unfolding k(1)
      by (simp add: less_mult_imp_div_less power_add mult.commute)
    then have "length (vnat_bytes (n div 128)) \<le> j" using "1.IH" False k(2) by simp
    then show ?thesis using False k by (subst vnat_bytes.simps) simp
  qed
qed

text \<open>What a successful read means: the value, the invariant, the bytes left.\<close>

definition yields :: "('s \<Rightarrow> bytes) \<Rightarrow> ('s \<Rightarrow> bool) \<Rightarrow> ('a \<times> 's) result \<Rightarrow> 'a \<Rightarrow> bytes \<Rightarrow> bool" where
  "yields rest invar res v r \<longleftrightarrow> (\<exists>s'. res = Inr (v, s') \<and> invar s' \<and> rest s' = r)"

lemma yieldsI: "res = Inr (v, s') \<Longrightarrow> invar s' \<Longrightarrow> rest s' = r \<Longrightarrow> yields rest invar res v r"
  by (auto simp: yields_def)

lemma yieldsE:
  assumes "yields rest invar res v r"
  obtains s' where "res = Inr (v, s')" "invar s'" "rest s' = r"
  using assms by (auto simp: yields_def)

lemma yields_bind:
  assumes "yields rest invar m v r"
    and "\<And>s'. invar s' \<Longrightarrow> rest s' = r \<Longrightarrow> yields rest invar (f (v, s')) w r'"
  shows "yields rest invar (rbind m f) w r'"
  using assms by (auto simp: yields_def)

section \<open>Contracts\<close>

lemma bit_128: "bit (128 :: 'a::len word) n \<longleftrightarrow> n = 7 \<and> 7 < LENGTH('a)"
  using bit_exp_iff [of 7 n, where 'a = "'a word"] by auto

lemma continued_byte_or:
  "(of_nat (unat i mod 128 + 128) :: u8) = take_bit 7 (ucast i) OR 2 ^ 7" for i :: "'a::len word"
proof -
  have "take_bit 7 (ucast i :: u8) = of_nat (unat i mod 128)"
  proof -
    have "unat (take_bit 7 (ucast i :: u8)) = take_bit 7 (unat i)"
      by (simp only: unsigned_take_bit_eq unsigned_ucast_eq take_bit_take_bit) simp
    also have "\<dots> = unat i mod 128" by (simp add: take_bit_eq_mod)
    finally show ?thesis by (metis of_nat_unat ucast_id)
  qed
  moreover have "take_bit 7 (ucast i :: u8) OR 2 ^ 7 = take_bit 7 (ucast i) + 2 ^ 7"
    by (rule disjunctive_add [symmetric]) (simp only: bit_take_bit_iff bit_exp_iff, blast)
  ultimately show ?thesis by simp
qed

lemma continued_byte_bit:
  "bit (of_nat (unat i mod 128 + 128) :: u8) n \<longleftrightarrow> n = 7 \<or> n < 7 \<and> bit i n" for i :: "'a::len word"
  by (simp only: continued_byte_or bit_or_iff bit_take_bit_iff bit_exp_iff) (auto simp: bit_simps)

lemma continued_byte:
  fixes i :: "'a::len word"
  assumes "8 \<le> LENGTH('a)"
  shows "(ucast ((i AND 0x7f) OR 0x80) :: u8) = of_nat (unat i mod 128 + 128)"
proof (rule bit_word_eqI)
  have m: "(0x7f :: 'a word) = mask 7" by (simp add: mask_eq_exp_minus_1)
  fix n assume "n < LENGTH(8)"
  then show "bit (ucast ((i AND 0x7f) OR 0x80) :: u8) n = bit (of_nat (unat i mod 128 + 128) :: u8) n"
    using assms unfolding continued_byte_bit m
    by (simp only: bit_word_ucast_iff bit_or_iff bit_and_iff bit_mask_iff bit_128 possible_bit_word) auto
qed

locale data_output =
  fixes out :: "'s writer"
    and written :: "'s \<Rightarrow> bytes"
    and fits :: "nat \<Rightarrow> 's \<Rightarrow> bool"
  assumes write_some:
      "buf \<noteq> [] \<Longrightarrow> length buf \<le> n \<Longrightarrow> fits n s \<Longrightarrow>
       \<exists>k s'. 0 < k \<and> k \<le> length buf \<and> out buf s = Inr (k, s') \<and>
              written s' = written s @ take k buf \<and> fits (n - k) s'"
begin

definition appends :: "nat \<Rightarrow> 's \<Rightarrow> 's result \<Rightarrow> bytes \<Rightarrow> bool" where
  "appends n s res bs \<longleftrightarrow> (\<exists>s'. res = Inr s' \<and> written s' = written s @ bs \<and> fits (n - length bs) s')"

lemma appends_bind:
  assumes "appends n s m bs"
    and "\<And>s'. fits (n - length bs) s' \<Longrightarrow> appends (n - length bs) s' (f s') cs"
  shows "appends n s (rbind m f) (bs @ cs)"
  using assms by (fastforce simp: appends_def)

lemma appends_Nil: "fits n s \<Longrightarrow> appends n s (Inr s) []"
  by (simp add: appends_def)

lemma write_all_appends: "length buf \<le> n \<Longrightarrow> fits n s \<Longrightarrow> appends n s (write_all out buf s) buf"
proof (induction "length buf" arbitrary: buf n s rule: less_induct)
  case less
  show ?case
  proof (cases "buf = []")
    case True
    then show ?thesis using less.prems by (subst write_all.simps) (simp add: appends_def)
  next
    case False
    obtain k s' where k: "0 < k" "k \<le> length buf" "out buf s = Inr (k, s')"
      "written s' = written s @ take k buf" "fits (n - k) s'"
      using write_some [OF False less.prems] by blast
    have "appends (n - k) s' (write_all out (drop k buf) s') (drop k buf)"
      using k less.prems False by (intro less.hyps) auto
    then show ?thesis
      using k False by (subst write_all.simps) (auto simp: appends_def)
  qed
qed

lemma write_byte_appends: "0 < n \<Longrightarrow> fits n s \<Longrightarrow> appends n s (write_byte out b s) [b]"
  unfolding write_byte_def by (rule write_all_appends) auto

lemma write_varint_appends:
  fixes i :: "'a::len word"
  assumes "8 \<le> LENGTH('a)" "length (vnat_bytes (unat i)) \<le> n" "fits n s"
  shows "appends n s (write_varint out i s) (vnat_bytes (unat i))"
  using assms
proof (induction "unat i" arbitrary: i n s rule: less_induct)
  case less
  show ?case
  proof (cases "unat i < 128")
    case True
    then have "i AND NOT 0x7f = 0" using and_not_127 [OF less.prems(1), of i] by auto
    then have w: "write_varint out i s = write_byte out (ucast i) s"
      by (subst write_varint.simps) simp
    have v: "vnat_bytes (unat i) = [ucast i]"
      using True by (subst vnat_bytes.simps) simp
    show ?thesis
      using less.prems(2) unfolding w v by (intro write_byte_appends less.prems(3)) simp
  next
    case False
    have c: "i AND NOT 0x7f \<noteq> 0" using False and_not_127 [OF less.prems(1), of i] by simp
    have d: "unat (drop_bit 7 i) = unat i div 128" by (simp only: unat_drop_bit_div) simp
    have v: "vnat_bytes (unat i) = of_nat (unat i mod 128 + 128) # vnat_bytes (unat (drop_bit 7 i))"
      unfolding d using False by (subst vnat_bytes.simps) simp
    have len: "length (vnat_bytes (unat (drop_bit 7 i))) \<le> n - 1" and n: "0 < n"
      using less.prems(2) unfolding v by auto
    have dec: "unat (drop_bit 7 i) < unat i" unfolding d using False by simp
    have "appends n s (write_byte out (ucast ((i AND 0x7f) OR 0x80)) s) [of_nat (unat i mod 128 + 128)]"
      unfolding continued_byte [OF less.prems(1)] by (rule write_byte_appends [OF n less.prems(3)])
    then obtain s' where s': "write_byte out (ucast ((i AND 0x7f) OR 0x80)) s = Inr s'"
      "written s' = written s @ [of_nat (unat i mod 128 + 128)]" "fits (n - 1) s'"
      by (auto simp: appends_def)
    have "appends (n - 1) s' (write_varint out (drop_bit 7 i) s') (vnat_bytes (unat (drop_bit 7 i)))"
      by (rule less.hyps [OF dec less.prems(1) len s'(3)])
    then have "appends n s (write_varint out i s)
        ([of_nat (unat i mod 128 + 128)] @ vnat_bytes (unat (drop_bit 7 i)))"
      using c less.prems(1) s'(1,2) by (subst write_varint.simps) (fastforce simp: appends_def)
    then show ?thesis unfolding v by simp
  qed
qed

lemma write_string_appends:
  assumes "length str < 2 ^ 32" "length (string_bytes str) \<le> n" "fits n s"
  shows "appends n s (write_string out str s) (string_bytes str)"
proof -
  have u: "unat (of_nat (length str) :: i32) = length str"
    using assms(1) by (simp add: unat_of_nat)
  have n: "length (vnat_bytes (length str)) \<le> n" "length str \<le> n - length (vnat_bytes (length str))"
    using assms(2) by (auto simp: string_bytes_def)
  have "appends n s (write_vint out (of_nat (length str)) s) (vnat_bytes (length str))"
    using write_varint_appends [of "of_nat (length str) :: i32" n s] n(1) assms(3)
    by (simp add: write_vint_def u del: of_nat_numeral)
  then show ?thesis
    unfolding write_string_def string_bytes_def
    by (rule appends_bind) (rule write_all_appends [OF n(2)])
qed

lemma write_strings_appends:
  assumes "\<forall>k \<in> set ks. length k < 2 ^ 32" "length (concat (map string_bytes ks)) \<le> n" "fits n s"
  shows "appends n s (write_strings out ks s) (concat (map string_bytes ks))"
  using assms
proof (induction ks arbitrary: n s)
  case Nil
  then show ?case by (simp add: appends_Nil)
next
  case (Cons k ks)
  have "appends n s (write_string out k s) (string_bytes k)"
    using Cons.prems by (intro write_string_appends) auto
  then have "appends n s (rbind (write_string out k s) (write_strings out ks))
      (string_bytes k @ concat (map string_bytes ks))"
    by (rule appends_bind) (use Cons in auto)
  then show ?case by simp
qed

lemma write_string_pairs_appends:
  assumes "set ks \<subseteq> fset (fmdom m)" "\<forall>k v. fmlookup m k = Some v \<longrightarrow> length k < 2 ^ 32 \<and> length v < 2 ^ 32"
    and "length (concat (map (\<lambda>k. string_bytes k @ string_bytes (the (fmlookup m k))) ks)) \<le> n" "fits n s"
  shows "appends n s (write_string_pairs out m ks s)
    (concat (map (\<lambda>k. string_bytes k @ string_bytes (the (fmlookup m k))) ks))"
  using assms
proof (induction ks arbitrary: n s)
  case Nil
  then show ?case by (simp add: appends_Nil)
next
  case (Cons k ks)
  then obtain v where v: "fmlookup m k = Some v" by (auto elim: fmdomE)
  then have l: "length k < 2 ^ 32" "length v < 2 ^ 32" using Cons.prems(2) by auto
  let ?r = "concat (map (\<lambda>k. string_bytes k @ string_bytes (the (fmlookup m k))) ks)"
  have n: "length (string_bytes k) + (length (string_bytes v) + length ?r) \<le> n"
    using Cons.prems(3) v by simp
  have "appends n s (write_string_pairs out m (k # ks) s) (string_bytes k @ string_bytes v @ ?r)"
    unfolding write_string_pairs.simps
  proof (rule appends_bind)
    show "appends n s (write_string out k s) (string_bytes k)"
      using l n Cons.prems by (intro write_string_appends) auto
    fix s1 assume s1: "fits (n - length (string_bytes k)) s1"
    show "appends (n - length (string_bytes k)) s1
        (rbind (case fmlookup m k of None \<Rightarrow> Inl (Panic ''unwrap'') | Some v \<Rightarrow> write_string out v s1)
          (write_string_pairs out m ks)) (string_bytes v @ ?r)"
    proof (rule appends_bind)
      show "appends (n - length (string_bytes k)) s1
          (case fmlookup m k of None \<Rightarrow> Inl (Panic ''unwrap'') | Some v \<Rightarrow> write_string out v s1) (string_bytes v)"
        using v l n s1 by (simp add: write_string_appends)
      show "appends (n - length (string_bytes k) - length (string_bytes v)) s2 (write_string_pairs out m ks s2) ?r"
        if "fits (n - length (string_bytes k) - length (string_bytes v)) s2" for s2
        using that n Cons.prems by (intro Cons.IH) auto
    qed
  qed
  then show ?case using v by simp
qed

end

text \<open>What one byte of a variable-length integer contributes to the value being read.\<close>

lemma byte_nonneg: "0 \<le>s (b :: u8) \<longleftrightarrow> unat b < 128"
proof -
  have "0 \<le>s b \<longleftrightarrow> \<not> b <s 0" by (simp add: word_sle_eq word_sless_alt not_less)
  also have "\<dots> \<longleftrightarrow> \<not> bit b 7" by (simp add: sless_0_bit)
  also have "bit b 7 \<longleftrightarrow> odd (unat b div 2 ^ 7)"
    using bit_iff_odd [of "unat b" 7] by (simp add: bit_unsigned_iff)
  also have "\<not> odd (unat b div 2 ^ 7) \<longleftrightarrow> unat b < 128"
  proof -
    have "unat b < 256" using unsigned_less [of b, where 'a = nat] by simp
    then have "\<not> unat b < 128 \<Longrightarrow> unat b div 2 ^ 7 = 1" by (intro div_nat_eqI) auto
    then show ?thesis by (cases "unat b < 128") (auto simp del: One_nat_def)
  qed
  finally show ?thesis .
qed

lemma last_group:
  fixes x :: "'a::len word"
  assumes "8 \<le> LENGTH('a)" "unat x < 128"
  shows "(scast (of_nat (unat x) :: u8) :: 'a word) = x" "(scast (of_nat (unat x) :: u8) AND 0x7f :: 'a word) = x"
    "0 \<le>s (of_nat (unat x) :: u8)"
proof -
  have m: "(0x7f :: 'a word) = mask 7" by (simp add: mask_eq_exp_minus_1)
  have t: "take_bit 7 x = x" using assms(2) by (simp add: word_eq_iff_unsigned [where 'a = nat] unat_take_bit_mod)
  then have b: "bit x n \<Longrightarrow> n < 7" for n by (metis bit_take_bit_iff)
  show "(scast (of_nat (unat x) :: u8) :: 'a word) = x"
    using assms(1) by (intro bit_word_eqI) (auto simp: bit_simps min_def dest: b)
  then show "(scast (of_nat (unat x) :: u8) AND 0x7f :: 'a word) = x"
    unfolding m by (simp only: take_bit_eq_mask [symmetric] t)
  show "0 \<le>s (of_nat (unat x) :: u8)"
    using assms by (simp only: byte_nonneg unat_of_nat) simp
qed

lemma more_group:
  fixes x :: "'a::len word"
  assumes "8 \<le> LENGTH('a)"
  shows "(scast (of_nat (unat x mod 128 + 128) :: u8) AND 0x7f :: 'a word) = take_bit 7 x"
    "\<not> 0 \<le>s (of_nat (unat x mod 128 + 128) :: u8)"
proof -
  have m: "(0x7f :: 'a word) = mask 7" by (simp add: mask_eq_exp_minus_1)
  show "(scast (of_nat (unat x mod 128 + 128) :: u8) AND 0x7f :: 'a word) = take_bit 7 x"
    unfolding m take_bit_eq_mask [symmetric]
    by (rule bit_word_eqI) (simp only: bit_take_bit_iff bit_word_scast_iff continued_byte_bit, auto)
  show "\<not> 0 \<le>s (of_nat (unat x mod 128 + 128) :: u8)"
    by (simp only: byte_nonneg unat_of_nat) simp
qed

lemma join_groups:
  fixes w :: "'a::len word"
  shows "take_bit sh w OR push_bit sh (drop_bit sh w) = w"
    "take_bit sh w OR push_bit sh (take_bit k (drop_bit sh w)) = take_bit (sh + k) w"
proof -
  show "take_bit sh w OR push_bit sh (drop_bit sh w) = w"
    by (rule bit_word_eqI, rename_tac n, case_tac "n < sh") (auto simp: bit_simps)
  show "take_bit sh w OR push_bit sh (take_bit k (drop_bit sh w)) = take_bit (sh + k) w"
    by (rule bit_word_eqI, rename_tac n, case_tac "n < sh") (auto simp: bit_simps)
qed

text \<open>The topmost group of a 32-bit integer has four bits, that of a 64-bit integer one.\<close>

lemma top_group_i32:
  fixes w :: i32
  defines "x \<equiv> drop_bit 28 w"
  shows "unat x < 128" "(of_nat (unat x) :: u8) AND 0xf0 = 0"
    "take_bit 28 w OR push_bit 28 (scast (of_nat (unat x) :: u8) AND 0x0f) = w"
proof -
  have m: "(0x0f :: i32) = mask 4" by (simp add: mask_eq_exp_minus_1)
  have x: "unat x < 16"
    using unsigned_less [of w, where 'a = nat] unfolding x_def
    by (simp only: unat_drop_bit_div) (simp add: less_mult_imp_div_less)
  then show lt: "unat x < 128" by simp
  have b: "bit x n \<Longrightarrow> n < 4" for n
    unfolding x_def by (auto simp: bit_simps dest: bit_imp_le_length)
  show "(of_nat (unat x) :: u8) AND 0xf0 = 0"
  proof -
    have "(0xf0 :: u8) = NOT (mask 4)" by (simp add: mask_eq_exp_minus_1)
    then show ?thesis
      by (simp only: bit_eq_iff) (auto simp: bit_simps dest!: b)
  qed
  have "x AND 0x0f = x"
    unfolding m take_bit_eq_mask [symmetric]
    by (rule bit_word_eqI) (auto simp: bit_take_bit_iff dest: b)
  then show "take_bit 28 w OR push_bit 28 (scast (of_nat (unat x) :: u8) AND 0x0f) = w"
    using last_group(1) [of x] lt join_groups(1) [of 28 w] by (simp add: x_def del: of_nat_unat)
qed

lemma top_group_i64:
  fixes w :: i64
  defines "x \<equiv> drop_bit 63 w"
  assumes "x \<noteq> 0"
  shows "unat x < 128" "(of_nat (unat x) :: u8) = 1"
    "take_bit 63 w OR push_bit 63 (scast (of_nat (unat x) :: u8) AND 0x7f) = w" "\<not> unat w < 2 ^ 63"
proof -
  have d: "unat x = unat w div 2 ^ 63" unfolding x_def by (rule unat_drop_bit_div)
  have "unat x < 2"
    using unsigned_less [of w, where 'a = nat] unfolding d by (simp add: less_mult_imp_div_less)
  moreover have "unat x \<noteq> 0" using assms(2) by (metis unsigned_0 unsigned_word_eqI)
  ultimately have one: "unat x = 1" by simp
  then show lt: "unat x < 128" and "(of_nat (unat x) :: u8) = 1" by simp_all
  show "take_bit 63 w OR push_bit 63 (scast (of_nat (unat x) :: u8) AND 0x7f) = w"
    using last_group(2) [of x] lt join_groups(1) [of 63 w] by (simp add: x_def del: of_nat_unat)
  show "\<not> unat w < 2 ^ 63" using one d by auto
qed

text \<open>What an implementor of \<open>DataInput\<close> promises about the bytes that are left.\<close>

locale data_input =
  fixes inp :: "('s, 'e) reader_scheme"
    and rest :: "'s \<Rightarrow> bytes"
    and invar :: "'s \<Rightarrow> bool"
  assumes read_some:
      "invar s \<Longrightarrow> 0 < n \<Longrightarrow> rest s \<noteq> [] \<Longrightarrow>
       \<exists>k. 0 < k \<and> k \<le> n \<and> k \<le> length (rest s) \<and>
           yields rest invar (in_read inp n s) (take k (rest s)) (drop k (rest s))"
    and read_byte_Cons:
      "invar s \<Longrightarrow> rest s = b # bs \<Longrightarrow> yields rest invar (in_read_byte inp s) b bs"
    and read_bytes_ok:
      "invar s \<Longrightarrow> offset + len \<le> length buf \<Longrightarrow> len \<le> length (rest s) \<Longrightarrow>
       yields rest invar (in_read_bytes inp buf offset len s)
         (take offset buf @ take len (rest s) @ drop (offset + len) buf) (drop len (rest s))"
    and skip_bytes_ok:
      "invar s \<Longrightarrow> n \<le> length (rest s) \<Longrightarrow>
       \<exists>s'. in_skip_bytes inp n s = Inr s' \<and> invar s' \<and> rest s' = drop n (rest s)"
begin

abbreviation gives :: "('a \<times> 's) result \<Rightarrow> 'a \<Rightarrow> bytes \<Rightarrow> bool" where
  "gives \<equiv> yields rest invar"

lemma read_exact_ok:
  "invar s \<Longrightarrow> n \<le> length (rest s) \<Longrightarrow> gives (read_exact (in_read inp) n s) (take n (rest s)) (drop n (rest s))"
proof (induction n arbitrary: s rule: less_induct)
  case (less n)
  show ?case
  proof (cases "n = 0")
    case True
    then show ?thesis using less.prems by (subst read_exact.simps) (simp add: yields_def)
  next
    case False
    then have "rest s \<noteq> []" using less.prems by auto
    with False less.prems obtain k s' where k: "0 < k" "k \<le> n" "k \<le> length (rest s)"
      "in_read inp n s = Inr (take k (rest s), s')" "invar s'" "rest s' = drop k (rest s)"
      using read_some [of s n] by (auto simp: yields_def)
    have "gives (read_exact (in_read inp) (n - k) s') (take (n - k) (rest s')) (drop (n - k) (rest s'))"
      using k less.prems by (intro less.IH) auto
    then obtain s'' where s'': "read_exact (in_read inp) (n - k) s' = Inr (take (n - k) (rest s'), s'')"
      "invar s''" "rest s'' = drop (n - k) (rest s')" by (rule yieldsE)
    have "take k (rest s) @ take (n - k) (drop k (rest s)) = take n (rest s)"
      using k(2) by (metis le_add_diff_inverse take_add)
    then show ?thesis
      using False k s'' by (subst read_exact.simps) (auto simp: yields_def min_def)
  qed
qed

lemma read_groups_ok:
  fixes w :: "'a::len word"
  assumes "8 \<le> LENGTH('a)" "invar s" "rest s = vnat_bytes (unat (drop_bit sh w)) @ r"
  shows "(0 < n \<and> drop_bit (sh + 7 * n) w = 0 \<longrightarrow>
           gives (read_groups inp (map (\<lambda>k. sh + 7 * k) [0..<n]) (take_bit sh w) s) (w, True) r) \<and>
         (drop_bit (sh + 7 * n) w \<noteq> 0 \<longrightarrow>
           gives (read_groups inp (map (\<lambda>k. sh + 7 * k) [0..<n]) (take_bit sh w) s)
             (take_bit (sh + 7 * n) w, False) (vnat_bytes (unat (drop_bit (sh + 7 * n) w)) @ r))"
  using assms
proof (induction n arbitrary: s sh)
  case 0
  then show ?case by (simp add: yields_def)
next
  case (Suc n)
  let ?x = "drop_bit sh w"
  have shs: "map (\<lambda>k. sh + 7 * k) [0..<Suc n] = sh # map (\<lambda>k. (sh + 7) + 7 * k) [0..<n]"
    by (simp add: upt_conv_Cons map_Suc_upt [symmetric] del: upt_Suc)
  have dd: "drop_bit (sh + 7) w = drop_bit 7 ?x" by (simp add: drop_bit_drop_bit add.commute)
  have du: "unat (drop_bit (sh + 7) w) = unat ?x div 128"
    unfolding dd by (simp only: unat_drop_bit_div) simp
  have top: "drop_bit (sh + 7 * Suc n) w = drop_bit (7 * n) (drop_bit (sh + 7) w)"
    by (simp add: drop_bit_drop_bit algebra_simps)
  show ?case
  proof (cases "unat ?x < 128")
    case True
    have "rest s = of_nat (unat ?x) # r"
      using Suc.prems(3) True by (subst (asm) vnat_bytes.simps) simp
    then obtain s' where s': "in_read_byte inp s = Inr (of_nat (unat ?x), s')" "invar s'" "rest s' = r"
      using read_byte_Cons [OF Suc.prems(2)] yieldsE by metis
    have "drop_bit (sh + 7) w = 0" using True du by (simp add: unat_eq_zero [symmetric] del: unat_eq_zero)
    then have "drop_bit (sh + 7 * Suc n) w = 0" unfolding top by simp
    moreover have "take_bit sh w OR push_bit sh (scast (of_nat (unat ?x) :: u8) AND 0x7f) = w"
      using last_group(2) [OF Suc.prems(1) True] join_groups(1) [of sh w] by simp
    ultimately show ?thesis
      unfolding shs using s' last_group(3) [OF Suc.prems(1) True]
      by (simp add: yields_def Let_def del: of_nat_unat)
  next
    case False
    have "rest s = of_nat (unat ?x mod 128 + 128) # vnat_bytes (unat (drop_bit (sh + 7) w)) @ r"
      unfolding du using Suc.prems(3) False by (subst (asm) vnat_bytes.simps) simp
    then obtain s' where s': "in_read_byte inp s = Inr (of_nat (unat ?x mod 128 + 128), s')" "invar s'"
      "rest s' = vnat_bytes (unat (drop_bit (sh + 7) w)) @ r"
      using read_byte_Cons [OF Suc.prems(2)] yieldsE by metis
    have i: "take_bit sh w OR push_bit sh (scast (of_nat (unat ?x mod 128 + 128) :: u8) AND 0x7f)
        = take_bit (sh + 7) w"
      unfolding more_group(1) [OF Suc.prems(1)] by (rule join_groups(2))
    have step: "read_groups inp (map (\<lambda>k. sh + 7 * k) [0..<Suc n]) (take_bit sh w) s =
        read_groups inp (map (\<lambda>k. (sh + 7) + 7 * k) [0..<n]) (take_bit (sh + 7) w) s'"
      unfolding shs using s'(1) more_group(2) [OF Suc.prems(1), of ?x] i
      by (simp add: Let_def)
    have nz: "drop_bit (sh + 7) w \<noteq> 0"
    proof
      assume "drop_bit (sh + 7) w = 0"
      then have "unat ?x div 128 = 0" using du by simp
      with False show False by simp
    qed
    have e: "sh + 7 * Suc n = (sh + 7) + 7 * n" by simp
    have "0 < n" if "drop_bit (sh + 7 + 7 * n) w = 0" using that nz by (cases n) auto
    with Suc.IH [OF Suc.prems(1) s'(2,3)] show ?thesis
      unfolding step unfolding e by blast
  qed
qed

text \<open>The shifts of the two readers are the consecutive ones of the lemma.\<close>

lemma vint_shifts: "[7, 14, 21] = map (\<lambda>k. 7 + 7 * k) [0..<3]"
  by (simp add: upt_rec)

lemma vlong_shifts: "[7, 14, 21, 28, 35, 42, 49, 56] = map (\<lambda>k. 7 + 7 * k) [0..<8]"
  by (simp add: upt_rec)

lemma read_first_byte:
  fixes w :: "'a::len word"
  assumes "8 \<le> LENGTH('a)" "invar s" "rest s = vnat_bytes (unat w) @ r"
  obtains (last) s' where "in_read_byte inp s = Inr (of_nat (unat w), s')" "unat w < 128" "invar s'" "rest s' = r"
  | (more) s' where "in_read_byte inp s = Inr (of_nat (unat w mod 128 + 128), s')" "\<not> unat w < 128" "invar s'"
      "rest s' = vnat_bytes (unat (drop_bit 7 w)) @ r"
proof (cases "unat w < 128")
  case True
  then have "rest s = of_nat (unat w) # r"
    using assms(3) by (subst (asm) vnat_bytes.simps) simp
  with True show thesis using read_byte_Cons [OF assms(2)] yieldsE last by metis
next
  case False
  have d: "unat (drop_bit 7 w) = unat w div 128" by (simp only: unat_drop_bit_div) simp
  have "rest s = of_nat (unat w mod 128 + 128) # vnat_bytes (unat (drop_bit 7 w)) @ r"
    unfolding d using assms(3) False by (subst (asm) vnat_bytes.simps) simp
  with False show thesis using read_byte_Cons [OF assms(2)] yieldsE more by metis
qed

lemma read_last_byte:
  fixes x :: "'a::len word"
  assumes "invar s" "rest s = vnat_bytes (unat x) @ r" "unat x < 128"
  obtains s' where "in_read_byte inp s = Inr (of_nat (unat x), s')" "invar s'" "rest s' = r"
proof -
  have "rest s = of_nat (unat x) # r"
    using assms(2,3) by (subst (asm) vnat_bytes.simps) simp
  then show thesis using read_byte_Cons [OF assms(1)] yieldsE that by metis
qed

lemma read_vint_ok:
  assumes "invar s" "rest s = vnat_bytes (unat w) @ r"
  shows "gives (read_vint inp s) w r"
proof -
  have len: "8 \<le> LENGTH(32)" by simp
  from len assms show ?thesis
  proof (cases rule: read_first_byte)
    case (last s')
    then show ?thesis
      using last_group [OF len last(2)] by (simp add: read_vint_def yields_def del: of_nat_unat)
  next
    case (more s')
    have g: "((0::nat) < 3 \<and> drop_bit (7 + 7 * 3) w = 0 \<longrightarrow>
           gives (read_groups inp [7, 14, 21] (take_bit 7 w) s') (w, True) r) \<and>
         (drop_bit (7 + 7 * 3) w \<noteq> 0 \<longrightarrow>
           gives (read_groups inp [7, 14, 21] (take_bit 7 w) s')
             (take_bit (7 + 7 * 3) w, False) (vnat_bytes (unat (drop_bit (7 + 7 * 3) w)) @ r))"
      unfolding vint_shifts by (rule read_groups_ok [OF len more(3,4)])
    show ?thesis
    proof (cases "drop_bit 28 w = 0")
      case True
      then have "gives (read_groups inp [7, 14, 21] (take_bit 7 w) s') (w, True) r" using g by simp
      then show ?thesis
        using more more_group [OF len, of w] by (auto simp: read_vint_def yields_def)
    next
      case False
      let ?x = "drop_bit 28 w"
      obtain s2 where s2: "read_groups inp [7, 14, 21] (take_bit 7 w) s' = Inr ((take_bit 28 w, False), s2)"
        "invar s2" "rest s2 = vnat_bytes (unat ?x) @ r"
        using False g by (auto simp: yields_def)
      note x = top_group_i32 [of w]
      obtain s3 where s3: "in_read_byte inp s2 = Inr (of_nat (unat ?x), s3)" "invar s3" "rest s3 = r"
        using read_last_byte [OF s2(2,3)] x(1) by auto
      show ?thesis
        using more more_group [OF len, of w] s2(1) s3 x
        by (auto simp: read_vint_def yields_def simp del: of_nat_unat)
    qed
  qed
qed

lemma read_vlong_ex_ok:
  assumes "invar s" "rest s = vnat_bytes (unat w) @ r" "neg \<or> unat w < 2 ^ 63"
  shows "gives (read_vlong_ex inp neg s) w r"
proof -
  have len: "8 \<le> LENGTH(64)" by simp
  from len assms(1,2) show ?thesis
  proof (cases rule: read_first_byte)
    case (last s')
    then show ?thesis
      using last_group [OF len last(2)] by (simp add: read_vlong_ex_def yields_def del: of_nat_unat)
  next
    case (more s')
    have g: "((0::nat) < 8 \<and> drop_bit (7 + 7 * 8) w = 0 \<longrightarrow>
           gives (read_groups inp [7, 14, 21, 28, 35, 42, 49, 56] (take_bit 7 w) s') (w, True) r) \<and>
         (drop_bit (7 + 7 * 8) w \<noteq> 0 \<longrightarrow>
           gives (read_groups inp [7, 14, 21, 28, 35, 42, 49, 56] (take_bit 7 w) s')
             (take_bit (7 + 7 * 8) w, False) (vnat_bytes (unat (drop_bit (7 + 7 * 8) w)) @ r))"
      unfolding vlong_shifts by (rule read_groups_ok [OF len more(3,4)])
    show ?thesis
    proof (cases "drop_bit 63 w = 0")
      case True
      then have "gives (read_groups inp [7, 14, 21, 28, 35, 42, 49, 56] (take_bit 7 w) s') (w, True) r"
        using g by simp
      then show ?thesis
        using more more_group [OF len, of w] by (auto simp: read_vlong_ex_def yields_def)
    next
      case False
      let ?x = "drop_bit 63 w"
      obtain s2 where s2: "read_groups inp [7, 14, 21, 28, 35, 42, 49, 56] (take_bit 7 w) s'
          = Inr ((take_bit 63 w, False), s2)"
        "invar s2" "rest s2 = vnat_bytes (unat ?x) @ r"
        using False g by (auto simp: yields_def)
      note x = top_group_i64 [OF False]
      have neg using assms(3) x(4) by simp
      obtain s3 where s3: "in_read_byte inp s2 = Inr (of_nat (unat ?x), s3)" "invar s3" "rest s3 = r"
        using read_last_byte [OF s2(2,3)] x(1) by auto
      show ?thesis
        using more more_group [OF len, of w] s2(1) s3 x \<open>neg\<close>
        by (auto simp: read_vlong_ex_def yields_def simp del: of_nat_unat)
    qed
  qed
qed

lemma read_string_ok:
  assumes "invar s" "rest s = string_bytes str @ r" "utf8_valid str" "length str < 2 ^ 31"
  shows "gives (read_string inp s) str r"
  unfolding read_string_def
proof (rule yields_bind)
  let ?n = "of_nat (length str) :: i32"
  have u: "unat ?n = length str" using assms(4) by (simp add: unat_of_nat)
  show "gives (read_vint inp s) ?n (str @ r)"
    by (rule read_vint_ok [OF assms(1)]) (simp only: u assms(2) string_bytes_def append_assoc)
  have nn: "\<not> ?n <s 0" using sless_iff_unat [of 0 ?n] assms(4) u
    by (simp add: word_sless_alt sint_eq_unat)
  fix s1 assume s1: "invar s1" "rest s1 = str @ r"
  have "gives (read_exact (in_read inp) (length str) s1) str r"
    using read_exact_ok [OF s1(1), of "length str"] s1(2) by simp
  then obtain s2 where s2: "read_exact (in_read inp) (length str) s1 = Inr (str, s2)" "invar s2" "rest s2 = r"
    by (rule yieldsE)
  show "gives (case (?n, s1) of (len, s1) \<Rightarrow>
      if len <s 0 then Inl (IllegalState ''Invalid String detected'')
      else rbind (read_exact (in_read inp) (unat len) s1) (\<lambda>(buffer, s2).
        if utf8_valid buffer then Inr (buffer, s2) else Inl FromUtf8Err)) str r"
    using nn assms(3) by (simp only: prod.case u if_False s2(1)) (simp add: yields_def s2(2,3))
qed

lemma read_string_pairs_ok:
  assumes "invar s" "rest s = concat (map (\<lambda>(k, v). string_bytes k @ string_bytes v) kvs) @ r"
    "\<forall>(k, v) \<in> set kvs. utf8_valid k \<and> utf8_valid v \<and> length k < 2 ^ 31 \<and> length v < 2 ^ 31"
  shows "gives (read_string_pairs inp (length kvs) m s) (fold (\<lambda>(k, v). fmupd k v) kvs m) r"
  using assms
proof (induction kvs arbitrary: s m)
  case Nil
  then show ?case by (simp add: yields_def)
next
  case (Cons kv kvs)
  obtain k v where kv: "kv = (k, v)" by force
  let ?r = "concat (map (\<lambda>(k, v). string_bytes k @ string_bytes v) kvs) @ r"
  have "gives (read_string inp s) k (string_bytes v @ ?r)"
    using Cons.prems kv by (intro read_string_ok) auto
  moreover have "gives (read_string inp s1) v ?r" if "invar s1" "rest s1 = string_bytes v @ ?r" for s1
    using Cons.prems kv that by (intro read_string_ok) auto
  ultimately show ?case
    unfolding kv using Cons.IH Cons.prems by (auto intro!: yields_bind)
qed

lemma read_strings_ok:
  assumes "invar s" "rest s = concat (map string_bytes ks) @ r"
    "\<forall>k \<in> set ks. utf8_valid k \<and> length k < 2 ^ 31"
  shows "gives (read_strings inp (length ks) hs s) (hs |\<union>| fset_of_list ks) r"
  using assms
proof (induction ks arbitrary: s hs)
  case Nil
  then show ?case by (simp add: yields_def)
next
  case (Cons k ks)
  have "gives (read_string inp s) k (concat (map string_bytes ks) @ r)"
    using Cons.prems by (intro read_string_ok) auto
  moreover have "gives (read_strings inp (length ks) (finsert k hs) s1) (finsert k hs |\<union>| fset_of_list ks) r"
    if "invar s1" "rest s1 = concat (map string_bytes ks) @ r" for s1
    by (rule Cons.IH [OF that]) (use Cons.prems in auto)
  ultimately show ?case by (auto intro!: yields_bind)
qed

lemma fixed_width_ok:
  assumes "invar s" "rest s = be_bytes n (w :: 'a::len word) @ r"
  shows "gives (read_exact (in_read inp) n s) (be_bytes n w) r"
  using read_exact_ok [OF assms(1), of n] assms(2) by simp

end

section \<open>The implementors meet the contracts\<close>

interpretation vec_out: data_output vec_write "\<lambda>s. s" "\<lambda>n s. True"
  by unfold_locales (auto simp: vec_write_def)

interpretation bao_out: data_output bao_write "\<lambda>s. take (bao_pos s) (bao_bytes s)"
  "\<lambda>n s. bao_pos s + n \<le> bao_limit s \<and> bao_limit s \<le> length (bao_bytes s)"
proof unfold_locales
  fix buf :: bytes and n and s :: byte_array_output
  assume a: "buf \<noteq> []" "length buf \<le> n"
    "bao_pos s + n \<le> bao_limit s \<and> bao_limit s \<le> length (bao_bytes s)"
  then have "min (bao_limit s - bao_pos s) (length buf) = length buf" "0 < length buf"
    by (linarith, simp)
  then show "\<exists>k s'. 0 < k \<and> k \<le> length buf \<and> bao_write buf s = Inr (k, s') \<and>
      take (bao_pos s') (bao_bytes s') = take (bao_pos s) (bao_bytes s) @ take k buf \<and>
      bao_pos s' + (n - k) \<le> bao_limit s' \<and> bao_limit s' \<le> length (bao_bytes s')"
    using a by (auto simp: bao_write_def Let_def)
qed

interpretation go_out: data_output go_write "\<lambda>s. take (go_length s) (go_bytes s)"
  "\<lambda>n s. go_length s \<le> length (go_bytes s)"
  by unfold_locales (auto simp: go_write_def Let_def)

interpretation slice_in: data_input slice_reader "\<lambda>s. s" "\<lambda>s. True"
proof unfold_locales
  show "\<exists>k. 0 < k \<and> k \<le> n \<and> k \<le> length s \<and>
      yields (\<lambda>s. s) (\<lambda>s. True) (in_read slice_reader n s) (take k s) (drop k s)"
    if "0 < n" "s \<noteq> []" for s n
    using that by (intro exI [of _ "min n (length s)"]) (auto simp: slice_reader_def slice_read_def yields_def min_def)
qed (auto simp: slice_reader_def slice_read_byte_def default_read_bytes_def slice_read_def
       slice_skip_bytes_def yields_def)

interpretation bai_in: data_input bai_reader "\<lambda>s. drop (bai_pos s) (bai_bytes s)"
  "\<lambda>s. bai_pos s \<le> length (bai_bytes s)"
proof unfold_locales
  show "\<exists>k. 0 < k \<and> k \<le> n \<and> k \<le> length (drop (bai_pos s) (bai_bytes s)) \<and>
      yields (\<lambda>s. drop (bai_pos s) (bai_bytes s)) (\<lambda>s. bai_pos s \<le> length (bai_bytes s))
        (in_read bai_reader n s) (take k (drop (bai_pos s) (bai_bytes s)))
        (drop k (drop (bai_pos s) (bai_bytes s)))"
    if "bai_pos s \<le> length (bai_bytes s)" "0 < n" "drop (bai_pos s) (bai_bytes s) \<noteq> []" for s n
    using that by (intro exI [of _ "min n (length (bai_bytes s) - bai_pos s)"])
      (auto simp: bai_reader_def bai_read_def bai_length_def yields_def Let_def add.commute)
  show "yields (\<lambda>s. drop (bai_pos s) (bai_bytes s)) (\<lambda>s. bai_pos s \<le> length (bai_bytes s))
      (in_read_byte bai_reader s) b bs"
    if "bai_pos s \<le> length (bai_bytes s)" "drop (bai_pos s) (bai_bytes s) = b # bs" for s b bs
  proof -
    have "bai_pos s < length (bai_bytes s)" using that by (metis drop_eq_Nil leI list.distinct(1))
    then show ?thesis
      using that by (auto simp: bai_reader_def bai_read_byte_def yields_def
        simp flip: Cons_nth_drop_Suc)
  qed
qed (auto simp: bai_reader_def bai_read_bytes_def bai_skip_bytes_def yields_def add.commute)

section \<open>Properties\<close>

text \<open>The reference encoding of a 32-bit or 64-bit integer has at most five or ten bytes.\<close>

lemma vnat_bytes_i32: "length (vnat_bytes (unat (i :: i32))) \<le> 5"
  using unsigned_less [of i, where 'a = nat] by (intro length_vnat_bytes) auto

lemma vnat_bytes_i64: "length (vnat_bytes (unat (i :: i64))) \<le> 10"
  using unsigned_less [of i, where 'a = nat] by (intro length_vnat_bytes) auto

lemma vec_write_varint:
  "8 \<le> LENGTH('a) \<Longrightarrow> write_varint vec_write (i :: 'a::len word) v = Inr (v @ vnat_bytes (unat i))"
  using vec_out.write_varint_appends [of i "length (vnat_bytes (unat i))" v]
  by (auto simp: vec_out.appends_def)

lemma slice_yields: "yields (\<lambda>s. s) (\<lambda>s. True) res v r \<longleftrightarrow> res = Inr (v, r)"
  by (auto simp: yields_def)

lemmas slice_reads =
  slice_in.read_vint_ok [unfolded slice_yields, OF TrueI]
  slice_in.read_vlong_ex_ok [unfolded slice_yields, OF TrueI]

text \<open>
  C19: \<open>write_vint\<close> appends at most five bytes, and \<open>read_vint\<close> reads them back to the same
  integer, whatever follows, consuming exactly these bytes; this holds for every \<open>i32\<close>,
  negative ones included.
\<close>

theorem vint_roundtrip:
  "\<exists>enc. write_vint vec_write i v = Inr (v @ enc) \<and> length enc \<le> 5 \<and>
         read_vint slice_reader (enc @ r) = Inr (i, r)"
  by (intro exI [of _ "vnat_bytes (unat i)"])
    (simp add: write_vint_def vec_write_varint vnat_bytes_i32 slice_reads)

text \<open>
  C20: \<open>write_vlong\<close> refuses a negative number without writing; a non-negative one takes at
  most nine bytes and \<open>read_vlong\<close> reads it back, consuming exactly these bytes.
\<close>

theorem vlong_roundtrip:
  "if i <s 0 then write_vlong vec_write i v = Inl (IllegalArgument ''Can't write negative vLong'')
   else \<exists>enc. write_vlong vec_write i v = Inr (v @ enc) \<and> length enc \<le> 9 \<and>
              read_vlong slice_reader (enc @ r) = Inr (i, r)"
proof (cases "i <s 0")
  case True
  then show ?thesis by (simp add: write_vlong_def)
next
  case False
  then have small: "unat i < 2 ^ 63" by (simp add: sless_0_unat)
  then have "length (vnat_bytes (unat i)) \<le> 9" by (intro length_vnat_bytes) auto
  with False small show ?thesis
    by (auto intro!: exI [of _ "vnat_bytes (unat i)"]
      simp: write_vlong_def write_signed_vlong_def vec_write_varint read_vlong_def slice_reads)
qed

text \<open>
  C21: zig-zag integers of either width round-trip for every value: \<open>write_zint\<close> with
  \<open>read_zint\<close> in at most five bytes, \<open>write_zlong\<close> with \<open>read_zlong\<close> in at most ten.
\<close>

theorem zigzag_roundtrip:
  "(\<exists>enc. write_zint vec_write i v = Inr (v @ enc) \<and> length enc \<le> 5 \<and>
          read_zint slice_reader (enc @ r) = Inr (i, r)) \<and>
   (\<exists>enc. write_zlong vec_write l v = Inr (v @ enc) \<and> length enc \<le> 10 \<and>
          read_zlong slice_reader (enc @ r) = Inr (l, r))"
proof (intro conjI)
  show "\<exists>enc. write_zint vec_write i v = Inr (v @ enc) \<and> length enc \<le> 5 \<and>
          read_zint slice_reader (enc @ r) = Inr (i, r)"
    by (intro exI [of _ "vnat_bytes (unat (zigzag_encode_i32 i))"])
      (simp add: write_zint_def write_vint_def vec_write_varint vnat_bytes_i32 read_zint_def
        slice_reads zigzag_i32_roundtrip)
  show "\<exists>enc. write_zlong vec_write l v = Inr (v @ enc) \<and> length enc \<le> 10 \<and>
          read_zlong slice_reader (enc @ r) = Inr (l, r)"
    by (intro exI [of _ "vnat_bytes (unat (zigzag_encode_i64 l))"])
      (simp add: write_zlong_def write_signed_vlong_def vec_write_varint vnat_bytes_i64 read_zlong_def
        slice_reads zigzag_i64_roundtrip)
qed

lemma sorted_keys:
  "set (sorted_list_of_fset A) = fset A" "length (sorted_list_of_fset A) = fcard A"
  "distinct (sorted_list_of_fset A)"
  by (simp_all add: sorted_list_of_fset.rep_eq fcard.rep_eq)

lemma fmlookup_fold_fmupd:
  "distinct (map fst kvs) \<Longrightarrow> fmlookup (fold (\<lambda>(k, v). fmupd k v) kvs m) k =
     (case map_of kvs k of Some v \<Rightarrow> Some v | None \<Rightarrow> fmlookup m k)"
proof (induction kvs arbitrary: m)
  case (Cons kv kvs)
  then show ?case
    by (cases kv) (auto split: option.split dest: map_of_SomeD simp: rev_image_eqI)
qed simp

lemma fold_fmupd_keys:
  assumes "set ks = fset (fmdom m)" "distinct ks"
  shows "fold (\<lambda>(k, v). fmupd k v) (map (\<lambda>k. (k, the (fmlookup m k))) ks) fmempty = m"
proof (rule fmap_ext)
  fix k
  have "map_of (map (\<lambda>k. (k, the (fmlookup m k))) ks) k = (if k \<in> set ks then Some (the (fmlookup m k)) else None)"
    by (simp add: map_of_map_restrict restrict_map_def)
  moreover have "distinct (map fst (map (\<lambda>k. (k, the (fmlookup m k))) ks))"
    using assms(2) by (simp add: comp_def)
  moreover have "k \<in> set ks \<longleftrightarrow> fmlookup m k \<noteq> None"
    unfolding assms(1) by (simp add: fmlookup_dom_iff)
  ultimately show "fmlookup (fold (\<lambda>(k, v). fmupd k v) (map (\<lambda>k. (k, the (fmlookup m k))) ks) fmempty) k = fmlookup m k"
    by (simp only: fmlookup_fold_fmupd) auto
qed

lemma read_map_of_strings_eq:
  "read_map_of_strings inp s =
     rbind (read_vint inp s) (\<lambda>(count, s1).
     if count <s 0 then Inl (IllegalState ''Invalid StringMap detected'')
     else read_string_pairs inp (unat count) fmempty s1)"
  unfolding read_map_of_strings_def by (intro rbind_cong) auto

lemma unat_count: "n < 2 ^ 31 \<Longrightarrow> unat (of_nat n :: i32) = n \<and> \<not> (of_nat n :: i32) <s 0"
  by (simp add: sless_0_unat unat_of_nat)



lemma not_sless_0: "0 \<le>s b \<longleftrightarrow> \<not> b <s 0" for b :: u8
  by (simp add: word_sle_eq word_sless_alt not_less)

lemma slice_read_byte_simps [simp]:
  "in_read_byte slice_reader [] = Inl IoUnexpectedEof"
  "in_read_byte slice_reader (b # bs) = Inr (b, bs)"
  by (simp_all add: slice_reader_def slice_read_byte_def)

text \<open>
  C22: \<open>read_vint\<close> on arbitrary bytes fails in exactly two ways. It reports the end of the
  input when the input ends before a byte without the continuation bit, and an invalid vInt
  when four continued bytes are followed by a byte with one of its four top bits set. In every
  other case it returns an integer and leaves the input after at most five bytes.
\<close>

theorem read_vint_malformed:
  "(read_vint slice_reader bs = Inl IoUnexpectedEof \<longleftrightarrow> length bs < 5 \<and> list_all (\<lambda>b. b <s 0) bs) \<and>
   (read_vint slice_reader bs = Inl (IllegalState ''Invalid vInt detected'') \<longleftrightarrow>
      5 \<le> length bs \<and> list_all (\<lambda>b. b <s 0) (take 4 bs) \<and> bs ! 4 AND 0xf0 \<noteq> 0) \<and>
   (case read_vint slice_reader bs of
      Inl e \<Rightarrow> e \<in> {IoUnexpectedEof, IllegalState ''Invalid vInt detected''}
    | Inr (i, r) \<Rightarrow> \<exists>pre. bs = pre @ r \<and> pre \<noteq> [] \<and> length pre \<le> 5)"
proof -
  consider "bs = []" | a where "bs = [a]" | a b where "bs = [a, b]" | a b c where "bs = [a, b, c]"
    | a b c d where "bs = [a, b, c, d]" | a b c d e r where "bs = a # b # c # d # e # r"
    by (metis list.exhaust)
  then show ?thesis
    by cases (auto simp: read_vint_def not_sless_0 Let_def)
qed

lemma bao_write_all_full:
  assumes "bao_pos s = bao_limit s" "bao_limit s \<le> length (bao_bytes s)" "buf \<noteq> []"
  shows "write_all bao_write buf s = Inl IoWriteZero"
  using assms by (subst write_all.simps) (simp add: bao_write_def Let_def)



end
