(* ===== verification/Doc_Iterator.thy ===== *)
theory Doc_Iterator
  imports Bit_Util
begin

text \<open>
  Iteration over document ids: the \<open>DocIterator\<close> trait of \<^verbatim>\<open>search/mod.rs\<close> and its
  contract, and the iterators over nothing, over all documents and over an array.

  A \<open>DocId\<close> is an \<open>i32\<close> of the source, here an \<open>int\<close>; the casts of the source from
  \<open>usize\<close> are written with \<open>as_i32\<close>.
\<close>

section \<open>Document ids\<close>

abbreviation NO_MORE_DOCS :: int where
  "NO_MORE_DOCS \<equiv> 2147483647"

definition as_i32 :: "int \<Rightarrow> int" where
  "as_i32 i = sint (word_of_int i :: i32)"

lemma as_i32_id: "- 2147483648 \<le> i \<Longrightarrow> i < 2147483648 \<Longrightarrow> as_i32 i = i"
  by (simp add: as_i32_def sint_sbintrunc' signed_take_bit_int_eq_self)

definition as_usize :: "int \<Rightarrow> nat" where
  "as_usize i = nat (i mod 2 ^ 64)"

lemma as_usize_nonneg: "0 \<le> i \<Longrightarrow> i < 2147483648 \<Longrightarrow> as_usize i = nat i"
  by (simp add: as_usize_def)

text \<open>Adding one to an \<open>i32\<close>, which overflows at the sentinel.\<close>

definition inc_i32 :: "int \<Rightarrow> int result" where
  "inc_i32 i = (if i = 2147483647 then Inl (Panic ''attempt to add with overflow'') else Inr (i + 1))"

lemma inc_i32_eq [simp]: "i < 2147483647 \<Longrightarrow> inc_i32 i = Inr (i + 1)"
  by (simp add: inc_i32_def)

text \<open>The first document of \<open>D\<close> that is not before \<open>t\<close>, or the sentinel.\<close>

definition first_ge :: "int set \<Rightarrow> int \<Rightarrow> int" where
  "first_ge D t = Min (insert NO_MORE_DOCS {d \<in> D. t \<le> d})"

abbreviation doc_set :: "int set \<Rightarrow> bool" where
  "doc_set D \<equiv> D \<subseteq> {0..<NO_MORE_DOCS}"

lemma doc_set_finite: "doc_set D \<Longrightarrow> finite D"
  using finite_subset [of D "{0..<NO_MORE_DOCS}"] by simp

lemma first_ge_eqI:
  assumes "doc_set D" "d \<in> D \<or> d = NO_MORE_DOCS" "t \<le> d" "\<And>x. x \<in> D \<Longrightarrow> t \<le> x \<Longrightarrow> d \<le> x"
  shows "first_ge D t = d"
  unfolding first_ge_def using assms doc_set_finite [OF assms(1)]
  by (intro Min_eqI) (auto simp: subset_iff)

lemma first_ge_cases:
  assumes "doc_set D"
  obtains "first_ge D t \<in> D" "t \<le> first_ge D t" | "first_ge D t = NO_MORE_DOCS" "\<And>d. d \<in> D \<Longrightarrow> d < t"
proof -
  let ?S = "insert NO_MORE_DOCS {d \<in> D. t \<le> d}"
  have fin: "finite ?S" using doc_set_finite [OF assms] by simp
  have "first_ge D t \<in> ?S" unfolding first_ge_def using fin by (rule Min_in) simp
  moreover have "first_ge D t \<le> x" if "x \<in> ?S" for x unfolding first_ge_def using fin that by (rule Min_le)
  ultimately show thesis using that assms by (force simp: subset_iff)
qed

lemma first_ge_le: "doc_set D \<Longrightarrow> d \<in> D \<Longrightarrow> t \<le> d \<Longrightarrow> first_ge D t \<le> d"
  by (simp add: first_ge_def doc_set_finite)

lemma first_ge_le_max: "doc_set D \<Longrightarrow> first_ge D t \<le> NO_MORE_DOCS"
  by (simp add: first_ge_def doc_set_finite)

lemma first_ge_ge: "doc_set D \<Longrightarrow> t \<le> NO_MORE_DOCS \<Longrightarrow> t \<le> first_ge D t"
  by (simp add: first_ge_def doc_set_finite)

lemma first_ge_mem: "doc_set D \<Longrightarrow> first_ge D t < NO_MORE_DOCS \<Longrightarrow> first_ge D t \<in> D"
  by (erule first_ge_cases [where t = t]) simp_all

lemma first_ge_self: "doc_set D \<Longrightarrow> d \<in> D \<Longrightarrow> first_ge D d = d"
  by (rule first_ge_eqI) auto

lemma first_ge_end: "doc_set D \<Longrightarrow> first_ge D NO_MORE_DOCS = NO_MORE_DOCS"
  by (rule first_ge_eqI) (auto simp: subset_iff)

lemma first_ge_eq_self_iff: "doc_set D \<Longrightarrow> d < NO_MORE_DOCS \<Longrightarrow> first_ge D d = d \<longleftrightarrow> d \<in> D"
  using first_ge_mem [of D d] first_ge_self [of D d] by auto

text \<open>Skipping ahead in a larger set skips no document of a smaller one.\<close>

lemma first_ge_skip:
  assumes "doc_set E" "D \<subseteq> E" "t \<le> NO_MORE_DOCS"
  shows "first_ge D (first_ge E t) = first_ge D t"
proof -
  have "{d \<in> D. first_ge E t \<le> d} = {d \<in> D. t \<le> d}"
    using assms first_ge_le [OF assms(1)] first_ge_ge [OF assms(1,3)] by force
  then show ?thesis by (simp add: first_ge_def)
qed

lemma first_ge_between:
  assumes "doc_set D" "a \<le> t" "t \<le> first_ge D a"
  shows "first_ge D t = first_ge D a"
proof (rule first_ge_eqI [OF assms(1) _ assms(3)])
  show "first_ge D a \<in> D \<or> first_ge D a = NO_MORE_DOCS"
    by (rule first_ge_cases [OF assms(1), of a]) simp_all
  show "first_ge D a \<le> x" if "x \<in> D" "t \<le> x" for x
    using first_ge_le [OF assms(1) that(1), of a] that(2) assms(2) by simp
qed

lemma first_ge_Suc:
  assumes "d \<notin> D"
  shows "first_ge D (d + 1) = first_ge D d"
proof -
  have "d + 1 \<le> x \<longleftrightarrow> d \<le> x" if "x \<in> D" for x using that assms by (cases "x = d") auto
  then have "{x \<in> D. d + 1 \<le> x} = {x \<in> D. d \<le> x}" by blast
  then show ?thesis by (simp add: first_ge_def)
qed

lemma first_ge_Union:
  assumes "finite C" "C \<noteq> {}" "\<And>c. c \<in> C \<Longrightarrow> doc_set (f c)" "t \<le> NO_MORE_DOCS"
  shows "first_ge (\<Union>c\<in>C. f c) t = Min ((\<lambda>c. first_ge (f c) t) ` C)"
proof (rule first_ge_eqI)
  let ?M = "Min ((\<lambda>c. first_ge (f c) t) ` C)"
  have "?M \<in> (\<lambda>c. first_ge (f c) t) ` C" using assms(1,2) by (intro Min_in) auto
  then obtain c where c: "c \<in> C" "?M = first_ge (f c) t" by auto
  show D: "doc_set (\<Union>c\<in>C. f c)" using assms(3) by auto
  show "?M \<in> (\<Union>c\<in>C. f c) \<or> ?M = NO_MORE_DOCS"
    unfolding c(2) using c(1) by (rule_tac t = t in first_ge_cases [OF assms(3)]) auto
  have le: "?M \<le> first_ge (f c) t" if "c \<in> C" for c using assms(1) that by simp
  show "?M \<le> x" if "x \<in> (\<Union>c\<in>C. f c)" "t \<le> x" for x
    using that le first_ge_le [OF assms(3)] order_trans by fastforce
  show "t \<le> ?M"
    unfolding c(2) using assms(4) by (rule first_ge_ge [OF assms(3) [OF c(1)]])
qed

section \<open>The trait and its default methods\<close>

text \<open>
  The methods of an implementor over its state \<open>'s\<close>. \<open>match_cost\<close>, a float estimate that
  influences no result, is left out.
\<close>

record 's doc_iterator =
  doc_id :: "'s \<Rightarrow> int"
  next_doc :: "'s \<Rightarrow> (int \<times> 's) result"
  advance :: "int \<Rightarrow> 's \<Rightarrow> (int \<times> 's) result"
  cost :: "'s \<Rightarrow> nat"
  matches :: "'s \<Rightarrow> (bool \<times> 's) result"
  support_two_phase :: "'s \<Rightarrow> bool"
  approximate_next :: "'s \<Rightarrow> (int \<times> 's) result"
  approximate_advance :: "int \<Rightarrow> 's \<Rightarrow> (int \<times> 's) result"

definition default_matches :: "'s \<Rightarrow> (bool \<times> 's) result" where
  "default_matches s = Inr (True, s)"

definition one_phase ::
  "('s \<Rightarrow> int) \<Rightarrow> ('s \<Rightarrow> (int \<times> 's) result) \<Rightarrow> (int \<Rightarrow> 's \<Rightarrow> (int \<times> 's) result) \<Rightarrow> ('s \<Rightarrow> nat) \<Rightarrow> 's doc_iterator" where
  "one_phase doc nxt adv cst =
     \<lparr>doc_id = doc, next_doc = nxt, advance = adv, cost = cst, matches = default_matches,
      support_two_phase = (\<lambda>s. False), approximate_next = nxt, approximate_advance = adv\<rparr>"

lemma one_phase_simps [simp]:
  "doc_id (one_phase doc nxt adv cst) = doc" "next_doc (one_phase doc nxt adv cst) = nxt"
  "advance (one_phase doc nxt adv cst) = adv" "cost (one_phase doc nxt adv cst) = cst"
  "matches (one_phase doc nxt adv cst) = default_matches"
  "support_two_phase (one_phase doc nxt adv cst) = (\<lambda>s. False)"
  "approximate_next (one_phase doc nxt adv cst) = nxt"
  "approximate_advance (one_phase doc nxt adv cst) = adv"
  by (simp_all add: one_phase_def)

text \<open>\<open>slow_advance\<close>: the loop may run forever on an iterator that stops moving.\<close>

partial_function (option) slow_advance_loop ::
  "('s, 'e) doc_iterator_scheme \<Rightarrow> int \<Rightarrow> int \<Rightarrow> 's \<Rightarrow> (int \<times> 's) result option" where
  "slow_advance_loop I target doc s =
     (if doc < target
      then (case next_doc I s of Inl e \<Rightarrow> Some (Inl e) | Inr (doc', s') \<Rightarrow> slow_advance_loop I target doc' s')
      else Some (Inr (doc, s)))"

definition slow_advance ::
  "('s, 'e) doc_iterator_scheme \<Rightarrow> int \<Rightarrow> 's \<Rightarrow> (int \<times> 's) result option" where
  "slow_advance I target s =
     (if \<not> doc_id I s < target then Some (Inl (Panic ''doc_id < target''))
      else slow_advance_loop I target (doc_id I s) s)"

text \<open>\<open>two_phase_next\<close> of \<^verbatim>\<open>search/scorer/mod.rs\<close>: the next confirmed document at or after the current one.\<close>

partial_function (option) two_phase_next_loop ::
  "('s, 'e) doc_iterator_scheme \<Rightarrow> int \<Rightarrow> 's \<Rightarrow> (int \<times> 's) result option" where
  "two_phase_next_loop I doc s =
     (if doc = NO_MORE_DOCS then Some (Inr (NO_MORE_DOCS, s))
      else case matches I s of
        Inl e \<Rightarrow> Some (Inl e)
      | Inr (m, s') \<Rightarrow>
          if m then Some (Inr (doc, s'))
          else case approximate_next I s' of
            Inl e \<Rightarrow> Some (Inl e)
          | Inr (doc', s'') \<Rightarrow> two_phase_next_loop I doc' s'')"

definition two_phase_next :: "('s, 'e) doc_iterator_scheme \<Rightarrow> 's \<Rightarrow> (int \<times> 's) result option" where
  "two_phase_next I s = two_phase_next_loop I (doc_id I s) s"

section \<open>The contract of an iterator\<close>

text \<open>
  \<open>moves\<close> says that an operation succeeds, lands on document \<open>d\<close> and keeps the documents of
  the iterator. A \<open>doc_cursor\<close> iterates over the documents \<open>docs s\<close> in increasing order; as the
  trait says, nothing is promised for \<open>next\<close> on an exhausted iterator and for \<open>advance\<close> to a
  target that is not ahead.
\<close>

definition moves ::
  "('s \<Rightarrow> int) \<Rightarrow> ('s \<Rightarrow> int set) \<Rightarrow> ('s \<Rightarrow> bool) \<Rightarrow> 's \<Rightarrow> (int \<times> 's) result \<Rightarrow> int \<Rightarrow> bool" where
  "moves doc docs invar s r d \<longleftrightarrow>
     (\<exists>s'. r = Inr (d, s') \<and> invar s' \<and> docs s' = docs s \<and> doc s' = d)"

lemma movesE:
  assumes "moves doc docs invar s r d"
  obtains s' where "r = Inr (d, s')" "invar s'" "docs s' = docs s" "doc s' = d"
  using assms by (auto simp: moves_def)

locale doc_cursor =
  fixes doc :: "'s \<Rightarrow> int"
    and nxt :: "'s \<Rightarrow> (int \<times> 's) result"
    and adv :: "int \<Rightarrow> 's \<Rightarrow> (int \<times> 's) result"
    and docs :: "'s \<Rightarrow> int set"
    and invar :: "'s \<Rightarrow> bool"
  assumes docs_range: "invar s \<Longrightarrow> doc_set (docs s)"
    and doc_cases: "invar s \<Longrightarrow> doc s = - 1 \<or> doc s \<in> docs s \<or> doc s = NO_MORE_DOCS"
    and next_moves: "invar s \<Longrightarrow> doc s < NO_MORE_DOCS \<Longrightarrow>
      moves doc docs invar s (nxt s) (first_ge (docs s) (doc s + 1))"
    and adv_moves: "invar s \<Longrightarrow> doc s < t \<Longrightarrow> t \<le> NO_MORE_DOCS \<Longrightarrow>
      moves doc docs invar s (adv t s) (first_ge (docs s) t)"
begin

lemma doc_bounds: "invar s \<Longrightarrow> - 1 \<le> doc s \<and> doc s \<le> NO_MORE_DOCS"
  using doc_cases [of s] docs_range [of s] by (auto simp: subset_iff)

lemma first_ge_doc:
  assumes "invar s" "doc s \<noteq> - 1"
  shows "first_ge (docs s) (doc s) = doc s"
  using assms doc_cases [OF assms(1)] first_ge_self [OF docs_range] first_ge_end [OF docs_range] by auto

end

text \<open>The cursor of the unconfirmed documents of an iterator, and one with a second phase.\<close>

locale approximation =
  doc_cursor "doc_id I" "approximate_next I" "approximate_advance I" docs invar
  for I :: "('s, 'e) doc_iterator_scheme" and docs invar

locale two_phase = approximation I docs invar
  for I :: "('s, 'e) doc_iterator_scheme" and docs invar +
  fixes hits :: "'s \<Rightarrow> int set"
  assumes matches_ok: "invar s \<Longrightarrow> doc_id I s \<in> docs s \<Longrightarrow>
      \<exists>s'. matches I s = Inr (doc_id I s \<in> hits s, s') \<and> invar s' \<and> docs s' = docs s \<and>
           hits s' = hits s \<and> doc_id I s' = doc_id I s"
    and hits_docs: "invar s \<Longrightarrow> hits s \<subseteq> docs s"
    and hits_next: "invar s \<Longrightarrow> approximate_next I s = Inr (d, s') \<Longrightarrow> hits s' = hits s"

locale exact_cursor =
  doc_cursor "doc_id I" "next_doc I" "advance I" docs invar
  for I :: "('s, 'e) doc_iterator_scheme" and docs invar
begin

lemma slow_advance_loop_moves:
  assumes "invar s" "doc_id I s < t" "t \<le> NO_MORE_DOCS"
  shows "\<exists>r. slow_advance_loop I t (doc_id I s) s = Some r \<and>
    moves (doc_id I) docs invar s r (first_ge (docs s) t)"
  using assms
proof (induction "nat (NO_MORE_DOCS - doc_id I s)" arbitrary: s rule: less_induct)
  case less
  let ?d = "first_ge (docs s) (doc_id I s + 1)"
  obtain s' where s': "next_doc I s = Inr (?d, s')" "invar s'" "docs s' = docs s" "doc_id I s' = ?d"
    using next_moves [OF less.prems(1)] less.prems by (auto elim: movesE)
  have ahead: "doc_id I s + 1 \<le> ?d" using first_ge_ge [OF docs_range [OF less.prems(1)]] less.prems by simp
  show ?case
  proof (cases "?d < t")
    case True
    with less.hyps [of s'] s' ahead less.prems show ?thesis
      by (subst slow_advance_loop.simps) (auto simp: moves_def)
  next
    case False
    then have "first_ge (docs s) t = ?d"
      using less.prems docs_range by (intro first_ge_between) auto
    moreover have "slow_advance_loop I t ?d s' = Some (Inr (?d, s'))"
      using False by (subst slow_advance_loop.simps) simp
    ultimately show ?thesis
      using s' less.prems by (subst slow_advance_loop.simps) (auto simp: moves_def)
  qed
qed

lemma slow_advance_moves:
  assumes "invar s" "doc_id I s < t" "t \<le> NO_MORE_DOCS"
  shows "\<exists>r. slow_advance I t s = Some r \<and> moves (doc_id I) docs invar s r (first_ge (docs s) t)"
  using slow_advance_loop_moves [OF assms] assms by (simp add: slow_advance_def)

end

context two_phase
begin

lemma two_phase_next_loop_finds:
  assumes "invar s" "doc_id I s \<noteq> - 1"
  shows "\<exists>s'. two_phase_next_loop I (doc_id I s) s = Some (Inr (first_ge (hits s) (doc_id I s), s')) \<and>
    invar s' \<and> docs s' = docs s \<and> hits s' = hits s \<and> doc_id I s' = first_ge (hits s) (doc_id I s)"
  using assms
proof (induction "nat (NO_MORE_DOCS - doc_id I s)" arbitrary: s rule: less_induct)
  case less
  have D: "doc_set (docs s)" and H: "doc_set (hits s)"
    using docs_range hits_docs less.prems(1) by blast+
  show ?case
  proof (cases "doc_id I s = NO_MORE_DOCS")
    case True
    then show ?thesis
      using less.prems first_ge_end [OF H] by (subst two_phase_next_loop.simps) auto
  next
    case False
    then have mem: "doc_id I s \<in> docs s" using doc_cases less.prems by blast
    then obtain s1 where s1: "matches I s = Inr (doc_id I s \<in> hits s, s1)" "invar s1" "docs s1 = docs s"
        "hits s1 = hits s" "doc_id I s1 = doc_id I s"
      using matches_ok less.prems(1) by blast
    show ?thesis
    proof (cases "doc_id I s \<in> hits s")
      case True
      with False s1 first_ge_self [OF H True] show ?thesis
        by (subst two_phase_next_loop.simps) auto
    next
      case miss: False
      let ?d = "first_ge (docs s) (doc_id I s + 1)"
      have lt: "doc_id I s < NO_MORE_DOCS" using D mem by auto
      then obtain s2 where s2: "approximate_next I s1 = Inr (?d, s2)" "invar s2" "docs s2 = docs s" "doc_id I s2 = ?d"
        using next_moves [OF s1(2)] s1 by (auto elim: movesE)
      have hits: "hits s2 = hits s" using hits_next [OF s1(2) s2(1)] s1 by simp
      have ge: "doc_id I s + 1 \<le> ?d" using first_ge_ge [OF D] lt by simp
      have "first_ge (hits s) ?d = first_ge (hits s) (doc_id I s + 1)"
        using hits_docs [OF less.prems(1)] lt by (intro first_ge_skip [OF D]) auto
      also have "\<dots> = first_ge (hits s) (doc_id I s)"
        by (rule first_ge_Suc [OF miss])
      finally have eq: "first_ge (hits s) ?d = first_ge (hits s) (doc_id I s)" .
      have "0 \<le> ?d" using ge doc_bounds [OF less.prems(1)] by simp
      with less.hyps [of s2] s1 s2 hits eq ge lt False miss show ?thesis
        by (subst two_phase_next_loop.simps) auto
    qed
  qed
qed

end

section \<open>Simple iterators\<close>

subsection \<open>EmptyDocIterator\<close>

definition empty_next :: "int \<Rightarrow> (int \<times> int) result" where
  "empty_next doc = Inr (NO_MORE_DOCS, NO_MORE_DOCS)"

definition empty_advance :: "int \<Rightarrow> int \<Rightarrow> (int \<times> int) result" where
  "empty_advance target doc = Inr (NO_MORE_DOCS, NO_MORE_DOCS)"

definition empty_iter :: "int doc_iterator" where
  "empty_iter = one_phase (\<lambda>doc. doc) empty_next empty_advance (\<lambda>doc. 0)"

interpretation empty_exact: exact_cursor empty_iter "\<lambda>doc. {}" "\<lambda>doc. doc = - 1 \<or> doc = NO_MORE_DOCS"
  by unfold_locales (auto simp: empty_iter_def empty_next_def empty_advance_def moves_def first_ge_def)

subsection \<open>AllDocsIterator\<close>

record all_docs =
  all_doc :: int
  all_max_doc :: int

definition all_docs_new :: "int \<Rightarrow> all_docs result" where
  "all_docs_new max_doc =
     (if \<not> 0 \<le> max_doc then Inl (Panic ''max_doc >= 0'') else Inr \<lparr>all_doc = - 1, all_max_doc = max_doc\<rparr>)"

definition all_docs_advance :: "int \<Rightarrow> all_docs \<Rightarrow> (int \<times> all_docs) result" where
  "all_docs_advance target s =
     (let doc = (if all_max_doc s \<le> target then NO_MORE_DOCS else target) in Inr (doc, s\<lparr>all_doc := doc\<rparr>))"

definition all_docs_next :: "all_docs \<Rightarrow> (int \<times> all_docs) result" where
  "all_docs_next s = rbind (inc_i32 (all_doc s)) (\<lambda>doc. all_docs_advance doc s)"

definition all_docs_cost :: "all_docs \<Rightarrow> nat" where
  "all_docs_cost s = max 1 (nat (all_max_doc s))"

definition all_docs_iter :: "all_docs doc_iterator" where
  "all_docs_iter = one_phase all_doc all_docs_next all_docs_advance all_docs_cost"

definition all_docs_set :: "all_docs \<Rightarrow> int set" where
  "all_docs_set s = {0..<all_max_doc s}"

definition all_docs_inv :: "all_docs \<Rightarrow> bool" where
  "all_docs_inv s \<longleftrightarrow> all_max_doc s \<le> NO_MORE_DOCS \<and>
     (all_doc s = - 1 \<or> all_doc s \<in> all_docs_set s \<or> all_doc s = NO_MORE_DOCS)"

lemma all_docs_advance_moves:
  assumes "all_docs_inv s" "all_doc s < t" "t \<le> NO_MORE_DOCS"
  shows "moves all_doc all_docs_set all_docs_inv s (all_docs_advance t s) (first_ge (all_docs_set s) t)"
proof -
  have "first_ge (all_docs_set s) t = (if all_max_doc s \<le> t then NO_MORE_DOCS else t)"
    using assms by (intro first_ge_eqI) (auto simp: all_docs_inv_def all_docs_set_def)
  then show ?thesis
    using assms by (auto simp: moves_def all_docs_advance_def all_docs_inv_def all_docs_set_def)
qed

interpretation all_docs_exact: exact_cursor all_docs_iter all_docs_set all_docs_inv
proof
  show "all_docs_inv s \<Longrightarrow> doc_id all_docs_iter s < NO_MORE_DOCS \<Longrightarrow>
      moves (doc_id all_docs_iter) all_docs_set all_docs_inv s (next_doc all_docs_iter s)
        (first_ge (all_docs_set s) (doc_id all_docs_iter s + 1))" for s
    using all_docs_advance_moves [of s "all_doc s + 1"] by (simp add: all_docs_iter_def all_docs_next_def)
qed (auto simp: all_docs_iter_def all_docs_advance_moves, auto simp: all_docs_inv_def all_docs_set_def)

subsection \<open>IntArrayDocIterator\<close>

text \<open>
  \<open>binary_search\<close> of the standard library on a strictly increasing slice: the position of the
  element, or the one where it would be inserted. The iterators use both alike.
\<close>

definition search_pos :: "int list \<Rightarrow> int \<Rightarrow> nat" where
  "search_pos xs x = length (takeWhile (\<lambda>y. y < x) xs)"

record int_array =
  ia_docs :: "int list"
  ia_length :: nat
  ia_i :: int
  ia_doc :: int

definition int_array_new :: "int list \<Rightarrow> nat \<Rightarrow> int_array" where
  "int_array_new docs n = \<lparr>ia_docs = docs, ia_length = n, ia_i = - 1, ia_doc = - 1\<rparr>"

definition int_array_empty :: int_array where
  "int_array_empty = int_array_new [NO_MORE_DOCS] 0"

definition int_array_set_new :: "int list \<Rightarrow> nat \<Rightarrow> (int list \<times> nat) result" where
  "int_array_set_new docs n =
     (if \<not> n < length docs then Inl (Panic ''index out of bounds'')
      else if docs ! n \<noteq> NO_MORE_DOCS then Inl (Panic ''docs[length] == NO_MORE_DOCS'')
      else Inr (docs, n))"

definition int_array_set_iterator :: "int list \<times> nat \<Rightarrow> int_array option result" where
  "int_array_set_iterator set' = Inr (Some (int_array_new (fst set') (snd set')))"

definition int_array_move :: "int \<Rightarrow> int_array \<Rightarrow> (int \<times> int_array) result" where
  "int_array_move i s =
     (if 0 \<le> i \<and> nat i < length (ia_docs s)
      then let doc = ia_docs s ! nat i in Inr (doc, s\<lparr>ia_i := i, ia_doc := doc\<rparr>)
      else Inl (Panic ''index out of bounds''))"

definition int_array_next :: "int_array \<Rightarrow> (int \<times> int_array) result" where
  "int_array_next s = int_array_move (ia_i s + 1) s"

definition int_array_advance :: "int \<Rightarrow> int_array \<Rightarrow> (int \<times> int_array) result" where
  "int_array_advance target s =
     (let lo = nat (ia_i s + 1)
      in if \<not> (lo \<le> ia_length s \<and> ia_length s \<le> length (ia_docs s)) then Inl (Panic ''slice index out of bounds'')
         else let adv = search_pos (drop lo (take (ia_length s) (ia_docs s))) target
              in int_array_move (ia_i s + int (adv + 1)) s)"

definition int_array_iter :: "int_array doc_iterator" where
  "int_array_iter = one_phase ia_doc int_array_next int_array_advance ia_length"

definition int_array_docs :: "int_array \<Rightarrow> int set" where
  "int_array_docs s = set (take (ia_length s) (ia_docs s))"

definition int_array_inv :: "int_array \<Rightarrow> bool" where
  "int_array_inv s \<longleftrightarrow>
     ia_length s < length (ia_docs s) \<and> ia_docs s ! ia_length s = NO_MORE_DOCS \<and>
     sorted_wrt (<) (take (ia_length s) (ia_docs s)) \<and> doc_set (int_array_docs s) \<and>
     - 1 \<le> ia_i s \<and> ia_i s \<le> int (ia_length s) \<and>
     ia_doc s = (if ia_i s = - 1 then - 1 else ia_docs s ! nat (ia_i s))"

text \<open>
  The element at \<open>k\<close> is the first document from \<open>t\<close> on, if everything before \<open>k\<close> is smaller
  and \<open>k\<close> is not, or is the place of the sentinel.
\<close>

lemma first_ge_nth:
  assumes "doc_set (set (take n xs))" "n < length xs" "xs ! n = NO_MORE_DOCS" "sorted_wrt (<) (take n xs)"
    and "k \<le> n" "t \<le> xs ! k" "\<And>j. j < k \<Longrightarrow> xs ! j < t"
  shows "first_ge (set (take n xs)) t = xs ! k"
proof (rule first_ge_eqI [OF assms(1) _ assms(6)])
  show "xs ! k \<in> set (take n xs) \<or> xs ! k = NO_MORE_DOCS"
    using assms(2,3,5) by (cases "k = n") (auto simp: in_set_conv_nth intro!: exI [of _ k])
  fix x assume x: "x \<in> set (take n xs)" "t \<le> x"
  then obtain j where j: "j < n" "x = xs ! j" using assms(2) by (auto simp: in_set_conv_nth)
  then have "k \<le> j" using assms(7) [of j] x(2) by (meson not_less)
  then show "xs ! k \<le> x"
    using sorted_wrt_nth_less [OF assms(4), of k j] j assms(2) by (cases "k = j") auto
qed

lemma int_array_move_moves:
  assumes "int_array_inv s" "k \<le> ia_length s" "t \<le> ia_docs s ! k" "\<And>j. j < k \<Longrightarrow> ia_docs s ! j < t"
  shows "moves ia_doc int_array_docs int_array_inv s (int_array_move (int k) s) (first_ge (int_array_docs s) t)"
proof -
  have "first_ge (int_array_docs s) t = ia_docs s ! k"
    unfolding int_array_docs_def using assms
    by (intro first_ge_nth) (auto simp: int_array_inv_def int_array_docs_def)
  then show ?thesis
    using assms(1,2) by (auto simp: moves_def int_array_move_def Let_def int_array_inv_def int_array_docs_def)
qed

lemma int_array_before:
  assumes "int_array_inv s" "ia_doc s < t" "int j \<le> ia_i s"
  shows "ia_docs s ! j < t"
proof -
  let ?i = "nat (ia_i s)"
  have i: "ia_doc s = ia_docs s ! ?i" "?i \<le> ia_length s" "j \<le> ?i"
    using assms by (auto simp: int_array_inv_def)
  show ?thesis
  proof (cases "j = ?i")
    case False
    have "ia_docs s ! j < ia_docs s ! ?i"
    proof (cases "?i = ia_length s")
      case True
      have "ia_docs s ! j \<in> int_array_docs s"
        using assms(1) i False True by (auto simp: int_array_docs_def in_set_conv_nth int_array_inv_def intro!: exI [of _ j])
      then show ?thesis using assms(1) True by (auto simp: int_array_inv_def)
    next
      case len: False
      then show ?thesis
        using sorted_wrt_nth_less [of "(<)" "take (ia_length s) (ia_docs s)" j ?i] assms(1) i False
        by (auto simp: int_array_inv_def)
    qed
    with i assms(2) show ?thesis by simp
  qed (use i assms(2) in simp)
qed

lemma int_array_not_end:
  assumes "int_array_inv s" "ia_doc s < NO_MORE_DOCS"
  shows "ia_i s < int (ia_length s)"
  using assms by (cases "ia_i s = int (ia_length s)") (auto simp: int_array_inv_def)

lemma search_pos_le: "search_pos xs t \<le> length xs"
  by (simp add: search_pos_def length_takeWhile_le)

lemma search_pos_less:
  assumes "j < search_pos xs t"
  shows "xs ! j < t"
proof -
  have "takeWhile (\<lambda>y. y < t) xs ! j \<in> set (takeWhile (\<lambda>y. y < t) xs)"
    using assms by (simp add: search_pos_def)
  then show ?thesis using assms by (auto simp: search_pos_def takeWhile_nth dest: set_takeWhileD)
qed

lemma search_pos_ge: "search_pos xs t < length xs \<Longrightarrow> t \<le> xs ! search_pos xs t"
  using nth_length_takeWhile [of "\<lambda>y. y < t" xs] by (simp add: search_pos_def not_less)

lemma int_array_next_moves:
  assumes "int_array_inv s" "ia_doc s < NO_MORE_DOCS"
  shows "moves ia_doc int_array_docs int_array_inv s (int_array_next s) (first_ge (int_array_docs s) (ia_doc s + 1))"
proof -
  have inv: "- 1 \<le> ia_i s" "ia_i s < int (ia_length s)"
    using assms int_array_not_end by (auto simp: int_array_inv_def)
  let ?k = "nat (ia_i s + 1)"
  have k: "ia_i s + 1 = int ?k" "?k \<le> ia_length s" using inv by auto
  have after: "ia_docs s ! j \<le> ia_doc s" if "j < ?k" for j
    using int_array_before [OF assms(1), of "ia_doc s + 1" j] that by simp
  have "ia_doc s + 1 \<le> ia_docs s ! ?k"
  proof (cases "?k = ia_length s")
    case True
    then show ?thesis using assms by (simp add: int_array_inv_def)
  next
    case False
    then have "ia_docs s ! ?k \<in> int_array_docs s"
      using assms(1) k by (auto simp: int_array_docs_def in_set_conv_nth int_array_inv_def intro!: exI [of _ ?k])
    then have "0 \<le> ia_docs s ! ?k" using assms(1) by (auto simp: int_array_inv_def)
    moreover have "ia_docs s ! nat (ia_i s) < ia_docs s ! ?k" if "ia_i s \<noteq> - 1"
      using sorted_wrt_nth_less [of "(<)" "take (ia_length s) (ia_docs s)" "nat (ia_i s)" ?k] assms(1) False k inv that
      by (auto simp: int_array_inv_def)
    ultimately show ?thesis using assms(1) by (auto simp: int_array_inv_def)
  qed
  then have "moves ia_doc int_array_docs int_array_inv s (int_array_move (int ?k) s)
      (first_ge (int_array_docs s) (ia_doc s + 1))"
    by (rule int_array_move_moves [OF assms(1) k(2)]) (simp add: after)
  then show ?thesis by (simp only: int_array_next_def k(1) [symmetric])
qed

lemma int_array_advance_moves:
  assumes "int_array_inv s" "ia_doc s < t" "t \<le> NO_MORE_DOCS"
  shows "moves ia_doc int_array_docs int_array_inv s (int_array_advance t s) (first_ge (int_array_docs s) t)"
proof -
  let ?lo = "nat (ia_i s + 1)" and ?xs = "drop (nat (ia_i s + 1)) (take (ia_length s) (ia_docs s))"
  let ?k = "?lo + search_pos ?xs t"
  have inv: "- 1 \<le> ia_i s" "ia_i s < int (ia_length s)" "ia_length s < length (ia_docs s)"
      "ia_docs s ! ia_length s = NO_MORE_DOCS"
    using assms int_array_not_end by (auto simp: int_array_inv_def)
  have k: "?k \<le> ia_length s" "ia_i s + int (search_pos ?xs t + 1) = int ?k"
    using search_pos_le [of ?xs t] inv by auto
  have "t \<le> ia_docs s ! ?k"
    using search_pos_ge [of ?xs t] search_pos_le [of ?xs t] inv assms(3)
    by (cases "?k = ia_length s") auto
  moreover have "ia_docs s ! j < t" if "j < ?k" for j
  proof (cases "j < ?lo")
    case True
    then show ?thesis using int_array_before [OF assms(1,2), of j] by simp
  next
    case False
    then show ?thesis
      using search_pos_less [of "j - ?lo" ?xs t] that k(1) inv by simp
  qed
  ultimately have "moves ia_doc int_array_docs int_array_inv s (int_array_move (int ?k) s) (first_ge (int_array_docs s) t)"
    by (intro int_array_move_moves [OF assms(1) k(1)]) auto
  then show ?thesis
    unfolding int_array_advance_def Let_def k(2) [symmetric] using inv by auto
qed

lemma int_array_doc_cases:
  "int_array_inv s \<Longrightarrow> ia_doc s = - 1 \<or> ia_doc s \<in> int_array_docs s \<or> ia_doc s = NO_MORE_DOCS"
  by (cases "ia_i s = int (ia_length s)")
    (auto simp: int_array_inv_def int_array_docs_def in_set_conv_nth intro!: exI [of _ "nat (ia_i s)"])

interpretation int_array_exact: exact_cursor int_array_iter int_array_docs int_array_inv
  by unfold_locales
    (auto simp: int_array_iter_def int_array_next_moves int_array_advance_moves int_array_doc_cases,
     auto simp: int_array_inv_def)

interpretation int_array_approx: approximation int_array_iter int_array_docs int_array_inv
  using int_array_exact.doc_cursor_axioms by (simp add: approximation_def int_array_iter_def)

end
