(* ===== verification/Scorers.thy ===== *)
theory Scorers
  imports Doc_Iterator
begin

text \<open>
  The boolean combinations of scorers of \<^verbatim>\<open>search/scorer\<close> as document iterators: the
  conjunction (\<^verbatim>\<open>conjunction_scorer.rs\<close>), the two disjunctions
  (\<^verbatim>\<open>disjunction_scorer.rs\<close>), and the constant-score scorer and the in-order bits of
  \<^verbatim>\<open>mod.rs\<close>. Each takes the methods of its children as a \<open>doc_iterator\<close> record.
\<close>

section \<open>ConjunctionScorer\<close>

record 's conjunction =
  lead1 :: 's
  lead2 :: 's
  others :: "'s list"

text \<open>\<open>sort_by\<close> of the standard library is a stable sort.\<close>

definition conj_new :: "('s, 'e) doc_iterator_scheme \<Rightarrow> 's list \<Rightarrow> 's conjunction result" where
  "conj_new I children =
     (case sort_key (cost I) children of
        a # b # rest \<Rightarrow> Inr \<lparr>lead1 = a, lead2 = b, others = rest\<rparr>
      | _ \<Rightarrow> Inl (Panic ''children.len() >= 2''))"

text \<open>
  The loop over \<open>others\<close>: it ends with all of them on \<open>doc\<close> (\<open>None\<close>), or stops at the first
  that is beyond it (\<open>Some next\<close>).
\<close>

fun conj_others ::
  "('s, 'e) doc_iterator_scheme \<Rightarrow> int \<Rightarrow> 's list \<Rightarrow> (int option \<times> 's list) result" where
  "conj_others I doc [] = Inr (None, [])"
| "conj_others I doc (x # xs) =
     (if doc_id I x < doc
      then rbind (approximate_advance I doc x) (\<lambda>(next, x').
             if doc < next then Inr (Some next, x' # xs)
             else rbind (conj_others I doc xs) (\<lambda>(r, xs'). Inr (r, x' # xs')))
      else rbind (conj_others I doc xs) (\<lambda>(r, xs'). Inr (r, x # xs')))"

partial_function (option) skip_to_approx ::
  "('s, 'e) doc_iterator_scheme \<Rightarrow> int \<Rightarrow> 's conjunction \<Rightarrow> (int \<times> 's conjunction) result option" where
  "skip_to_approx I doc c =
     (if doc_id I (lead1 c) \<noteq> doc then Some (Inl (Panic ''lead1.doc_id() == doc''))
      else case approximate_advance I doc (lead2 c) of
        Inl e \<Rightarrow> Some (Inl e)
      | Inr (next2, l2) \<Rightarrow>
          (case (if next2 = doc then Inr (doc, lead1 c) else approximate_advance I next2 (lead1 c)) of
             Inl e \<Rightarrow> Some (Inl e)
           | Inr (doc', l1) \<Rightarrow>
               if next2 \<noteq> doc' then skip_to_approx I doc' (c\<lparr>lead1 := l1, lead2 := l2\<rparr>)
               else if doc' = NO_MORE_DOCS then Some (Inr (doc', c\<lparr>lead1 := l1, lead2 := l2\<rparr>))
               else (case conj_others I doc' (others c) of
                  Inl e \<Rightarrow> Some (Inl e)
                | Inr (None, os) \<Rightarrow> Some (Inr (doc', c\<lparr>lead1 := l1, lead2 := l2, others := os\<rparr>))
                | Inr (Some next, os) \<Rightarrow>
                    (case approximate_advance I next l1 of
                       Inl e \<Rightarrow> Some (Inl e)
                     | Inr (doc'', l1') \<Rightarrow>
                         skip_to_approx I doc'' (c\<lparr>lead1 := l1', lead2 := l2, others := os\<rparr>)))))"

definition conj_approximate_next ::
  "('s, 'e) doc_iterator_scheme \<Rightarrow> 's conjunction \<Rightarrow> (int \<times> 's conjunction) result option" where
  "conj_approximate_next I c =
     (case approximate_next I (lead1 c) of
        Inl e \<Rightarrow> Some (Inl e)
      | Inr (doc, l1) \<Rightarrow> skip_to_approx I doc (c\<lparr>lead1 := l1\<rparr>))"

definition conj_approximate_advance ::
  "('s, 'e) doc_iterator_scheme \<Rightarrow> int \<Rightarrow> 's conjunction \<Rightarrow> (int \<times> 's conjunction) result option" where
  "conj_approximate_advance I target c =
     (case approximate_advance I target (lead1 c) of
        Inl e \<Rightarrow> Some (Inl e)
      | Inr (doc, l1) \<Rightarrow> skip_to_approx I doc (c\<lparr>lead1 := l1\<rparr>))"

definition conj_doc_id :: "('s, 'e) doc_iterator_scheme \<Rightarrow> 's conjunction \<Rightarrow> int" where
  "conj_doc_id I c = doc_id I (lead1 c)"

definition conj_cost :: "('s, 'e) doc_iterator_scheme \<Rightarrow> 's conjunction \<Rightarrow> nat" where
  "conj_cost I c = cost I (lead1 c)"

text \<open>A run that does not end is reported as an error of its own, which no input of the contract shows.\<close>

definition returned :: "'a result option \<Rightarrow> 'a result" where
  "returned r = (case r of None \<Rightarrow> Inl (Panic ''does not terminate'') | Some r' \<Rightarrow> r')"

definition conj_iter :: "('s, 'e) doc_iterator_scheme \<Rightarrow> 's conjunction doc_iterator" where
  "conj_iter I =
     one_phase (conj_doc_id I) (\<lambda>c. returned (conj_approximate_next I c))
       (\<lambda>target c. returned (conj_approximate_advance I target c)) (conj_cost I)"

definition conj_children :: "'s conjunction \<Rightarrow> 's list" where
  "conj_children c = lead1 c # lead2 c # others c"

definition conj_docs :: "('s \<Rightarrow> int set) \<Rightarrow> 's conjunction \<Rightarrow> int set" where
  "conj_docs docs c = (\<Inter>x\<in>set (conj_children c). docs x)"

definition conj_inv :: "('s, 'e) doc_iterator_scheme \<Rightarrow> ('s \<Rightarrow> int set) \<Rightarrow> ('s \<Rightarrow> bool) \<Rightarrow> 's conjunction \<Rightarrow> bool" where
  "conj_inv I docs invar c \<longleftrightarrow>
     (\<forall>x\<in>set (conj_children c). invar x \<and> doc_id I x \<le> conj_doc_id I c) \<and>
     (conj_doc_id I c = - 1 \<or> conj_doc_id I c \<in> conj_docs docs c \<or> conj_doc_id I c = NO_MORE_DOCS)"

text \<open>The state in which the loop of \<open>skip_to_approx\<close> starts an iteration.\<close>

definition conj_ready :: "('s, 'e) doc_iterator_scheme \<Rightarrow> ('s \<Rightarrow> bool) \<Rightarrow> int \<Rightarrow> 's conjunction \<Rightarrow> bool" where
  "conj_ready I invar doc c \<longleftrightarrow>
     (\<forall>x\<in>set (conj_children c). invar x) \<and> doc_id I (lead1 c) = doc \<and> doc_id I (lead2 c) < doc \<and>
     (\<forall>x\<in>set (others c). doc_id I x \<le> doc)"

lemma conjunction_update_swap [simp]: "c\<lparr>lead2 := b, lead1 := a\<rparr> = c\<lparr>lead1 := a, lead2 := b\<rparr>"
  by (cases c) simp

context approximation
begin

lemma conj_others_spec:
  assumes "\<And>x. x \<in> set xs \<Longrightarrow> invar x \<and> doc_id I x \<le> doc" "0 \<le> doc" "doc < NO_MORE_DOCS"
  shows "\<exists>r xs'. conj_others I doc xs = Inr (r, xs') \<and> map docs xs' = map docs xs \<and> (\<forall>x\<in>set xs'. invar x) \<and>
    (case r of
       None \<Rightarrow> (\<forall>x\<in>set xs'. doc_id I x = doc \<and> doc \<in> docs x)
     | Some next \<Rightarrow> doc < next \<and> next \<le> NO_MORE_DOCS \<and> (\<forall>x\<in>set xs'. doc_id I x \<le> next) \<and>
         (\<exists>x\<in>set xs. next = first_ge (docs x) doc))"
  using assms
proof (induction xs)
  case (Cons x xs)
  have x: "invar x" "doc_id I x \<le> doc" using Cons.prems(1) by auto
  obtain r xs' where IH: "conj_others I doc xs = Inr (r, xs')" "map docs xs' = map docs xs" "\<forall>x\<in>set xs'. invar x"
    "case r of None \<Rightarrow> (\<forall>x\<in>set xs'. doc_id I x = doc \<and> doc \<in> docs x)
     | Some next \<Rightarrow> doc < next \<and> next \<le> NO_MORE_DOCS \<and> (\<forall>x\<in>set xs'. doc_id I x \<le> next) \<and>
         (\<exists>x\<in>set xs. next = first_ge (docs x) doc)"
    using Cons.IH Cons.prems by auto
  note D = docs_range [OF x(1)]
  show ?case
  proof (cases "doc_id I x < doc")
    case True
    let ?d = "first_ge (docs x) doc"
    obtain x' where x': "approximate_advance I doc x = Inr (?d, x')" "invar x'" "docs x' = docs x" "doc_id I x' = ?d"
      using adv_moves [OF x(1) True] Cons.prems by (auto elim: movesE)
    have "doc \<le> ?d" "?d \<le> NO_MORE_DOCS" using first_ge_ge [OF D] first_ge_le_max [OF D] Cons.prems by auto
    moreover have "?d = doc \<longleftrightarrow> doc \<in> docs x" using first_ge_eq_self_iff [OF D] Cons.prems by simp
    ultimately show ?thesis
      using True x' IH Cons.prems by (fastforce split: option.splits)
  next
    case False
    then have "doc_id I x = doc" using x by simp
    then have "doc \<in> docs x" using doc_cases [OF x(1)] Cons.prems by auto
    with False \<open>doc_id I x = doc\<close> x IH show ?thesis by (fastforce split: option.splits)
  qed
qed simp

lemma conj_docs_cong: "map docs (conj_children c') = map docs (conj_children c) \<Longrightarrow> conj_docs docs c' = conj_docs docs c"
  unfolding conj_docs_def by (metis list.set_map)

lemma conj_docs_range: "invar (lead1 c) \<Longrightarrow> doc_set (conj_docs docs c)"
  using docs_range [of "lead1 c"] by (auto simp: conj_docs_def conj_children_def)

definition conj_result :: "int \<Rightarrow> 's conjunction \<Rightarrow> (int \<times> 's conjunction) result option \<Rightarrow> bool" where
  "conj_result doc c r \<longleftrightarrow>
     (\<exists>c'. r = Some (Inr (first_ge (conj_docs docs c) doc, c')) \<and> conj_inv I docs invar c' \<and>
        map docs (conj_children c') = map docs (conj_children c) \<and>
        conj_doc_id I c' = first_ge (conj_docs docs c) doc)"

text \<open>An iteration that restarts from \<open>doc'\<close> has skipped no common document.\<close>

lemma conj_result_skip:
  assumes "conj_result doc' c' r" "map docs (conj_children c') = map docs (conj_children c)"
    and "first_ge (conj_docs docs c) doc' = first_ge (conj_docs docs c) doc"
  shows "conj_result doc c r"
  using assms conj_docs_cong [OF assms(2)] by (simp add: conj_result_def)

lemma conj_skip:
  assumes "x \<in> set (conj_children c)" "invar x" "t \<le> NO_MORE_DOCS"
  shows "first_ge (conj_docs docs c) (first_ge (docs x) t) = first_ge (conj_docs docs c) t"
  using assms by (intro first_ge_skip docs_range) (auto simp: conj_docs_def)

text \<open>Both leads stand on \<open>d\<close>: the other iterators confirm it, or one of them sends the leads ahead.\<close>

lemma conj_agree:
  assumes IH: "\<And>doc' c'. d < doc' \<Longrightarrow> conj_ready I invar doc' c' \<Longrightarrow> conj_result doc' c' (skip_to_approx I doc' c')"
    and d: "0 \<le> d" "d < NO_MORE_DOCS"
    and c: "invar (lead1 c)" "invar (lead2 c)" "doc_id I (lead1 c) = d" "doc_id I (lead2 c) = d"
    and os: "\<And>x. x \<in> set (others c) \<Longrightarrow> invar x \<and> doc_id I x \<le> d"
  shows "conj_result d c
    (case conj_others I d (others c) of
       Inl e \<Rightarrow> Some (Inl e)
     | Inr (None, os) \<Rightarrow> Some (Inr (d, c\<lparr>others := os\<rparr>))
     | Inr (Some next, os) \<Rightarrow>
         (case approximate_advance I next (lead1 c) of
            Inl e \<Rightarrow> Some (Inl e)
          | Inr (doc'', l1') \<Rightarrow> skip_to_approx I doc'' (c\<lparr>lead1 := l1', others := os\<rparr>)))"
proof -
  obtain r xs where r: "conj_others I d (others c) = Inr (r, xs)" "map docs xs = map docs (others c)" "\<forall>x\<in>set xs. invar x"
    "case r of None \<Rightarrow> (\<forall>x\<in>set xs. doc_id I x = d \<and> d \<in> docs x)
     | Some next \<Rightarrow> d < next \<and> next \<le> NO_MORE_DOCS \<and> (\<forall>x\<in>set xs. doc_id I x \<le> next) \<and>
         (\<exists>x\<in>set (others c). next = first_ge (docs x) d)"
    using conj_others_spec [OF os d] by blast
  have leads: "d \<in> docs (lead1 c)" "d \<in> docs (lead2 c)" using c d doc_cases by force+
  show ?thesis
  proof (cases r)
    case None
    let ?c = "c\<lparr>others := xs\<rparr>"
    have kids: "map docs (conj_children ?c) = map docs (conj_children c)" using r(2) by (simp add: conj_children_def)
    have "d \<in> conj_docs docs ?c" using r(4) None leads by (auto simp: conj_docs_def conj_children_def)
    moreover from this have "first_ge (conj_docs docs c) d = d"
      using conj_docs_cong [OF kids] first_ge_self [OF conj_docs_range [OF c(1)]] by simp
    ultimately show ?thesis
      using r None kids c by (auto simp: conj_result_def conj_inv_def conj_children_def conj_doc_id_def)
  next
    case (Some nxt)
    then obtain x where n: "d < nxt" "nxt \<le> NO_MORE_DOCS" "\<forall>x\<in>set xs. doc_id I x \<le> nxt"
        "x \<in> set (others c)" "nxt = first_ge (docs x) d"
      using r(4) by auto
    let ?d = "first_ge (docs (lead1 c)) nxt"
    have "moves (doc_id I) docs invar (lead1 c) (approximate_advance I nxt (lead1 c)) ?d"
      using adv_moves [OF c(1) _ n(2)] c(3) n(1) by simp
    then obtain l1 where l1: "approximate_advance I nxt (lead1 c) = Inr (?d, l1)" "invar l1"
        "docs l1 = docs (lead1 c)" "doc_id I l1 = ?d"
      by (rule movesE)
    have ge: "nxt \<le> ?d" using first_ge_ge [OF docs_range [OF c(1)] n(2)] .
    let ?c = "c\<lparr>lead1 := l1, others := xs\<rparr>"
    have kids: "map docs (conj_children ?c) = map docs (conj_children c)"
      using r(2) l1(3) by (simp add: conj_children_def)
    have "conj_ready I invar ?d ?c"
      using l1 r(3) n ge c by (force simp: conj_ready_def conj_children_def)
    then have "conj_result ?d ?c (skip_to_approx I ?d ?c)" using ge n(1) by (intro IH) auto
    moreover have "first_ge (conj_docs docs c) ?d = first_ge (conj_docs docs c) d"
      using conj_skip [of "lead1 c" c nxt] conj_skip [of x c d] c os n d by (simp add: conj_children_def)
    ultimately have "conj_result d c (skip_to_approx I ?d ?c)" using conj_result_skip kids by blast
    then show ?thesis using r(1) Some l1(1) by simp
  qed
qed

text \<open>Moving the second lead to the document, and the first lead to where the second one landed.\<close>

lemma conj_leads:
  assumes "conj_ready I invar doc c"
  obtains n2 d l1 l2 where "approximate_advance I doc (lead2 c) = Inr (n2, l2)"
    "(if n2 = doc then Inr (doc, lead1 c) else approximate_advance I n2 (lead1 c)) = Inr (d, l1)"
    "invar l1" "doc_id I l1 = d" "invar l2" "doc_id I l2 = n2" "0 \<le> doc" "doc \<le> n2" "n2 \<le> d" "d \<le> NO_MORE_DOCS"
    "map docs (conj_children (c\<lparr>lead1 := l1, lead2 := l2\<rparr>)) = map docs (conj_children c)"
    "first_ge (conj_docs docs c) d = first_ge (conj_docs docs c) doc"
proof -
  have inv: "invar (lead1 c)" "invar (lead2 c)" and pos: "doc_id I (lead1 c) = doc" "doc_id I (lead2 c) < doc"
    using assms by (auto simp: conj_ready_def conj_children_def)
  have doc: "0 \<le> doc" "doc \<le> NO_MORE_DOCS" using doc_bounds [OF inv(1)] doc_bounds [OF inv(2)] pos by auto
  note D = docs_range [OF inv(1)] docs_range [OF inv(2)]
  let ?n2 = "first_ge (docs (lead2 c)) doc" and ?d = "first_ge (docs (lead1 c)) (first_ge (docs (lead2 c)) doc)"
  obtain l2 where l2: "approximate_advance I doc (lead2 c) = Inr (?n2, l2)" "invar l2" "docs l2 = docs (lead2 c)" "doc_id I l2 = ?n2"
    using adv_moves [OF inv(2) pos(2) doc(2)] by (auto elim: movesE)
  have n2: "doc \<le> ?n2" "?n2 \<le> NO_MORE_DOCS" using first_ge_ge [OF D(2) doc(2)] first_ge_le_max [OF D(2)] by auto
  have d: "?n2 \<le> ?d" "?d \<le> NO_MORE_DOCS" using first_ge_ge [OF D(1) n2(2)] first_ge_le_max [OF D(1)] by auto
  have self: "first_ge (docs (lead1 c)) doc = doc" using first_ge_doc [OF inv(1)] pos doc by simp
  obtain l1 where l1: "(if ?n2 = doc then Inr (doc, lead1 c) else approximate_advance I ?n2 (lead1 c)) = Inr (?d, l1)"
      "invar l1" "docs l1 = docs (lead1 c)" "doc_id I l1 = ?d"
  proof (cases "?n2 = doc")
    case True
    then show ?thesis using that [of "lead1 c"] inv(1) pos(1) self by simp
  next
    case False
    then show ?thesis
      using adv_moves [OF inv(1) _ n2(2)] pos n2 that by (auto elim!: movesE)
  qed
  have "first_ge (conj_docs docs c) ?d = first_ge (conj_docs docs c) doc"
    using conj_skip [of "lead1 c" c ?n2] conj_skip [of "lead2 c" c doc] inv doc n2
    by (simp add: conj_children_def)
  then show ?thesis
    using that [OF l2(1) l1(1,2,4) l2(2,4) doc(1) n2(1) d] l1(3) l2(3) by (simp add: conj_children_def)
qed

lemma skip_to_approx_unfold:
  assumes "doc_id I (lead1 c) = doc" "approximate_advance I doc (lead2 c) = Inr (n2, l2)"
    and "(if n2 = doc then Inr (doc, lead1 c) else approximate_advance I n2 (lead1 c)) = Inr (d, l1)"
  defines "c' \<equiv> c\<lparr>lead1 := l1, lead2 := l2\<rparr>"
  shows "skip_to_approx I doc c =
     (if n2 \<noteq> d then skip_to_approx I d c'
      else if d = NO_MORE_DOCS then Some (Inr (d, c'))
      else case conj_others I d (others c') of
       Inl e \<Rightarrow> Some (Inl e)
     | Inr (None, os) \<Rightarrow> Some (Inr (d, c'\<lparr>others := os\<rparr>))
     | Inr (Some next, os) \<Rightarrow>
         (case approximate_advance I next (lead1 c') of
            Inl e \<Rightarrow> Some (Inl e)
          | Inr (doc'', l1') \<Rightarrow> skip_to_approx I doc'' (c'\<lparr>lead1 := l1', others := os\<rparr>)))"
  unfolding c'_def
  by (subst skip_to_approx.simps, simp only: assms(1-3) sum.case prod.case simp_thms if_False)
    (simp cong del: sum.case_cong_weak option.case_cong_weak prod.case_cong_weak)

lemma skip_to_approx_finds:
  assumes "conj_ready I invar doc c"
  shows "conj_result doc c (skip_to_approx I doc c)"
  using assms
proof (induction "nat (NO_MORE_DOCS - doc)" arbitrary: doc c rule: less_induct)
  case less
  have inv: "\<And>x. x \<in> set (others c) \<Longrightarrow> invar x \<and> doc_id I x \<le> doc" "invar (lead1 c)" and pos: "doc_id I (lead1 c) = doc"
    using less.prems by (auto simp: conj_ready_def conj_children_def)
  obtain n2 d l1 l2 where l: "approximate_advance I doc (lead2 c) = Inr (n2, l2)"
      "(if n2 = doc then Inr (doc, lead1 c) else approximate_advance I n2 (lead1 c)) = Inr (d, l1)"
      and l12: "invar l1" "doc_id I l1 = d" "invar l2" "doc_id I l2 = n2"
      and le: "0 \<le> doc" "doc \<le> n2" "n2 \<le> d" "d \<le> NO_MORE_DOCS"
      and kids: "map docs (conj_children (c\<lparr>lead1 := l1, lead2 := l2\<rparr>)) = map docs (conj_children c)"
      and skip: "first_ge (conj_docs docs c) d = first_ge (conj_docs docs c) doc"
    by (rule conj_leads [OF less.prems])
  let ?c = "c\<lparr>lead1 := l1, lead2 := l2\<rparr>"
  note unfolded = skip_to_approx_unfold [OF pos l]
  consider (behind) "n2 \<noteq> d" | (finished) "n2 = d" "d = NO_MORE_DOCS" | (agree) "n2 = d" "d < NO_MORE_DOCS"
    using le by fastforce
  then show ?case
  proof cases
    case behind
    have "conj_ready I invar d ?c"
      using behind inv l12 le by (fastforce simp: conj_ready_def conj_children_def)
    then have "conj_result d ?c (skip_to_approx I d ?c)"
      using behind le by (intro less.hyps) auto
    then show ?thesis
      unfolding unfolded using behind conj_result_skip [OF _ kids skip] by simp
  next
    case finished
    have "first_ge (conj_docs docs c) doc = NO_MORE_DOCS"
      using skip finished(2) first_ge_end [OF conj_docs_range [OF inv(2)]] by simp
    then show ?thesis
      unfolding unfolded using kids finished inv l12 le
      by (fastforce simp: conj_result_def conj_inv_def conj_children_def conj_doc_id_def)
  next
    case agree
    have eq: "\<not> n2 \<noteq> d" "d \<noteq> NO_MORE_DOCS" using agree by auto
    have "conj_result d ?c (skip_to_approx I doc c)"
      unfolding unfolded if_not_P [OF eq(1)] if_not_P [OF eq(2)]
    proof (rule conj_agree)
      fix doc' c'
      assume "d < doc'" "conj_ready I invar doc' c'"
      moreover from this have "nat (NO_MORE_DOCS - doc') < nat (NO_MORE_DOCS - doc)" using le agree(2) by linarith
      ultimately show "conj_result doc' c' (skip_to_approx I doc' c')" by (intro less.hyps)
    next
      show "invar x \<and> doc_id I x \<le> d" if "x \<in> set (others ?c)" for x
        using inv(1) [of x] that le by auto
    qed (use agree le l12 in auto)
    then show ?thesis using conj_result_skip [OF _ kids skip] by simp
  qed
qed

lemma conj_restart:
  assumes "conj_inv I docs invar c" "conj_doc_id I c < t" "t \<le> NO_MORE_DOCS"
    and "moves (doc_id I) docs invar (lead1 c) r (first_ge (docs (lead1 c)) t)"
  shows "\<exists>r'. (case r of Inl e \<Rightarrow> Some (Inl e) | Inr (doc, l1) \<Rightarrow> skip_to_approx I doc (c\<lparr>lead1 := l1\<rparr>)) = Some r' \<and>
    moves (conj_doc_id I) (conj_docs docs) (conj_inv I docs invar) c r' (first_ge (conj_docs docs c) t)"
proof -
  let ?d = "first_ge (docs (lead1 c)) t"
  from assms(4) obtain l1 where l1: "r = Inr (?d, l1)" "invar l1" "docs l1 = docs (lead1 c)" "doc_id I l1 = ?d"
    by (rule movesE)
  let ?c = "c\<lparr>lead1 := l1\<rparr>"
  have inv: "invar (lead1 c)" using assms(1) by (simp add: conj_inv_def conj_children_def)
  have ge: "t \<le> ?d" using first_ge_ge [OF docs_range [OF inv] assms(3)] .
  have kids: "map docs (conj_children ?c) = map docs (conj_children c)" using l1 by (simp add: conj_children_def)
  have "conj_ready I invar ?d ?c"
    using assms(1,2) l1 ge by (force simp: conj_ready_def conj_inv_def conj_children_def)
  then have "conj_result ?d ?c (skip_to_approx I ?d ?c)" by (rule skip_to_approx_finds)
  moreover have "first_ge (conj_docs docs c) ?d = first_ge (conj_docs docs c) t"
    using inv assms(3) by (intro conj_skip) (auto simp: conj_children_def)
  ultimately have "conj_result t c (skip_to_approx I ?d ?c)" using conj_result_skip kids by blast
  then obtain c' where c': "skip_to_approx I ?d ?c = Some (Inr (first_ge (conj_docs docs c) t, c'))"
      "conj_inv I docs invar c'" "map docs (conj_children c') = map docs (conj_children c)"
      "conj_doc_id I c' = first_ge (conj_docs docs c) t"
    unfolding conj_result_def by blast
  then show ?thesis using l1(1) conj_docs_cong [OF c'(3)] by (simp add: moves_def)
qed

lemma conj_next_moves:
  assumes "conj_inv I docs invar c" "conj_doc_id I c < NO_MORE_DOCS"
  shows "\<exists>r. conj_approximate_next I c = Some r \<and>
    moves (conj_doc_id I) (conj_docs docs) (conj_inv I docs invar) c r (first_ge (conj_docs docs c) (conj_doc_id I c + 1))"
  unfolding conj_approximate_next_def using assms
  by (intro conj_restart) (auto simp: conj_doc_id_def conj_inv_def conj_children_def intro!: next_moves)

lemma conj_advance_moves:
  assumes "conj_inv I docs invar c" "conj_doc_id I c < t" "t \<le> NO_MORE_DOCS"
  shows "\<exists>r. conj_approximate_advance I t c = Some r \<and>
    moves (conj_doc_id I) (conj_docs docs) (conj_inv I docs invar) c r (first_ge (conj_docs docs c) t)"
  unfolding conj_approximate_advance_def using assms
  by (intro conj_restart) (auto simp: conj_doc_id_def conj_inv_def conj_children_def intro!: adv_moves)

text \<open>So a conjunction is itself an iterator under the contract, and conjunctions nest.\<close>

lemma conj_cursor:
  "doc_cursor (conj_doc_id I) (\<lambda>c. returned (conj_approximate_next I c))
     (\<lambda>t c. returned (conj_approximate_advance I t c)) (conj_docs docs) (conj_inv I docs invar)"
proof
  show "conj_inv I docs invar c \<Longrightarrow> doc_set (conj_docs docs c)" for c
    by (rule conj_docs_range) (simp add: conj_inv_def conj_children_def)
  show "conj_inv I docs invar c \<Longrightarrow> conj_doc_id I c = - 1 \<or> conj_doc_id I c \<in> conj_docs docs c \<or> conj_doc_id I c = NO_MORE_DOCS" for c
    by (simp add: conj_inv_def)
qed (use conj_next_moves conj_advance_moves in \<open>fastforce simp: returned_def\<close>)+

lemma conj_new_inv:
  assumes "2 \<le> length children" "\<And>x. x \<in> set children \<Longrightarrow> invar x \<and> doc_id I x = - 1"
  shows "\<exists>c. conj_new I children = Inr c \<and> conj_inv I docs invar c \<and> conj_doc_id I c = - 1 \<and>
    conj_docs docs c = (\<Inter>x\<in>set children. docs x)"
proof -
  let ?xs = "sort_key (cost I) children"
  have "2 \<le> length ?xs" using assms(1) by simp
  then obtain a b rest where xs: "?xs = a # b # rest" by (cases ?xs; cases "tl ?xs") auto
  then have kids: "set (a # b # rest) = set children" by (metis set_sort)
  let ?c = "\<lparr>lead1 = a, lead2 = b, others = rest\<rparr>"
  have all: "\<forall>x\<in>set (a # b # rest). invar x \<and> doc_id I x = - 1" unfolding kids using assms(2) by blast
  have "conj_docs docs ?c = (\<Inter>x\<in>set children. docs x)"
    unfolding conj_docs_def conj_children_def kids [symmetric] by simp
  moreover have "conj_inv I docs invar ?c" "conj_doc_id I ?c = - 1"
    using all by (auto simp: conj_inv_def conj_doc_id_def conj_children_def)
  ultimately show ?thesis using xs by (simp add: conj_new_def)
qed

end

interpretation conj_int_array: exact_cursor "conj_iter int_array_iter" "conj_docs int_array_docs"
  "conj_inv int_array_iter int_array_docs int_array_inv"
  using int_array_approx.conj_cursor by (simp add: exact_cursor_def conj_iter_def)

section \<open>DisjunctionSumScorer and DisjunctionMaxScorer\<close>

text \<open>
  Both scorers iterate alike and differ in their scores. \<open>dmax_multiplier\<close> is the bit pattern of
  the float the maximum scorer keeps.
\<close>

record 's disjunction =
  sub_scorers :: "'s list"
  curr_doc :: int
  disj_cost :: nat

record 's disjunction_max = "'s disjunction" +
  dmax_multiplier :: u32

definition disj_min_doc :: "('s, 'e) doc_iterator_scheme \<Rightarrow> 's list \<Rightarrow> int" where
  "disj_min_doc I children = foldl (\<lambda>m s. min m (doc_id I s)) NO_MORE_DOCS children"

definition disj_new :: "('s, 'e) doc_iterator_scheme \<Rightarrow> 's list \<Rightarrow> bool \<Rightarrow> 's disjunction result" where
  "disj_new I children needs_scores =
     (if \<not> 1 < length children then Inl (Panic ''children.len() > 1'')
      else Inr \<lparr>sub_scorers = children, curr_doc = disj_min_doc I children,
                disj_cost = sum_list (map (cost I) children)\<rparr>)"

definition dmax_new ::
  "('s, 'e) doc_iterator_scheme \<Rightarrow> 's list \<Rightarrow> u32 \<Rightarrow> bool \<Rightarrow> 's disjunction_max result" where
  "dmax_new I children multiplier needs_score =
     (if \<not> 1 < length children then Inl (Panic ''children.len() > 1'')
      else Inr \<lparr>sub_scorers = children, curr_doc = disj_min_doc I children,
                disj_cost = sum_list (map (cost I) children), dmax_multiplier = multiplier\<rparr>)"

text \<open>One pass over the sub-scorers: those that satisfy \<open>behind\<close> are moved, and the least document is kept.\<close>

fun disj_pass ::
  "('s, 'e) doc_iterator_scheme \<Rightarrow> ('s \<Rightarrow> bool) \<Rightarrow> ('s \<Rightarrow> (int \<times> 's) result) \<Rightarrow> 's list \<Rightarrow> int \<Rightarrow> ('s list \<times> int) result" where
  "disj_pass I behind move [] min_doc = Inr ([], min_doc)"
| "disj_pass I behind move (x # xs) min_doc =
     rbind (if behind x then rbind (move x) (\<lambda>(d, x'). Inr x') else Inr x) (\<lambda>x'.
     rbind (disj_pass I behind move xs (min min_doc (doc_id I x'))) (\<lambda>(xs', m). Inr (x' # xs', m)))"

definition disj_approximate_next ::
  "('s, 'e) doc_iterator_scheme \<Rightarrow> ('s, 'f) disjunction_scheme \<Rightarrow> (int \<times> ('s, 'f) disjunction_scheme) result" where
  "disj_approximate_next I c =
     rbind (disj_pass I (\<lambda>s. doc_id I s = curr_doc c) (approximate_next I) (sub_scorers c) NO_MORE_DOCS)
       (\<lambda>(subs, min_doc). Inr (min_doc, c\<lparr>sub_scorers := subs, curr_doc := min_doc\<rparr>))"

definition disj_approximate_advance ::
  "('s, 'e) doc_iterator_scheme \<Rightarrow> int \<Rightarrow> ('s, 'f) disjunction_scheme \<Rightarrow> (int \<times> ('s, 'f) disjunction_scheme) result" where
  "disj_approximate_advance I target c =
     rbind (disj_pass I (\<lambda>s. doc_id I s < target) (approximate_advance I target) (sub_scorers c) NO_MORE_DOCS)
       (\<lambda>(subs, min_doc). Inr (min_doc, c\<lparr>sub_scorers := subs, curr_doc := min_doc\<rparr>))"

definition disj_iter :: "('s, 'e) doc_iterator_scheme \<Rightarrow> ('s, 'f) disjunction_scheme doc_iterator" where
  "disj_iter I = one_phase curr_doc (disj_approximate_next I) (disj_approximate_advance I) disj_cost"

definition disj_docs :: "('s \<Rightarrow> int set) \<Rightarrow> ('s, 'f) disjunction_scheme \<Rightarrow> int set" where
  "disj_docs docs c = (\<Union>x\<in>set (sub_scorers c). docs x)"

text \<open>The current document is the least of the sub-scorers', and none of them has skipped a later document.\<close>

definition disj_inv ::
  "('s, 'e) doc_iterator_scheme \<Rightarrow> ('s \<Rightarrow> int set) \<Rightarrow> ('s \<Rightarrow> bool) \<Rightarrow> ('s, 'f) disjunction_scheme \<Rightarrow> bool" where
  "disj_inv I docs invar c \<longleftrightarrow>
     sub_scorers c \<noteq> [] \<and> curr_doc c = Min (doc_id I ` set (sub_scorers c)) \<and>
     (\<forall>x\<in>set (sub_scorers c). invar x \<and> (\<forall>d\<in>docs x. curr_doc c < d \<longrightarrow> doc_id I x \<le> d))"

lemma Min_insert_min: "finite A \<Longrightarrow> Min (insert (min a b) A) = Min (insert a (insert b A))" for a :: int
  by (cases "A = {}") (auto simp: min.assoc)

lemma foldl_min_Min: "foldl (\<lambda>m s. min m (f s)) a xs = Min (insert a (f ` set xs))" for a :: int
  by (induction xs arbitrary: a) (simp_all add: Min_insert_min del: Min_insert)

context approximation
begin

lemma disj_pass_spec:
  assumes "\<And>x. x \<in> set xs \<Longrightarrow> behind x \<Longrightarrow> moves (doc_id I) docs invar x (move x) (first_ge (docs x) t)"
    and "\<And>x. x \<in> set xs \<Longrightarrow> \<not> behind x \<Longrightarrow> invar x \<and> doc_id I x = first_ge (docs x) t"
  shows "\<exists>xs'. disj_pass I behind move xs m = Inr (xs', Min (insert m ((\<lambda>x. first_ge (docs x) t) ` set xs))) \<and>
    map docs xs' = map docs xs \<and> (\<forall>x\<in>set xs'. invar x \<and> doc_id I x = first_ge (docs x) t)"
  using assms
proof (induction xs arbitrary: m)
  case (Cons x xs)
  let ?d = "first_ge (docs x) t"
  obtain x' where x': "(if behind x then rbind (move x) (\<lambda>(d, x'). Inr x') else Inr x) = Inr x'"
      "invar x'" "docs x' = docs x" "doc_id I x' = ?d"
    using Cons.prems(1) [of x] Cons.prems(2) [of x] by (cases "behind x") (auto elim!: movesE)
  obtain xs' where "disj_pass I behind move xs (min m ?d) =
        Inr (xs', Min (insert (min m ?d) ((\<lambda>x. first_ge (docs x) t) ` set xs)))"
      "map docs xs' = map docs xs" "\<forall>x\<in>set xs'. invar x \<and> doc_id I x = first_ge (docs x) t"
    using Cons.IH [of "min m ?d"] Cons.prems by auto
  then show ?case using x' by (auto simp: Min_insert_min simp del: Min_insert)
qed simp

lemma disj_docs_range: "disj_inv I docs invar c \<Longrightarrow> doc_set (disj_docs docs c)"
  using docs_range by (fastforce simp: disj_docs_def disj_inv_def)

lemma disj_step:
  fixes c :: "('s, 'f) disjunction_scheme"
  assumes inv: "disj_inv I docs invar c" and t: "t \<le> NO_MORE_DOCS"
    and "\<And>x. x \<in> set (sub_scorers c) \<Longrightarrow> behind x \<Longrightarrow> moves (doc_id I) docs invar x (move x) (first_ge (docs x) t)"
    and "\<And>x. x \<in> set (sub_scorers c) \<Longrightarrow> \<not> behind x \<Longrightarrow> doc_id I x = first_ge (docs x) t"
  shows "moves curr_doc (disj_docs docs) (disj_inv I docs invar) c
    (rbind (disj_pass I behind move (sub_scorers c) NO_MORE_DOCS)
       (\<lambda>(subs, min_doc). Inr (min_doc, c\<lparr>sub_scorers := subs, curr_doc := min_doc\<rparr>)))
    (first_ge (disj_docs docs c) t)"
proof -
  let ?xs = "sub_scorers c"
  let ?fst = "\<lambda>x. first_ge (docs x) t"
  have xs: "?xs \<noteq> []" "\<And>x. x \<in> set ?xs \<Longrightarrow> invar x" using inv by (auto simp: disj_inv_def)
  obtain xs' where xs': "disj_pass I behind move ?xs NO_MORE_DOCS = Inr (xs', Min (insert NO_MORE_DOCS (?fst ` set ?xs)))"
      "map docs xs' = map docs ?xs" "\<forall>x\<in>set xs'. invar x \<and> doc_id I x = ?fst x"
    using disj_pass_spec [of ?xs behind move t NO_MORE_DOCS] assms(3,4) xs(2) by blast
  have sets: "docs ` set xs' = docs ` set ?xs" using xs'(2) by (metis list.set_map)
  have img: "doc_id I ` set xs' = ?fst ` set ?xs"
  proof -
    have "doc_id I ` set xs' = (\<lambda>D. first_ge D t) ` docs ` set xs'" using xs'(3) by (auto simp: image_iff)
    then show ?thesis by (simp add: sets image_image)
  qed
  have union: "first_ge (disj_docs docs c) t = Min (?fst ` set ?xs)"
    unfolding disj_docs_def using xs docs_range t by (intro first_ge_Union) auto
  have bound: "first_ge (disj_docs docs c) t \<le> NO_MORE_DOCS" by (rule first_ge_le_max [OF disj_docs_range [OF inv]])
  have min: "Min (insert NO_MORE_DOCS (?fst ` set ?xs)) = first_ge (disj_docs docs c) t"
    using xs(1) bound union by (simp add: min_absorb2)
  have ge: "t \<le> first_ge (disj_docs docs c) t" using first_ge_ge [OF disj_docs_range [OF inv] t] .
  have "doc_id I x \<le> d" if "x \<in> set xs'" "d \<in> docs x" "first_ge (disj_docs docs c) t < d" for x d
    using xs'(3) that ge first_ge_le [OF docs_range that(2)] by fastforce
  then have "disj_inv I docs invar (c\<lparr>sub_scorers := xs', curr_doc := first_ge (disj_docs docs c) t\<rparr>)"
    using xs' xs(1) img union by (auto simp: disj_inv_def)
  then show ?thesis
    using xs'(1) min sets by (auto simp: moves_def disj_docs_def)
qed

lemma disj_behind:
  assumes "disj_inv I docs invar c" "x \<in> set (sub_scorers c)" "curr_doc c < t" "t \<le> doc_id I x"
  shows "doc_id I x = first_ge (docs x) t"
proof (rule first_ge_eqI [symmetric, OF docs_range _ assms(4)])
  show inv: "invar x" using assms by (simp add: disj_inv_def)
  have "curr_doc c \<ge> - 1"
    using assms(1) doc_bounds by (auto simp: disj_inv_def)
  then show "doc_id I x \<in> docs x \<or> doc_id I x = NO_MORE_DOCS" using doc_cases [OF inv] assms(3,4) by auto
  show "doc_id I x \<le> d" if "d \<in> docs x" "t \<le> d" for d
    using assms that by (auto simp: disj_inv_def)
qed

lemma disj_curr_le: "disj_inv I docs invar c \<Longrightarrow> x \<in> set (sub_scorers c) \<Longrightarrow> curr_doc c \<le> doc_id I x"
  by (simp add: disj_inv_def)

lemma disj_next_moves:
  assumes "disj_inv I docs invar c" "curr_doc c < NO_MORE_DOCS"
  shows "moves curr_doc (disj_docs docs) (disj_inv I docs invar) c (disj_approximate_next I c)
    (first_ge (disj_docs docs c) (curr_doc c + 1))"
  unfolding disj_approximate_next_def
proof (rule disj_step [OF assms(1)])
  fix x assume x: "x \<in> set (sub_scorers c)"
  then have inv: "invar x" using assms(1) by (simp add: disj_inv_def)
  show "moves (doc_id I) docs invar x (approximate_next I x) (first_ge (docs x) (curr_doc c + 1))"
    if "doc_id I x = curr_doc c"
    using next_moves [OF inv] that assms(2) by simp
  show "doc_id I x = first_ge (docs x) (curr_doc c + 1)" if "doc_id I x \<noteq> curr_doc c"
    using disj_behind [OF assms(1) x, of "curr_doc c + 1"] disj_curr_le [OF assms(1) x] that by simp
qed (use assms(2) in simp)

lemma disj_advance_moves:
  assumes "disj_inv I docs invar c" "curr_doc c < t" "t \<le> NO_MORE_DOCS"
  shows "moves curr_doc (disj_docs docs) (disj_inv I docs invar) c (disj_approximate_advance I t c)
    (first_ge (disj_docs docs c) t)"
  unfolding disj_approximate_advance_def
proof (rule disj_step [OF assms(1,3)])
  fix x assume x: "x \<in> set (sub_scorers c)"
  then have inv: "invar x" using assms(1) by (simp add: disj_inv_def)
  show "moves (doc_id I) docs invar x (approximate_advance I t x) (first_ge (docs x) t)" if "doc_id I x < t"
    using adv_moves [OF inv that assms(3)] .
  show "doc_id I x = first_ge (docs x) t" if "\<not> doc_id I x < t"
    using disj_behind [OF assms(1) x assms(2)] that by simp
qed

lemma disj_cursor:
  "doc_cursor curr_doc (disj_approximate_next I) (disj_approximate_advance I) (disj_docs docs) (disj_inv I docs invar)"
proof
  fix c :: "('s, 'f) disjunction_scheme"
  assume c: "disj_inv I docs invar c"
  then have "curr_doc c \<in> doc_id I ` set (sub_scorers c)" by (simp add: disj_inv_def)
  then obtain x where x: "x \<in> set (sub_scorers c)" "curr_doc c = doc_id I x" by auto
  then show "curr_doc c = - 1 \<or> curr_doc c \<in> disj_docs docs c \<or> curr_doc c = NO_MORE_DOCS"
    using doc_cases [of x] c by (auto simp: disj_inv_def disj_docs_def)
qed (rule disj_docs_range disj_next_moves disj_advance_moves; assumption)+

lemma disj_new_inv:
  assumes "1 < length children" "\<And>x. x \<in> set children \<Longrightarrow> invar x \<and> doc_id I x = - 1"
  shows "\<exists>c. disj_new I children b = Inr c \<and> disj_inv I docs invar c \<and> curr_doc c = - 1 \<and>
    disj_docs docs c = (\<Union>x\<in>set children. docs x)"
proof -
  have ids: "doc_id I ` set children = {- 1}" using assms by (cases children) auto
  moreover have "children \<noteq> []" using assms(1) by auto
  moreover have "- 1 \<le> d" if "x \<in> set children" "d \<in> docs x" for x d
    using docs_range [of x] assms(2) [OF that(1)] that(2) by (auto simp: subset_iff dest!: bspec)
  ultimately show ?thesis
    using assms by (auto simp: disj_new_def disj_min_doc_def foldl_min_Min disj_inv_def disj_docs_def)
qed

end

interpretation disj_int_array: exact_cursor "disj_iter int_array_iter" "disj_docs int_array_docs"
  "disj_inv int_array_iter int_array_docs int_array_inv"
  using int_array_approx.disj_cursor by (simp add: exact_cursor_def disj_iter_def)

section \<open>ConstantScoreScorer\<close>

record 's constant_scorer =
  cs_score :: u32
  cs_iterator :: 's
  cs_cost :: nat

definition cs_lift :: "('s \<Rightarrow> ('a \<times> 's) result) \<Rightarrow> 's constant_scorer \<Rightarrow> ('a \<times> 's constant_scorer) result" where
  "cs_lift f c = rbind (f (cs_iterator c)) (\<lambda>(a, s). Inr (a, c\<lparr>cs_iterator := s\<rparr>))"

definition constant_score_iter :: "('s, 'e) doc_iterator_scheme \<Rightarrow> 's constant_scorer doc_iterator" where
  "constant_score_iter I =
     \<lparr>doc_id = (\<lambda>c. doc_id I (cs_iterator c)), next_doc = cs_lift (next_doc I),
      advance = (\<lambda>target. cs_lift (advance I target)), cost = cs_cost, matches = default_matches,
      support_two_phase = (\<lambda>c. False), approximate_next = cs_lift (approximate_next I),
      approximate_advance = (\<lambda>target. cs_lift (approximate_advance I target))\<rparr>"

definition constant_score :: "'s constant_scorer \<Rightarrow> (u32 \<times> 's constant_scorer) result" where
  "constant_score c = Inr (cs_score c, c)"

lemma cs_lift_moves:
  assumes "moves doc docs invar (cs_iterator c) (f (cs_iterator c)) d"
  shows "moves (\<lambda>c. doc (cs_iterator c)) (\<lambda>c. docs (cs_iterator c)) (\<lambda>c. invar (cs_iterator c)) c (cs_lift f c) d"
  using assms by (auto simp: moves_def cs_lift_def)

context exact_cursor
begin

lemma constant_score_cursor:
  "exact_cursor (constant_score_iter I) (\<lambda>c. docs (cs_iterator c)) (\<lambda>c. invar (cs_iterator c))"
  by unfold_locales
    (auto simp: constant_score_iter_def docs_range doc_cases next_moves adv_moves intro!: cs_lift_moves)

end

interpretation all_constant: exact_cursor "constant_score_iter all_docs_iter"
  "\<lambda>c. all_docs_set (cs_iterator c)" "\<lambda>c. all_docs_inv (cs_iterator c)"
  by (rule all_docs_exact.constant_score_cursor)

section \<open>DocIteratorAsBits\<close>

record 's as_bits =
  ab_iterator :: 's
  ab_previous :: int
  ab_previous_matched :: bool
  ab_max_doc :: int

definition as_bits_new :: "int \<Rightarrow> 's \<Rightarrow> 's as_bits" where
  "as_bits_new max_doc scorer =
     \<lparr>ab_iterator = scorer, ab_previous = - 1, ab_previous_matched = False, ab_max_doc = max_doc\<rparr>"

text \<open>\<open>0x3f800000\<close> is the bit pattern of \<open>1f32\<close>.\<close>

definition as_bits_all_doc :: "int \<Rightarrow> all_docs constant_scorer as_bits result" where
  "as_bits_all_doc max_doc =
     rbind (all_docs_new max_doc) (\<lambda>it. Inr (as_bits_new max_doc
       \<lparr>cs_score = 0x3f800000, cs_iterator = it, cs_cost = nat max_doc\<rparr>))"

definition as_bits_get :: "('s, 'e) doc_iterator_scheme \<Rightarrow> nat \<Rightarrow> 's as_bits \<Rightarrow> (bool \<times> 's as_bits) result" where
  "as_bits_get I index0 b =
     (let index = as_i32 (int index0)
      in if index < 0 \<or> ab_max_doc b \<le> index then Inl (IllegalArgument ''out of bounds'')
         else if index < ab_previous b then Inl (IllegalArgument ''can only be consumed in order'')
         else if index = ab_previous b then Inr (ab_previous_matched b, b)
         else rbind (if doc_id I (ab_iterator b) < index then advance I index (ab_iterator b)
                     else Inr (doc_id I (ab_iterator b), ab_iterator b))
           (\<lambda>(doc, it). Inr (index = doc, b\<lparr>ab_iterator := it, ab_previous := index, ab_previous_matched := index = doc\<rparr>)))"

definition as_bits_len :: "'s as_bits \<Rightarrow> nat" where
  "as_bits_len b = nat (ab_max_doc b)"

definition as_bits_is_empty :: "'s as_bits \<Rightarrow> bool" where
  "as_bits_is_empty b \<longleftrightarrow> ab_max_doc b \<le> 0"

definition as_bits_inv :: "('s, 'e) doc_iterator_scheme \<Rightarrow> ('s \<Rightarrow> int set) \<Rightarrow> ('s \<Rightarrow> bool) \<Rightarrow> 's as_bits \<Rightarrow> bool" where
  "as_bits_inv I docs invar b \<longleftrightarrow>
     (let it = ab_iterator b; p = ab_previous b
      in invar it \<and> ab_max_doc b \<le> NO_MORE_DOCS \<and> - 1 \<le> p \<and> p < NO_MORE_DOCS \<and>
         doc_id I it = (if p = - 1 then - 1 else first_ge (docs it) p) \<and>
         ab_previous_matched b = (p \<in> docs it))"

text \<open>A sequence of calls, the answers in order.\<close>

fun as_bits_gets :: "('s, 'e) doc_iterator_scheme \<Rightarrow> nat list \<Rightarrow> 's as_bits \<Rightarrow> (bool list \<times> 's as_bits) result" where
  "as_bits_gets I [] b = Inr ([], b)"
| "as_bits_gets I (i # is) b =
     rbind (as_bits_get I i b) (\<lambda>(r, b'). rbind (as_bits_gets I is b') (\<lambda>(rs, b''). Inr (r # rs, b'')))"

context exact_cursor
begin

lemma as_bits_get_ok:
  assumes b: "as_bits_inv I docs invar b" and i: "ab_previous b \<le> int i" "int i < ab_max_doc b"
  shows "\<exists>b'. as_bits_get I i b = Inr (int i \<in> docs (ab_iterator b), b') \<and> as_bits_inv I docs invar b' \<and>
    docs (ab_iterator b') = docs (ab_iterator b) \<and> ab_previous b' = int i \<and> ab_max_doc b' = ab_max_doc b"
proof -
  let ?it = "ab_iterator b" and ?p = "ab_previous b" and ?i = "int i"
  have inv: "invar ?it" "ab_max_doc b \<le> NO_MORE_DOCS"
      "doc_id I ?it = (if ?p = - 1 then - 1 else first_ge (docs ?it) ?p)" "ab_previous_matched b = (?p \<in> docs ?it)"
    using b by (auto simp: as_bits_inv_def Let_def)
  have idx: "as_i32 ?i = ?i" "?i < NO_MORE_DOCS" using i inv(2) by (auto intro!: as_i32_id)
  show ?thesis
  proof (cases "?i = ?p")
    case True
    then show ?thesis using b inv i idx by (simp add: as_bits_get_def Let_def)
  next
    case False
    let ?d = "first_ge (docs ?it) ?i"
    have "\<exists>it'. (if doc_id I ?it < ?i then advance I ?i ?it else Inr (doc_id I ?it, ?it)) = Inr (?d, it') \<and>
        invar it' \<and> docs it' = docs ?it \<and> doc_id I it' = ?d"
    proof (cases "doc_id I ?it < ?i")
      case True
      then show ?thesis using adv_moves [OF inv(1) True] idx by (auto elim: movesE)
    next
      case ahead: False
      then have "?d = doc_id I ?it"
        using first_ge_between [OF docs_range [OF inv(1)], of ?p ?i] inv(3) i(1) by (auto split: if_splits)
      then show ?thesis using ahead inv(1) by auto
    qed
    then obtain it' where it': "(if doc_id I ?it < ?i then advance I ?i ?it else Inr (doc_id I ?it, ?it)) = Inr (?d, it')"
        "invar it'" "docs it' = docs ?it" "doc_id I it' = ?d" by blast
    have "?i = ?d \<longleftrightarrow> ?i \<in> docs ?it"
      using first_ge_eq_self_iff [OF docs_range [OF inv(1)] idx(2)] by auto
    then show ?thesis
      using False i idx it' inv(2) by (simp add: as_bits_get_def as_bits_inv_def Let_def)
  qed
qed

lemma as_bits_gets_ok:
  assumes "as_bits_inv I docs invar b" "sorted is" "\<And>i. i \<in> set is \<Longrightarrow> ab_previous b \<le> int i \<and> int i < ab_max_doc b"
  shows "\<exists>b'. as_bits_gets I is b = Inr (map (\<lambda>i. int i \<in> docs (ab_iterator b)) is, b')"
  using assms
proof (induction "is" arbitrary: b)
  case (Cons i "is")
  obtain b' where b': "as_bits_get I i b = Inr (int i \<in> docs (ab_iterator b), b')" "as_bits_inv I docs invar b'"
      "docs (ab_iterator b') = docs (ab_iterator b)" "ab_previous b' = int i" "ab_max_doc b' = ab_max_doc b"
    using as_bits_get_ok [OF Cons.prems(1), of i] Cons.prems(3) by auto
  then obtain b'' where "as_bits_gets I is b' = Inr (map (\<lambda>i. int i \<in> docs (ab_iterator b')) is, b'')"
    using Cons.IH [of b'] Cons.prems by auto
  with b' show ?case by simp
qed simp

end

section \<open>Properties\<close>

text \<open>
  C13: advancing a conjunction returns, after finitely many steps of its leapfrog loop, the
  first document at or after the target that all children contain; the conjunction stays in a
  state from which this holds again.
\<close>

theorem conjunction_advance:
  assumes "approximation I docs invar" "conj_inv I docs invar c"
    and "conj_doc_id I c < target" "target \<le> NO_MORE_DOCS"
  shows "\<exists>c'. conj_approximate_advance I target c = Some (Inr (first_ge (conj_docs docs c) target, c')) \<and>
    conj_inv I docs invar c' \<and> conj_docs docs c' = conj_docs docs c \<and>
    conj_doc_id I c' = first_ge (conj_docs docs c) target"
  using approximation.conj_advance_moves [OF assms] by (auto simp: moves_def)

text \<open>Three sorted arrays with the documents 2 and 5 in common.\<close>

definition example_arrays :: "int_array list" where
  "example_arrays =
     [int_array_new [1, 2, 3, 4, 5, NO_MORE_DOCS] 5, int_array_new [2, 5, NO_MORE_DOCS] 2,
      int_array_new [2, 3, 4, 5, NO_MORE_DOCS] 4]"

lemma example_arrays_inv: "x \<in> set example_arrays \<Longrightarrow> int_array_inv x \<and> doc_id int_array_iter x = - 1"
  by (auto simp: example_arrays_def int_array_inv_def int_array_docs_def int_array_new_def int_array_iter_def)

lemma example_inter: "(\<Inter>x\<in>set example_arrays. int_array_docs x) = {2, 5}"
  by (auto simp: example_arrays_def int_array_docs_def int_array_new_def)

lemma example_union: "(\<Union>x\<in>set example_arrays. int_array_docs x) = {1..5}"
  by (auto simp: example_arrays_def int_array_docs_def int_array_new_def)

theorem conjunction_advance_witness:
  "\<exists>c c'. conj_new int_array_iter example_arrays = Inr c \<and>
     conj_approximate_advance int_array_iter 3 c = Some (Inr (5, c'))"
proof -
  obtain c where c: "conj_new int_array_iter example_arrays = Inr c" "conj_inv int_array_iter int_array_docs int_array_inv c"
      "conj_doc_id int_array_iter c = - 1" "conj_docs int_array_docs c = {2, 5}"
    using int_array_approx.conj_new_inv [of example_arrays] example_arrays_inv
    unfolding example_inter by (auto simp: example_arrays_def)
  have "first_ge {2, 5} 3 = 5" by (rule first_ge_eqI) auto
  then show ?thesis
    using conjunction_advance [OF int_array_approx.approximation_axioms c(2), of 3] c by auto
qed

text \<open>
  C14: stepping a disjunction returns the next document that any sub-scorer contains, whatever
  the sub-scorers' positions relative to each other.
\<close>

theorem disjunction_next:
  fixes c :: "'s disjunction"
  assumes "approximation I docs invar" "disj_inv I docs invar c" "curr_doc c < NO_MORE_DOCS"
  shows "\<exists>c'. disj_approximate_next I c = Inr (first_ge (disj_docs docs c) (curr_doc c + 1), c') \<and>
    disj_inv I docs invar c' \<and> disj_docs docs c' = disj_docs docs c \<and>
    curr_doc c' = first_ge (disj_docs docs c) (curr_doc c + 1)"
  using approximation.disj_next_moves [OF assms] by (auto simp: moves_def)

theorem disjunction_next_witness:
  "\<exists>c c'. disj_new int_array_iter example_arrays False = Inr c \<and>
     disj_approximate_next int_array_iter c = Inr (1, c')"
proof -
  obtain c where c: "disj_new int_array_iter example_arrays False = Inr c" "disj_inv int_array_iter int_array_docs int_array_inv c"
      "curr_doc c = - 1" "disj_docs int_array_docs c = {1..5}"
    using int_array_approx.disj_new_inv [of example_arrays False] example_arrays_inv
    unfolding example_union by (auto simp: example_arrays_def)
  have "first_ge {1..5} 0 = 1" by (rule first_ge_eqI) auto
  then show ?thesis
    using disjunction_next [OF int_array_approx.approximation_axioms c(2)] c by auto
qed

text \<open>
  C26: an iterator seen as bits answers every non-decreasing sequence of in-range indices
  with membership in the iterator's documents.
\<close>

theorem as_bits_in_order:
  assumes "exact_cursor I docs invar" "invar s" "doc_id I s = - 1" "max_doc \<le> NO_MORE_DOCS"
    and "sorted is" "list_all (\<lambda>i. int i < max_doc) is"
  shows "\<exists>b. as_bits_gets I is (as_bits_new max_doc s) = Inr (map (\<lambda>i. int i \<in> docs s) is, b)"
proof -
  have "- 1 \<notin> docs s"
    using doc_cursor.docs_range [OF exact_cursor.axioms [OF assms(1)] assms(2)] by auto
  then have "as_bits_inv I docs invar (as_bits_new max_doc s)"
    using assms by (simp add: as_bits_inv_def as_bits_new_def)
  from exact_cursor.as_bits_gets_ok [OF assms(1) this assms(5)] assms(6)
  show ?thesis by (auto simp: as_bits_new_def list_all_iff)
qed

theorem as_bits_in_order_witness:
  "\<exists>b. as_bits_gets int_array_iter [1, 2, 2, 4] (as_bits_new 5 (int_array_new [2, 3, NO_MORE_DOCS] 2)) =
     Inr ([False, True, True, False], b)"
proof -
  let ?s = "int_array_new [2, 3, NO_MORE_DOCS] 2"
  have "int_array_inv ?s" "doc_id int_array_iter ?s = - 1" "int_array_docs ?s = {2, 3}"
    by (auto simp: int_array_inv_def int_array_docs_def int_array_new_def int_array_iter_def)
  with as_bits_in_order [OF int_array_exact.exact_cursor_axioms, of ?s 5 "[1, 2, 2, 4]"] show ?thesis by simp
qed

text \<open>Children that reject in the second phase every document they propose.\<close>

definition rejecting_iter :: "int_array doc_iterator" where
  "rejecting_iter = int_array_iter\<lparr>matches := \<lambda>s. Inr (False, s), support_two_phase := \<lambda>s. True\<rparr>"

lemma rejecting_approximation: "approximation rejecting_iter int_array_docs int_array_inv"
  using int_array_approx.approximation_axioms by (simp add: approximation_def rejecting_iter_def)


end
