(* ===== verification/Bulk_Scorer.thy ===== *)
theory Bulk_Scorer
  imports Scorers
begin

text \<open>
  The loops that drive a scorer over the documents of a segment (\<^verbatim>\<open>search/scorer/bulk_scorer.rs\<close>),
  the collectors that limit and chain collection (\<^verbatim>\<open>search/collector\<close>), and the filtering
  scorer (\<^verbatim>\<open>search/query/filter_query.rs\<close>), whose documents are confirmed in a second phase.

  A collector is modelled by its \<open>collect\<close> method: it returns its new state, also when it ends
  the collection with an error, and the scorer it was handed.
\<close>

section \<open>BulkScorer\<close>

type_synonym ('s, 'c) collect = "int \<Rightarrow> 's \<Rightarrow> 'c \<Rightarrow> 'c \<times> (error + 's)"

partial_function (option) score_loop ::
  "('s, 'e) doc_iterator_scheme \<Rightarrow> ('s, 'c) collect \<Rightarrow> (int \<Rightarrow> bool result) \<Rightarrow> int \<Rightarrow> int \<Rightarrow> 's \<Rightarrow> 'c \<Rightarrow>
   ('c \<times> (int \<times> 's) result) option" where
  "score_loop I collect ok max_doc doc s c =
     (if doc < max_doc
      then case ok doc of
        Inl e \<Rightarrow> Some (c, Inl e)
      | Inr b \<Rightarrow>
          (case (if b then collect doc s c else (c, Inr s)) of
             (c', Inl e) \<Rightarrow> Some (c', Inl e)
           | (c', Inr s') \<Rightarrow>
               (case next_doc I s' of
                  Inl e \<Rightarrow> Some (c', Inl e)
                | Inr (doc', s'') \<Rightarrow> score_loop I collect ok max_doc doc' s'' c'))
      else Some (c, Inr (doc, s)))"

text \<open>The two-phase loop gives up when more than \<open>limit\<close> documents were visited and none was collected.\<close>

partial_function (option) score_loop_two_phase ::
  "('s, 'e) doc_iterator_scheme \<Rightarrow> ('s, 'c) collect \<Rightarrow> (int \<Rightarrow> bool result) \<Rightarrow> int \<Rightarrow> nat \<Rightarrow> nat \<Rightarrow> nat \<Rightarrow> int \<Rightarrow> 's \<Rightarrow> 'c \<Rightarrow>
   ('c \<times> (int \<times> 's) result) option" where
  "score_loop_two_phase I collect ok max_doc limit visited collected doc s c =
     (if doc < max_doc
      then case rbind (ok doc) (\<lambda>b. if b then matches I s else Inr (False, s)) of
        Inl e \<Rightarrow> Some (c, Inl e)
      | Inr (m, s1) \<Rightarrow>
          (case (if m then collect doc s1 c else (c, Inr s1)) of
             (c', Inl e) \<Rightarrow> Some (c', Inl e)
           | (c', Inr s2) \<Rightarrow>
               (case approximate_next I s2 of
                  Inl e \<Rightarrow> Some (c', Inl e)
                | Inr (doc', s3) \<Rightarrow>
                    (let collected' = (if m then collected + 1 else collected)
                     in if collected' = 0 \<and> limit < visited + 1 then Some (c', Inr (doc', s3))
                        else score_loop_two_phase I collect ok max_doc limit (visited + 1) collected' doc' s3 c')))
      else Some (c, Inr (doc, s)))"

definition score_range_in_docs_set ::
  "('s, 'e) doc_iterator_scheme \<Rightarrow> ('s, 'c) collect \<Rightarrow> (nat \<Rightarrow> bool result) \<Rightarrow> int \<Rightarrow> int \<Rightarrow> nat \<Rightarrow> 's \<Rightarrow> 'c \<Rightarrow>
   ('c \<times> (int \<times> 's) result) option" where
  "score_range_in_docs_set I collect accept_docs min_doc max_doc limit s c =
     (if support_two_phase I s
      then score_loop_two_phase I collect (\<lambda>d. accept_docs (nat d)) max_doc limit 0 0 min_doc s c
      else score_loop I collect (\<lambda>d. accept_docs (nat d)) max_doc min_doc s c)"

definition score_range_all ::
  "('s, 'e) doc_iterator_scheme \<Rightarrow> ('s, 'c) collect \<Rightarrow> int \<Rightarrow> int \<Rightarrow> nat \<Rightarrow> 's \<Rightarrow> 'c \<Rightarrow> ('c \<times> (int \<times> 's) result) option" where
  "score_range_all I collect min_doc max_doc limit s c =
     (if support_two_phase I s
      then score_loop_two_phase I collect (\<lambda>d. Inr True) max_doc limit 0 0 min_doc s c
      else score_loop I collect (\<lambda>d. Inr True) max_doc min_doc s c)"

definition score_range ::
  "('s, 'e) doc_iterator_scheme \<Rightarrow> ('s, 'c) collect \<Rightarrow> (nat \<Rightarrow> bool result) option \<Rightarrow> int \<Rightarrow> int \<Rightarrow> nat \<Rightarrow> 's \<Rightarrow> 'c \<Rightarrow>
   ('c \<times> (int \<times> 's) result) option" where
  "score_range I collect accept_docs min_doc max_doc limit s c =
     (case accept_docs of
        Some bits \<Rightarrow> score_range_in_docs_set I collect bits min_doc max_doc limit s c
      | None \<Rightarrow> score_range_all I collect min_doc max_doc limit s c)"

definition bulk_score ::
  "('s, 'e) doc_iterator_scheme \<Rightarrow> ('s, 'c) collect \<Rightarrow> (nat \<Rightarrow> bool result) option \<Rightarrow> int \<Rightarrow> int \<Rightarrow> nat \<Rightarrow> 's \<Rightarrow> 'c \<Rightarrow>
   ('c \<times> (int \<times> 's) result) option" where
  "bulk_score I collect accept_docs min_doc max_doc limit s c =
     (case (if min_doc = 0 \<and> max_doc = NO_MORE_DOCS then approximate_next I s
            else approximate_advance I min_doc s) of
        Inl e \<Rightarrow> Some (c, Inl e)
      | Inr (current_doc, s') \<Rightarrow> score_range I collect accept_docs current_doc max_doc limit s' c)"

section \<open>Collectors\<close>

record early_terminating =
  et_early_terminated :: bool
  et_to_collect :: nat
  et_collected :: nat

definition et_new :: "nat \<Rightarrow> early_terminating result" where
  "et_new n =
     (if \<not> 0 < n then Inl (Panic ''num_docs_to_collect_per_reader must always be > 0'')
      else Inr \<lparr>et_early_terminated = False, et_to_collect = n, et_collected = 0\<rparr>)"

definition et_set_next_reader :: "early_terminating \<Rightarrow> early_terminating" where
  "et_set_next_reader c = c\<lparr>et_collected := 0\<rparr>"

text \<open>\<open>leaf_collector\<close> shares the termination flag of its parent.\<close>

definition et_leaf_collector :: "early_terminating \<Rightarrow> early_terminating" where
  "et_leaf_collector c = c\<lparr>et_collected := 0\<rparr>"

definition et_collect :: "('s, early_terminating) collect" where
  "et_collect doc s c =
     (let c' = c\<lparr>et_collected := et_collected c + 1\<rparr>
      in if et_to_collect c' < et_collected c'
         then (c'\<lparr>et_early_terminated := True\<rparr>, Inl LeafCollectionTerminated)
         else (c', Inr s))"

text \<open>A chained collector hands every document to both.\<close>

definition chain_collect :: "('s, 'a) collect \<Rightarrow> ('s, 'b) collect \<Rightarrow> ('s, 'a \<times> 'b) collect" where
  "chain_collect first second doc s c =
     (case first doc s (fst c) of
        (a, Inl e) \<Rightarrow> ((a, snd c), Inl e)
      | (a, Inr s') \<Rightarrow> (case second doc s' (snd c) of (b, r) \<Rightarrow> ((a, b), r)))"

section \<open>What is collected\<close>

definition pending :: "int set \<Rightarrow> int \<Rightarrow> int \<Rightarrow> int list" where
  "pending D lo hi = sorted_list_of_set {d \<in> D. lo \<le> d \<and> d < hi}"

fun collect_docs :: "(int \<Rightarrow> 'c \<Rightarrow> 'c \<times> error option) \<Rightarrow> int list \<Rightarrow> 'c \<Rightarrow> 'c \<times> error option" where
  "collect_docs step [] c = (c, None)"
| "collect_docs step (d # ds) c =
     (case step d c of (c', Some e) \<Rightarrow> (c', Some e) | (c', None) \<Rightarrow> collect_docs step ds c')"

lemma pending_Nil: "hi \<le> lo \<Longrightarrow> pending D lo hi = []"
proof -
  assume "hi \<le> lo"
  then have "{d \<in> D. lo \<le> d \<and> d < hi} = {}" by auto
  then show ?thesis by (simp add: pending_def)
qed

lemma pending_Cons:
  assumes "doc_set D" "d \<in> D" "d < hi"
  shows "pending D d hi = d # pending D (first_ge D (d + 1)) hi"
proof -
  let ?A = "{x \<in> D. first_ge D (d + 1) \<le> x \<and> x < hi}"
  have lt: "d < NO_MORE_DOCS" using assms by auto
  have nxt: "first_ge D (d + 1) \<le> x \<longleftrightarrow> d < x" if "x \<in> D" for x
    using first_ge_le [OF assms(1) that, of "d + 1"] first_ge_ge [OF assms(1), of "d + 1"] lt by auto
  have eq: "{x \<in> D. d \<le> x \<and> x < hi} = insert d ?A" using nxt assms(2,3) by auto
  have "finite ?A" using doc_set_finite [OF assms(1)] by simp
  moreover have less: "d < x" if "x \<in> ?A" for x using nxt that by auto
  then have "d \<notin> ?A" by blast
  ultimately have "sorted_list_of_set (insert d ?A) = insort d (sorted_list_of_set ?A)" by simp
  also have "\<dots> = d # sorted_list_of_set ?A"
    using less \<open>finite ?A\<close> by (intro insort_is_Cons) (force simp del: mem_Collect_eq)
  finally have "sorted_list_of_set (insert d ?A) = d # sorted_list_of_set ?A" .
  then show ?thesis by (simp add: pending_def eq)
qed

lemma first_ge_max:
  assumes "doc_set D" "t \<le> u" "t \<le> NO_MORE_DOCS"
  shows "first_ge D (max (first_ge D t) u) = first_ge D u"
proof (cases "first_ge D t \<le> u")
  case False
  then show ?thesis
    using first_ge_skip [OF assms(1) order_refl assms(3)] first_ge_between [OF assms(1,2)] by (simp add: max_def)
qed (simp add: max_absorb2)

text \<open>
  The contract of a collector: on a document of the scorer it acts as \<open>step\<close>, and it leaves
  the position of the scorer alone.
\<close>

locale collecting =
  doc_cursor "doc_id I" move adv docs invar
  for I :: "('s, 'e) doc_iterator_scheme" and move adv docs invar +
  fixes collect :: "('s, 'c) collect"
    and step :: "int \<Rightarrow> 'c \<Rightarrow> 'c \<times> error option"
    and hits :: "'s \<Rightarrow> int set"
  assumes collect_stop: "invar s \<Longrightarrow> doc_id I s \<in> docs s \<Longrightarrow> step (doc_id I s) c = (c', Some e) \<Longrightarrow>
      collect (doc_id I s) s c = (c', Inl e)"
    and collect_go: "invar s \<Longrightarrow> doc_id I s \<in> docs s \<Longrightarrow> step (doc_id I s) c = (c', None) \<Longrightarrow>
      \<exists>s'. collect (doc_id I s) s c = (c', Inr s') \<and> invar s' \<and> docs s' = docs s \<and> hits s' = hits s \<and>
        doc_id I s' = doc_id I s"

text \<open>The result of a loop that stops at \<open>stop\<close>, or at the first error of the collector.\<close>

definition collected ::
  "(int \<Rightarrow> 'c \<Rightarrow> 'c \<times> error option) \<Rightarrow> int list \<Rightarrow> 'c \<Rightarrow> int \<Rightarrow> ('c \<times> (int \<times> 's) result) option \<Rightarrow> bool" where
  "collected step ds c stop r \<longleftrightarrow>
     (case collect_docs step ds c of
        (c', Some e) \<Rightarrow> r = Some (c', Inl e)
      | (c', None) \<Rightarrow> (\<exists>s'. r = Some (c', Inr (stop, s'))))"

lemma collected_Nil: "collected step [] c stop (Some (c, Inr (stop, s)))"
  by (simp add: collected_def)

lemma collected_Cons: "step d c = (c', None) \<Longrightarrow> collected step (d # ds) c stop r \<longleftrightarrow> collected step ds c' stop r"
  by (simp add: collected_def)

lemma collected_stop: "step d c = (c', Some e) \<Longrightarrow> collected step (d # ds) c stop (Some (c', Inl e))"
  by (simp add: collected_def)

locale one_phase_collecting =
  collecting I "next_doc I" "advance I" docs invar collect step "\<lambda>s. {}"
  for I :: "('s, 'e) doc_iterator_scheme" and docs invar collect step
begin

lemma score_loop_collects:
  assumes "invar s" "doc_id I s \<noteq> - 1" "\<And>d. d \<in> docs s \<Longrightarrow> ok d = Inr (live d)" "max_doc \<le> NO_MORE_DOCS"
  shows "collected step (filter live (pending (docs s) (doc_id I s) max_doc)) c
    (first_ge (docs s) (max (doc_id I s) max_doc)) (score_loop I collect ok max_doc (doc_id I s) s c)"
  using assms
proof (induction "nat (NO_MORE_DOCS - doc_id I s)" arbitrary: s c rule: less_induct)
  case less
  note D = docs_range [OF less.prems(1)]
  show ?case
  proof (cases "doc_id I s < max_doc")
    case False
    then show ?thesis
      using first_ge_doc [OF less.prems(1,2)]
      by (subst score_loop.simps) (simp add: pending_Nil collected_Nil max_absorb1)
  next
    case True
    then have mem: "doc_id I s \<in> docs s" using doc_cases [OF less.prems(1)] less.prems by auto
    let ?d = "first_ge (docs s) (doc_id I s + 1)"
    have lt: "doc_id I s < NO_MORE_DOCS" using D mem by auto
    have ge: "doc_id I s < ?d" using first_ge_ge [OF D, of "doc_id I s + 1"] lt by simp
    have cont: "collected step (filter live (pending (docs s) ?d max_doc)) c' (first_ge (docs s) max_doc)
        (case next_doc I s' of Inl e \<Rightarrow> Some (c', Inl e)
         | Inr (doc', s'') \<Rightarrow> score_loop I collect ok max_doc doc' s'' c')"
      if s': "invar s'" "docs s' = docs s" "doc_id I s' = doc_id I s" for s' c'
    proof -
      obtain s'' where s'': "next_doc I s' = Inr (?d, s'')" "invar s''" "docs s'' = docs s" "doc_id I s'' = ?d"
        using next_moves [OF s'(1)] s' lt by (auto elim: movesE)
      have "first_ge (docs s) (max ?d max_doc) = first_ge (docs s) max_doc"
        using True lt by (intro first_ge_max [OF D]) auto
      then show ?thesis
        using less.hyps [of s'' c'] s'' s' ge lt less.prems doc_bounds [OF less.prems(1)] by auto
    qed
    have stop: "max (doc_id I s) max_doc = max_doc" using True by simp
    show ?thesis
    proof (cases "live (doc_id I s)")
      case False
      then show ?thesis
        using True mem cont [of s c] less.prems
        by (subst score_loop.simps) (simp add: pending_Cons [OF D mem True] stop)
    next
      case live: True
      obtain c' r where r: "step (doc_id I s) c = (c', r)" by force
      show ?thesis
      proof (cases r)
        case None
        then obtain s' where "collect (doc_id I s) s c = (c', Inr s')" "invar s'" "docs s' = docs s" "doc_id I s' = doc_id I s"
          using collect_go [OF less.prems(1) mem] r by blast
        with True live mem cont [of s' c'] less.prems None r show ?thesis
          by (subst score_loop.simps) (simp add: pending_Cons [OF D mem True] stop collected_Cons)
      next
        case (Some e)
        then have "collect (doc_id I s) s c = (c', Inl e)" using collect_stop [OF less.prems(1) mem] r by simp
        with True live mem less.prems Some r show ?thesis
          by (subst score_loop.simps) (simp add: pending_Cons [OF D mem True] stop collected_stop)
      qed
    qed
  qed
qed

end

locale two_phase_collecting =
  two_phase I docs invar hits +
  collecting I "approximate_next I" "approximate_advance I" docs invar collect step hits
  for I :: "('s, 'e) doc_iterator_scheme" and docs invar hits collect step
begin

text \<open>Where the two-phase loop may stop: at the end of the range, or after a fruitless stretch.\<close>

definition two_phase_stop :: "(int \<Rightarrow> bool) \<Rightarrow> 's \<Rightarrow> int \<Rightarrow> nat \<Rightarrow> nat \<Rightarrow> nat \<Rightarrow> int \<Rightarrow> bool" where
  "two_phase_stop live s max_doc limit n k stop \<longleftrightarrow>
     doc_id I s \<le> stop \<and>
     (max_doc \<le> stop \<or>
      filter (\<lambda>d. live d \<and> d \<in> hits s) (pending (docs s) (doc_id I s) stop) = [] \<and> k = 0 \<and>
      limit < n + length (pending (docs s) (doc_id I s) stop))"

lemma confirm:
  assumes "invar s" "doc_id I s \<in> docs s" "ok (doc_id I s) = Inr (live (doc_id I s))"
  shows "\<exists>s'. rbind (ok (doc_id I s)) (\<lambda>b. if b then matches I s else Inr (False, s)) =
      Inr (live (doc_id I s) \<and> doc_id I s \<in> hits s, s') \<and>
    invar s' \<and> docs s' = docs s \<and> hits s' = hits s \<and> doc_id I s' = doc_id I s"
  using matches_ok [OF assms(1,2)] assms by (cases "live (doc_id I s)") auto

text \<open>
  What is left of an iteration: the rest \<open>r\<close> of the run, from the document \<open>d\<close> on, collects the
  confirmed documents up to a place where the loop may stop.
\<close>

definition two_phase_rest ::
  "(int \<Rightarrow> bool) \<Rightarrow> 's \<Rightarrow> int \<Rightarrow> nat \<Rightarrow> nat \<Rightarrow> nat \<Rightarrow> int \<Rightarrow> 'a \<Rightarrow> ('a \<times> (int \<times> 's) result) option \<Rightarrow> int \<Rightarrow> bool" where
  "two_phase_rest live s max_doc limit n k d c r stop \<longleftrightarrow>
     collected step (filter (\<lambda>d. live d \<and> d \<in> hits s) (pending (docs s) d stop)) c stop r \<and>
     two_phase_stop live s max_doc limit n k stop"

lemma two_phase_continue:
  fixes s :: 's and k :: nat and live :: "int \<Rightarrow> bool"
  defines "d \<equiv> first_ge (docs s) (doc_id I s + 1)" and "k' \<equiv> (if live (doc_id I s) \<and> doc_id I s \<in> hits s then k + 1 else k)"
  assumes s: "invar s" "doc_id I s \<in> docs s" and s2: "invar s2" "docs s2 = docs s" "hits s2 = hits s" "doc_id I s2 = doc_id I s"
    and rest: "\<And>s3. invar s3 \<Longrightarrow> docs s3 = docs s \<Longrightarrow> hits s3 = hits s \<Longrightarrow> doc_id I s3 = d \<Longrightarrow>
      \<exists>stop. two_phase_rest live s3 max_doc limit (n + 1) k' d c (score_loop_two_phase I collect ok max_doc limit (n + 1) k' d s3 c) stop"
  shows "\<exists>stop. doc_id I s < stop \<and> two_phase_rest live s max_doc limit n k d c
    (case approximate_next I s2 of Inl e \<Rightarrow> Some (c, Inl e)
     | Inr (doc', s3) \<Rightarrow>
         if k' = 0 \<and> limit < n + 1 then Some (c, Inr (doc', s3))
         else score_loop_two_phase I collect ok max_doc limit (n + 1) k' doc' s3 c) stop"
proof -
  note D = docs_range [OF s(1)]
  have lt: "doc_id I s < NO_MORE_DOCS" using D s(2) by auto
  have ge: "doc_id I s < d" using first_ge_ge [OF D, of "doc_id I s + 1"] lt by (simp add: d_def)
  obtain s3 where s3: "approximate_next I s2 = Inr (d, s3)" "invar s3" "docs s3 = docs s" "doc_id I s3 = d"
    using next_moves [OF s2(1)] s2 lt by (auto elim: movesE simp: d_def)
  have h3: "hits s3 = hits s" using hits_next [OF s2(1) s3(1)] s2 by simp
  show ?thesis
  proof (cases "k' = 0 \<and> limit < n + 1")
    case True
    then show ?thesis
      using s3 ge pending_Cons [OF D s(2) ge]
      by (auto simp: two_phase_rest_def two_phase_stop_def pending_Nil collected_Nil k'_def d_def split: if_splits intro!: exI [of _ d])
  next
    case False
    obtain stop where stop: "two_phase_rest live s3 max_doc limit (n + 1) k' d c
        (score_loop_two_phase I collect ok max_doc limit (n + 1) k' d s3 c) stop"
      using rest [OF s3(2,3) h3 s3(4)] by blast
    have "doc_id I s < stop" using stop s3 ge by (simp add: two_phase_rest_def two_phase_stop_def)
    moreover have "two_phase_stop live s max_doc limit n k stop"
      using stop s3 h3 \<open>doc_id I s < stop\<close> pending_Cons [OF D s(2) \<open>doc_id I s < stop\<close>]
      by (auto simp: two_phase_rest_def two_phase_stop_def k'_def d_def split: if_splits)
    ultimately show ?thesis using stop s3 h3 False by (auto simp: two_phase_rest_def)
  qed
qed

lemma two_phase_step:
  fixes s :: 's and live :: "int \<Rightarrow> bool"
  defines "d \<equiv> first_ge (docs s) (doc_id I s + 1)" and "hit \<equiv> live (doc_id I s) \<and> doc_id I s \<in> hits s"
  assumes s: "invar s" "doc_id I s \<in> docs s" "doc_id I s < max_doc"
    and s1: "invar s1" "docs s1 = docs s" "hits s1 = hits s" "doc_id I s1 = doc_id I s"
    and on: "\<And>s2 c'. invar s2 \<Longrightarrow> docs s2 = docs s \<Longrightarrow> hits s2 = hits s \<Longrightarrow> doc_id I s2 = doc_id I s \<Longrightarrow>
      \<exists>stop. doc_id I s < stop \<and> two_phase_rest live s max_doc limit n k d c' (onward s2 c') stop"
  shows "\<exists>stop. two_phase_rest live s max_doc limit n k (doc_id I s) c
    (case (if hit then collect (doc_id I s) s1 c else (c, Inr s1)) of (c', Inl e) \<Rightarrow> Some (c', Inl e) | (c', Inr s2) \<Rightarrow> onward s2 c') stop"
proof -
  note cons = pending_Cons [OF docs_range [OF s(1)] s(2)]
  have mem: "doc_id I s1 \<in> docs s1" using s1 s(2) by simp
  obtain c' r where r: "step (doc_id I s) c = (c', r)" by force
  consider (miss) "\<not> hit" | (go) "hit" "r = None" | (stop) e where "hit" "r = Some e" by (cases r) auto
  then show ?thesis
  proof cases
    case miss
    from on [OF s1, of c] obtain stop where "doc_id I s < stop" "two_phase_rest live s max_doc limit n k d c (onward s1 c) stop"
      by blast
    with miss show ?thesis
      by (intro exI [of _ stop]) (auto simp: two_phase_rest_def cons d_def hit_def)
  next
    case go
    then obtain s2 where s2: "collect (doc_id I s) s1 c = (c', Inr s2)" "invar s2" "docs s2 = docs s" "hits s2 = hits s" "doc_id I s2 = doc_id I s"
      using collect_go [OF s1(1) mem, of c c'] r s1 by auto
    from on [OF s2(2-5), of c'] obtain stop where "doc_id I s < stop" "two_phase_rest live s max_doc limit n k d c' (onward s2 c') stop"
      by blast
    with go r s2(1) show ?thesis
      by (intro exI [of _ stop]) (simp add: two_phase_rest_def cons collected_Cons d_def hit_def)
  next
    case stop
    then have "collect (doc_id I s) s1 c = (c', Inl e)" using collect_stop [OF s1(1) mem] r s1 by simp
    with stop r s(3) show ?thesis
      by (intro exI [of _ max_doc]) (simp add: two_phase_rest_def cons collected_stop two_phase_stop_def hit_def)
  qed
qed

lemma score_loop_two_phase_rest:
  assumes "invar s" "doc_id I s \<noteq> - 1" "\<And>d. d \<in> docs s \<Longrightarrow> ok d = Inr (live d)" "max_doc \<le> NO_MORE_DOCS"
  shows "\<exists>stop. two_phase_rest live s max_doc limit n k (doc_id I s) c
    (score_loop_two_phase I collect ok max_doc limit n k (doc_id I s) s c) stop"
  using assms
proof (induction "nat (NO_MORE_DOCS - doc_id I s)" arbitrary: s c n k rule: less_induct)
  case less
  note D = docs_range [OF less.prems(1)]
  let ?doc = "doc_id I s" and ?P = "live (doc_id I s) \<and> doc_id I s \<in> hits s"
  show ?case
  proof (cases "?doc < max_doc")
    case False
    then show ?thesis
      by (subst score_loop_two_phase.simps)
        (auto simp: pending_Nil collected_Nil two_phase_rest_def two_phase_stop_def intro!: exI [of _ ?doc])
  next
    case True
    then have mem: "?doc \<in> docs s" using doc_cases [OF less.prems(1)] less.prems by auto
    let ?d = "first_ge (docs s) (?doc + 1)" and ?k = "if ?P then k + 1 else k"
    have lt: "?doc < NO_MORE_DOCS" using D mem by auto
    have ge: "?doc < ?d" using first_ge_ge [OF D, of "?doc + 1"] lt by simp
    have IH: "\<exists>stop. two_phase_rest live s3 max_doc limit (n + 1) ?k ?d c' (score_loop_two_phase I collect ok max_doc limit (n + 1) ?k ?d s3 c') stop"
      if "invar s3" "docs s3 = docs s" "hits s3 = hits s" "doc_id I s3 = ?d" for s3 c'
      using less.hyps [of s3 "n + 1" ?k c'] that ge lt less.prems doc_bounds [OF less.prems(1)] by auto
    obtain s1 where s1: "rbind (ok ?doc) (\<lambda>b. if b then matches I s else Inr (False, s)) = Inr (?P, s1)"
        "invar s1" "docs s1 = docs s" "hits s1 = hits s" "doc_id I s1 = ?doc"
      using confirm [OF less.prems(1) mem, of ok live] less.prems(3) [OF mem] by blast
    have unfolded: "score_loop_two_phase I collect ok max_doc limit n k ?doc s c =
        (case (if ?P then collect ?doc s1 c else (c, Inr s1)) of
           (c', Inl e) \<Rightarrow> Some (c', Inl e)
         | (c', Inr s2) \<Rightarrow>
             (case approximate_next I s2 of Inl e \<Rightarrow> Some (c', Inl e)
              | Inr (doc', s3) \<Rightarrow>
                  if ?k = 0 \<and> limit < n + 1 then Some (c', Inr (doc', s3))
                  else score_loop_two_phase I collect ok max_doc limit (n + 1) ?k doc' s3 c'))"
      using True by (subst score_loop_two_phase.simps, simp only: s1(1) if_True sum.case prod.case Let_def)
    show ?thesis
      unfolding unfolded
      by (rule two_phase_step [OF less.prems(1) mem True s1(2-5)])
        (rule two_phase_continue [OF less.prems(1) mem _ _ _ _ IH])
  qed
qed

lemma score_loop_two_phase_collects:
  assumes "invar s" "doc_id I s \<noteq> - 1" "\<And>d. d \<in> docs s \<Longrightarrow> ok d = Inr (live d)" "max_doc \<le> NO_MORE_DOCS"
  shows "\<exists>stop. collected step (filter (\<lambda>d. live d \<and> d \<in> hits s) (pending (docs s) (doc_id I s) stop)) c stop
      (score_loop_two_phase I collect ok max_doc limit n k (doc_id I s) s c) \<and>
    two_phase_stop live s max_doc limit n k stop"
  using score_loop_two_phase_rest [OF assms] by (simp add: two_phase_rest_def)

end

section \<open>FilterScorer\<close>

text \<open>
  \<open>filt\<close> is the \<open>matches\<close> method of the filter functions, which users of the library supply.
\<close>

record ('s, 'f) filter_scorer =
  fs_scorer :: 's
  fs_filters :: "'f list"

fun run_filters :: "(int \<Rightarrow> 'f \<Rightarrow> (bool \<times> 'f) result) \<Rightarrow> int \<Rightarrow> 'f list \<Rightarrow> (bool \<times> 'f list) result" where
  "run_filters filt doc [] = Inr (True, [])"
| "run_filters filt doc (f # fs) =
     rbind (filt doc f) (\<lambda>(m, f').
       if \<not> m then Inr (False, f' # fs)
       else rbind (run_filters filt doc fs) (\<lambda>(r, fs'). Inr (r, f' # fs')))"

definition filter_matches ::
  "(int \<Rightarrow> 'f \<Rightarrow> (bool \<times> 'f) result) \<Rightarrow> ('s, 'e) doc_iterator_scheme \<Rightarrow> ('s, 'f) filter_scorer \<Rightarrow> (bool \<times> ('s, 'f) filter_scorer) result" where
  "filter_matches filt I c =
     rbind (run_filters filt (doc_id I (fs_scorer c)) (fs_filters c)) (\<lambda>(m, fs).
       if \<not> m then Inr (False, c\<lparr>fs_filters := fs\<rparr>)
       else rbind (matches I (fs_scorer c)) (\<lambda>(r, s). Inr (r, c\<lparr>fs_scorer := s, fs_filters := fs\<rparr>)))"

definition fs_lift :: "('s \<Rightarrow> (int \<times> 's) result) \<Rightarrow> ('s, 'f) filter_scorer \<Rightarrow> (int \<times> ('s, 'f) filter_scorer) result" where
  "fs_lift f c = rbind (f (fs_scorer c)) (\<lambda>(d, s). Inr (d, c\<lparr>fs_scorer := s\<rparr>))"

text \<open>The methods that \<open>two_phase_next\<close> calls on the scorer, and then \<open>next\<close> and \<open>advance\<close> through it.\<close>

definition filter_phases ::
  "(int \<Rightarrow> 'f \<Rightarrow> (bool \<times> 'f) result) \<Rightarrow> ('s, 'e) doc_iterator_scheme \<Rightarrow> ('s, 'f) filter_scorer doc_iterator" where
  "filter_phases filt I =
     \<lparr>doc_id = (\<lambda>c. doc_id I (fs_scorer c)), next_doc = fs_lift (approximate_next I),
      advance = (\<lambda>t. fs_lift (approximate_advance I t)), cost = (\<lambda>c. cost I (fs_scorer c)),
      matches = filter_matches filt I, support_two_phase = (\<lambda>c. True),
      approximate_next = fs_lift (approximate_next I),
      approximate_advance = (\<lambda>t. fs_lift (approximate_advance I t))\<rparr>"

definition filter_iter ::
  "(int \<Rightarrow> 'f \<Rightarrow> (bool \<times> 'f) result) \<Rightarrow> ('s, 'e) doc_iterator_scheme \<Rightarrow> ('s, 'f) filter_scorer doc_iterator" where
  "filter_iter filt I =
     (filter_phases filt I)
       \<lparr>next_doc := (\<lambda>c. rbind (fs_lift (approximate_next I) c)
          (\<lambda>(d, c'). returned (two_phase_next (filter_phases filt I) c'))),
        advance := (\<lambda>t c. rbind (fs_lift (approximate_advance I t) c)
          (\<lambda>(d, c'). returned (two_phase_next (filter_phases filt I) c')))\<rparr>"

definition filter_hits :: "('f \<Rightarrow> int \<Rightarrow> bool) \<Rightarrow> ('s \<Rightarrow> int set) \<Rightarrow> ('s, 'f) filter_scorer \<Rightarrow> int set" where
  "filter_hits accepts hits c = {d \<in> hits (fs_scorer c). list_all (\<lambda>f. accepts f d) (fs_filters c)}"

lemma run_filters_ok:
  assumes "\<And>d f. \<exists>f'. filt d f = Inr (accepts f d, f') \<and> accepts f' = accepts f"
  shows "\<exists>fs'. run_filters filt d fs = Inr (list_all (\<lambda>f. accepts f d) fs, fs') \<and> map accepts fs' = map accepts fs"
proof (induction fs)
  case (Cons f fs)
  with assms [of d f] show ?case by auto
qed simp

lemma fs_lift_moves:
  assumes "moves doc docs invar (fs_scorer c) (f (fs_scorer c)) d"
  shows "moves (\<lambda>c. doc (fs_scorer c)) (\<lambda>c. docs (fs_scorer c)) (\<lambda>c. invar (fs_scorer c)) c (fs_lift f c) d"
  using assms by (auto simp: moves_def fs_lift_def)

lemma filter_hits_cong:
  assumes "map accepts fs' = map accepts fs"
  shows "list_all (\<lambda>f. accepts f d) fs' = list_all (\<lambda>f. accepts f d) fs"
proof -
  have "list_all (\<lambda>f. accepts f d) xs = list_all (\<lambda>p. p d) (map accepts xs)" for xs
    by (simp add: list.pred_map comp_def)
  with assms show ?thesis by simp
qed

context two_phase
begin

lemma filter_matches_ok:
  assumes "\<And>d f. \<exists>f'. filt d f = Inr (accepts f d, f') \<and> accepts f' = accepts f"
    and "invar (fs_scorer c)" "doc_id I (fs_scorer c) \<in> docs (fs_scorer c)"
  shows "\<exists>c'. filter_matches filt I c = Inr (doc_id I (fs_scorer c) \<in> filter_hits accepts hits c, c') \<and>
    invar (fs_scorer c') \<and> docs (fs_scorer c') = docs (fs_scorer c) \<and>
    filter_hits accepts hits c' = filter_hits accepts hits c \<and> doc_id I (fs_scorer c') = doc_id I (fs_scorer c)"
proof -
  let ?d = "doc_id I (fs_scorer c)"
  obtain fs' where fs': "run_filters filt ?d (fs_filters c) = Inr (list_all (\<lambda>f. accepts f ?d) (fs_filters c), fs')"
      "map accepts fs' = map accepts (fs_filters c)"
    using run_filters_ok [OF assms(1)] by blast
  obtain s' where s': "matches I (fs_scorer c) = Inr (?d \<in> hits (fs_scorer c), s')" "invar s'" "docs s' = docs (fs_scorer c)"
      "hits s' = hits (fs_scorer c)" "doc_id I s' = ?d"
    using matches_ok assms(2,3) by blast
  show ?thesis
    using fs' s' assms(2) filter_hits_cong [OF fs'(2)]
    by (cases "list_all (\<lambda>f. accepts f ?d) (fs_filters c)") (auto simp: filter_matches_def filter_hits_def)
qed

lemma filter_two_phase:
  assumes "\<And>d f. \<exists>f'. filt d f = Inr (accepts f d, f') \<and> accepts f' = accepts f"
  shows "two_phase (filter_phases filt I) (\<lambda>c. docs (fs_scorer c)) (\<lambda>c. invar (fs_scorer c)) (filter_hits accepts hits)"
proof
  show "filter_hits accepts hits c' = filter_hits accepts hits c"
    if "invar (fs_scorer c)" "approximate_next (filter_phases filt I) c = Inr (d, c')" for c c' d
    using that hits_next [of "fs_scorer c"] by (auto simp: filter_phases_def fs_lift_def filter_hits_def rbind_eq_Inr)
  show "filter_hits accepts hits c \<subseteq> docs (fs_scorer c)" if "invar (fs_scorer c)" for c
    using hits_docs [OF that] by (auto simp: filter_hits_def)
qed (auto simp: filter_phases_def docs_range doc_cases next_moves adv_moves
    intro!: fs_lift_moves filter_matches_ok [OF assms])

end

section \<open>Instances\<close>

interpretation int_array_two_phase: two_phase int_array_iter int_array_docs int_array_inv int_array_docs
proof
  show "int_array_docs s' = int_array_docs s" if "int_array_inv s" "approximate_next int_array_iter s = Inr (d, s')" for s s' d
    using that by (auto simp: int_array_iter_def int_array_next_def int_array_move_def Let_def int_array_docs_def split: if_splits)
qed (auto simp: int_array_iter_def default_matches_def)

text \<open>A filter that is a pure predicate on documents.\<close>

definition pred_filter :: "int \<Rightarrow> (int \<Rightarrow> bool) \<Rightarrow> (bool \<times> (int \<Rightarrow> bool)) result" where
  "pred_filter d f = Inr (f d, f)"

lemma pred_filter_ok: "\<exists>f'. pred_filter d f = Inr (f d, f') \<and> f' = f"
  by (simp add: pred_filter_def)

interpretation filtered_array: two_phase "filter_phases pred_filter int_array_iter"
  "\<lambda>c. int_array_docs (fs_scorer c)" "\<lambda>c. int_array_inv (fs_scorer c)" "filter_hits (\<lambda>f. f) int_array_docs"
  by (rule int_array_two_phase.filter_two_phase) (rule pred_filter_ok)

definition et_step :: "int \<Rightarrow> early_terminating \<Rightarrow> early_terminating \<times> error option" where
  "et_step d c = (case et_collect d () c of (c', Inl e) \<Rightarrow> (c', Some e) | (c', Inr _) \<Rightarrow> (c', None))"

lemma et_collect_step:
  "et_step d c = (c', Some e) \<Longrightarrow> et_collect d s c = (c', Inl e)"
  "et_step d c = (c', None) \<Longrightarrow> et_collect d s c = (c', Inr s)"
  by (auto simp: et_step_def et_collect_def Let_def split: if_splits)

context doc_cursor
begin

lemma et_collecting: "doc = doc_id I \<Longrightarrow> collecting I nxt adv docs invar et_collect et_step hits"
  using doc_cursor_axioms by (simp add: collecting_def collecting_axioms_def et_collect_step)

end

interpretation et_conj: one_phase_collecting "conj_iter int_array_iter" "conj_docs int_array_docs"
  "conj_inv int_array_iter int_array_docs int_array_inv" et_collect et_step
  unfolding one_phase_collecting_def by (rule conj_int_array.et_collecting) simp

interpretation et_filtered: two_phase_collecting "filter_phases pred_filter int_array_iter"
  "\<lambda>c. int_array_docs (fs_scorer c)" "\<lambda>c. int_array_inv (fs_scorer c)" "filter_hits (\<lambda>f. f) int_array_docs"
  et_collect et_step
  unfolding two_phase_collecting_def
  using filtered_array.et_collecting filtered_array.two_phase_axioms by blast

text \<open>The early terminating collector accepts the first documents up to its quota, then ends the segment.\<close>

lemma et_collect_docs:
  assumes "et_collected c \<le> et_to_collect c"
  shows "collect_docs et_step ds c =
    (if et_collected c + length ds \<le> et_to_collect c
     then (c\<lparr>et_collected := et_collected c + length ds\<rparr>, None)
     else (c\<lparr>et_collected := et_to_collect c + 1, et_early_terminated := True\<rparr>, Some LeafCollectionTerminated))"
  using assms
proof (induction ds arbitrary: c)
  case (Cons d ds)
  show ?case
  proof (cases "et_collected c < et_to_collect c")
    case True
    then have "et_step d c = (c\<lparr>et_collected := et_collected c + 1\<rparr>, None)"
      by (simp add: et_step_def et_collect_def Let_def)
    with True Cons.IH [of "c\<lparr>et_collected := et_collected c + 1\<rparr>"] show ?thesis by simp
  next
    case False
    then show ?thesis using Cons.prems by (simp add: et_step_def et_collect_def Let_def)
  qed
qed simp

section \<open>Properties\<close>

lemma pending_first_ge:
  assumes "doc_set D" "lo \<le> NO_MORE_DOCS"
  shows "pending D (first_ge D lo) hi = pending D lo hi"
proof -
  have "first_ge D lo \<le> x \<longleftrightarrow> lo \<le> x" if "x \<in> D" for x
    using first_ge_le [OF assms(1) that, of lo] first_ge_ge [OF assms] by auto
  then have "{d \<in> D. first_ge D lo \<le> d \<and> d < hi} = {d \<in> D. lo \<le> d \<and> d < hi}" by blast
  then show ?thesis by (simp add: pending_def)
qed

lemma bulk_start:
  assumes "approximation I docs invar" "invar s" "doc_id I s < lo" "0 \<le> lo" "lo \<le> NO_MORE_DOCS" "lo = 0 \<longrightarrow> doc_id I s = - 1"
  shows "moves (doc_id I) docs invar s
    (if lo = 0 \<and> hi = NO_MORE_DOCS then approximate_next I s else approximate_advance I lo s) (first_ge (docs s) lo)"
  using doc_cursor.next_moves [OF approximation.axioms [OF assms(1)] assms(2)]
    doc_cursor.adv_moves [OF approximation.axioms [OF assms(1)] assms(2,3,5)] assms
  by auto

text \<open>
  C27: bulk scoring with a one-phase scorer hands the collector exactly the live documents of
  the scorer in \<open>[lo, hi)\<close>, each once and in increasing order, up to the collector's first error,
  and otherwise returns the scorer's first document from \<open>hi\<close> on.
\<close>

theorem bulk_score_collects:
  assumes "one_phase_collecting I docs invar collect step" "approximation I docs invar"
    and "invar s" "doc_id I s = - 1" "0 \<le> lo" "lo \<le> hi" "hi \<le> NO_MORE_DOCS"
    and "\<And>s. \<not> support_two_phase I s" "\<And>d. d \<in> docs s \<Longrightarrow> live_docs (nat d) = Inr (live d)"
  shows "collected step (filter live (pending (docs s) lo hi)) c (first_ge (docs s) hi)
    (bulk_score I collect (Some live_docs) lo hi limit s c)"
proof -
  let ?d = "first_ge (docs s) lo"
  obtain s' where s': "(if lo = 0 \<and> hi = NO_MORE_DOCS then approximate_next I s else approximate_advance I lo s) = Inr (?d, s')"
      "invar s'" "docs s' = docs s" "doc_id I s' = ?d"
    using bulk_start [OF assms(2,3), of lo hi] assms(4-7) by (auto elim!: movesE)
  note D = doc_cursor.docs_range [OF approximation.axioms [OF assms(2)] assms(3)]
  have "lo \<le> ?d" using first_ge_ge [OF D] assms by simp
  then have "collected step (filter live (pending (docs s) ?d hi)) c (first_ge (docs s) (max ?d hi))
      (score_loop I collect (\<lambda>d. live_docs (nat d)) hi ?d s' c)"
    using one_phase_collecting.score_loop_collects [OF assms(1) s'(2), of "\<lambda>d. live_docs (nat d)" live hi c] s' assms
    by simp
  then show ?thesis
    using s'(1) assms(5-8) pending_first_ge [OF D, of lo] first_ge_max [OF D, of lo hi]
    by (simp add: bulk_score_def score_range_def score_range_in_docs_set_def)
qed

lemma conj_array_approximation:
  "approximation (conj_iter int_array_iter) (conj_docs int_array_docs) (conj_inv int_array_iter int_array_docs int_array_inv)"
  using conj_int_array.doc_cursor_axioms by (simp add: approximation_def conj_iter_def)

theorem bulk_score_collects_witness:
  "\<exists>s s'. conj_new int_array_iter example_arrays = Inr s \<and>
     bulk_score (conj_iter int_array_iter) et_collect (Some (\<lambda>i. Inr (i \<noteq> 2))) 0 NO_MORE_DOCS 0 s
       \<lparr>et_early_terminated = False, et_to_collect = 1, et_collected = 0\<rparr> =
     Some (\<lparr>et_early_terminated = False, et_to_collect = 1, et_collected = 1\<rparr>, Inr (NO_MORE_DOCS, s'))"
proof -
  let ?c = "\<lparr>et_early_terminated = False, et_to_collect = 1, et_collected = 0\<rparr>"
  obtain s where s: "conj_new int_array_iter example_arrays = Inr s" "conj_inv int_array_iter int_array_docs int_array_inv s"
      "conj_doc_id int_array_iter s = - 1" "conj_docs int_array_docs s = {2, 5}"
    using int_array_approx.conj_new_inv [of example_arrays] example_arrays_inv
    unfolding example_inter by (auto simp: example_arrays_def)
  have "{d. (d = 2 \<or> d = 5) \<and> 0 \<le> d \<and> d < NO_MORE_DOCS} = {2, 5}" by auto
  then have docs: "pending {2, 5} 0 NO_MORE_DOCS = [2, 5]" by (simp add: pending_def)
  have "collected et_step (filter (\<lambda>d. d \<noteq> 2) (pending (conj_docs int_array_docs s) 0 NO_MORE_DOCS)) ?c
      (first_ge (conj_docs int_array_docs s) NO_MORE_DOCS)
      (bulk_score (conj_iter int_array_iter) et_collect (Some (\<lambda>i. Inr (i \<noteq> 2))) 0 NO_MORE_DOCS 0 s ?c)"
    by (rule bulk_score_collects [OF et_conj.one_phase_collecting_axioms conj_array_approximation])
      (use s in \<open>auto simp: conj_iter_def\<close>)
  then show ?thesis
    using s(1) by (simp add: s(4) docs et_step_def et_collect_def Let_def collected_def first_ge_end)
qed

text \<open>
  C28: \<open>next\<close> of a filtering scorer returns the next document of the wrapped scorer that it
  confirms and all filters accept, skipping any number of rejected ones.
\<close>

theorem filter_next:
  assumes "two_phase I docs invar hits" "invar (fs_scorer c)" "doc_id I (fs_scorer c) < NO_MORE_DOCS"
    and "\<And>d f. \<exists>f'. filt d f = Inr (accepts f d, f') \<and> accepts f' = accepts f"
  shows "\<exists>c'. next_doc (filter_iter filt I) c =
      Inr (first_ge (filter_hits accepts hits c) (doc_id I (fs_scorer c) + 1), c') \<and>
    invar (fs_scorer c') \<and> filter_hits accepts hits c' = filter_hits accepts hits c"
proof -
  let ?F = "filter_phases filt I" and ?H = "filter_hits accepts hits"
  let ?docs = "\<lambda>c. docs (fs_scorer c)" and ?inv = "\<lambda>c. invar (fs_scorer c)"
  let ?t = "doc_id I (fs_scorer c) + 1"
  have tp: "two_phase ?F ?docs ?inv ?H" by (rule two_phase.filter_two_phase [OF assms(1,4)])
  then have ap: "doc_cursor (doc_id ?F) (approximate_next ?F) (approximate_advance ?F) ?docs ?inv"
    by (simp add: two_phase_def approximation_def)
  note D = doc_cursor.docs_range [OF ap assms(2)]
  let ?d = "first_ge (?docs c) ?t"
  have bounds: "- 1 \<le> doc_id I (fs_scorer c)"
    using doc_cursor.doc_bounds [OF ap assms(2)] by (simp add: filter_phases_def)
  obtain c1 where c1: "fs_lift (approximate_next I) c = Inr (?d, c1)" "?inv c1" "?docs c1 = ?docs c" "doc_id ?F c1 = ?d"
    using doc_cursor.next_moves [OF ap assms(2)] assms(3) by (auto simp: filter_phases_def elim!: movesE)
  have "approximate_next ?F c = Inr (?d, c1)" using c1(1) by (simp add: filter_phases_def)
  then have H: "?H c1 = ?H c" using two_phase.hits_next [OF tp assms(2)] by blast
  have "?t \<le> ?d" using first_ge_ge [OF D] assms(3) by simp
  then have "doc_id ?F c1 \<noteq> - 1" using c1(4) bounds by simp
  then obtain c' where c': "two_phase_next ?F c1 = Some (Inr (first_ge (?H c) ?d, c'))" "?inv c'" "?H c' = ?H c"
    using two_phase.two_phase_next_loop_finds [OF tp c1(2)] H c1(4) unfolding two_phase_next_def by metis
  have "first_ge (?H c) ?d = first_ge (?H c) ?t"
    using two_phase.hits_docs [OF tp assms(2)] assms(3) by (intro first_ge_skip [OF D]) auto
  with c' c1(1) show ?thesis by (simp add: filter_iter_def returned_def)
qed

theorem filter_next_witness:
  "\<exists>c'. next_doc (filter_iter pred_filter int_array_iter)
      \<lparr>fs_scorer = int_array_new [2, 3, 4, NO_MORE_DOCS] 3, fs_filters = [even, \<lambda>d. d \<noteq> 2]\<rparr> = Inr (4, c')"
proof -
  let ?c = "\<lparr>fs_scorer = int_array_new [2, 3, 4, NO_MORE_DOCS] 3, fs_filters = [even, \<lambda>d :: int. d \<noteq> 2]\<rparr>"
  have s: "int_array_inv (fs_scorer ?c)" "doc_id int_array_iter (fs_scorer ?c) = - 1"
    by (auto simp: int_array_inv_def int_array_docs_def int_array_new_def int_array_iter_def)
  have "filter_hits (\<lambda>f. f) int_array_docs ?c = {4}"
    by (auto simp: filter_hits_def int_array_docs_def int_array_new_def)
  moreover have "first_ge {4} 0 = 4" by (rule first_ge_eqI) auto
  ultimately show ?thesis
    using filter_next [OF int_array_two_phase.two_phase_axioms s(1), of pred_filter "\<lambda>f. f"] s(2) pred_filter_ok by auto
qed


lemma filtered_array_advance_hits:
  "approximate_advance (filter_phases pred_filter int_array_iter) t c = Inr (d, c') \<Longrightarrow>
   filter_hits (\<lambda>f. f) int_array_docs c' = filter_hits (\<lambda>f. f) int_array_docs c"
  by (auto simp: filter_phases_def fs_lift_def int_array_iter_def int_array_advance_def int_array_move_def Let_def
      filter_hits_def int_array_docs_def rbind_eq_Inr split: if_splits)


text \<open>
  C29: the early terminating collector accepts documents up to its quota; the first one beyond
  it raises the shared flag and ends the segment, whatever follows.
\<close>

theorem early_terminating_quota:
  assumes "0 < n"
  shows "\<exists>c. et_new n = Inr c \<and>
    collect_docs et_step ds c =
      (if length ds \<le> n then (c\<lparr>et_collected := length ds\<rparr>, None)
       else (c\<lparr>et_collected := n + 1, et_early_terminated := True\<rparr>, Some LeafCollectionTerminated))"
  using assms by (simp add: et_new_def et_collect_docs)

theorem early_terminating_quota_witness:
  "\<exists>c. et_new 1 = Inr c \<and>
    collect_docs et_step [4, 7, 9] c = (c\<lparr>et_collected := 2, et_early_terminated := True\<rparr>, Some LeafCollectionTerminated)"
  using early_terminating_quota [of 1 "[4, 7, 9]"] by auto

end
