(* ===== verification/Bit_Set.thy ===== *)
theory Bit_Set
  imports Doc_Iterator
begin

text \<open>
  Bit sets: \<open>FixedBitSet\<close> with its word-wise operations, and the default methods of the traits
  \<open>ImmutableBitSet\<close> and \<open>BitSet\<close> (\<^verbatim>\<open>util/bit_set.rs\<close>). The contract of a bit set is a locale over
  the set of indices it stands for; the generic methods are proved in it once.

  An index is a \<open>usize\<close>, here a natural number: \<open>index >> 6\<close> is \<open>index div 64\<close> and
  \<open>index & 0x3f\<close> is \<open>index mod 64\<close>.
\<close>

unbundle bit_operations_syntax

section \<open>FixedBitSet\<close>

record fixed_bit_set =
  fbs_bits :: "i64 list"
  fbs_num_bits :: nat
  fbs_num_words :: nat

definition bits2words :: "nat \<Rightarrow> nat result" where
  "bits2words num_bits0 =
     (let num_bits = as_i32 (int num_bits0)
      in if num_bits - 1 < - 2147483648 then Inl (Panic ''attempt to subtract with overflow'')
         else Inr (unat (word_of_int ((num_bits - 1) div 64 + 1) :: u64)))"

definition fbs_default :: fixed_bit_set where
  "fbs_default = \<lparr>fbs_bits = [], fbs_num_bits = 0, fbs_num_words = 0\<rparr>"

definition fbs_new :: "nat \<Rightarrow> fixed_bit_set result" where
  "fbs_new num_bits =
     rbind (bits2words num_bits) (\<lambda>num_words.
       Inr \<lparr>fbs_bits = replicate num_words 0, fbs_num_bits = num_bits, fbs_num_words = num_words\<rparr>)"

definition read_word :: "i64 list \<Rightarrow> nat \<Rightarrow> i64 result" where
  "read_word bits i = (if i < length bits then Inr (bits ! i) else Inl (Panic ''index out of bounds''))"

definition update_word :: "nat \<Rightarrow> (i64 \<Rightarrow> i64) \<Rightarrow> i64 list \<Rightarrow> i64 list result" where
  "update_word i f bits =
     (if i < length bits then Inr (bits[i := f (bits ! i)]) else Inl (Panic ''index out of bounds''))"

text \<open>A loop \<open>for i in a..b\<close> that replaces each word.\<close>

fun update_words :: "nat list \<Rightarrow> (i64 \<Rightarrow> i64) \<Rightarrow> i64 list \<Rightarrow> i64 list result" where
  "update_words [] f bits = Inr bits"
| "update_words (i # is) f bits = rbind (update_word i f bits) (update_words is f)"

definition verify_ghost_bits_clear :: "fixed_bit_set \<Rightarrow> bool result" where
  "verify_ghost_bits_clear s =
     (if \<exists>w\<in>set (drop (fbs_num_words s) (fbs_bits s)). w \<noteq> 0 then Inr False
      else if 6 \<le> trailing_zeros (of_nat (fbs_num_bits s) :: u64) then Inr True
      else if fbs_num_words s = 0 then Inl (Panic ''attempt to subtract with overflow'')
      else rbind (read_word (fbs_bits s) (fbs_num_words s - 1)) (\<lambda>w.
        Inr (w AND push_bit (fbs_num_bits s mod 64) (- 1) = 0)))"

definition fbs_copy_from :: "i64 list \<Rightarrow> nat \<Rightarrow> fixed_bit_set result" where
  "fbs_copy_from stored_bits num_bits =
     rbind (bits2words num_bits) (\<lambda>num_words.
       if length stored_bits < num_words then Inl (IllegalArgument ''The given long array is too small'')
       else let s = \<lparr>fbs_bits = stored_bits, fbs_num_bits = num_bits, fbs_num_words = num_words\<rparr>
            in rbind (verify_ghost_bits_clear s) (\<lambda>ok.
                 if ok then Inr s else Inl (Panic ''verify_ghost_bits_clear'')))"

definition resize_words :: "nat \<Rightarrow> i64 list \<Rightarrow> i64 list" where
  "resize_words n bits = take n bits @ replicate (n - length bits) 0"

definition fbs_ensure_capacity :: "nat \<Rightarrow> fixed_bit_set \<Rightarrow> fixed_bit_set result" where
  "fbs_ensure_capacity num_bits s =
     (if fbs_num_bits s \<le> num_bits
      then rbind (bits2words num_bits) (\<lambda>num_words.
        if length (fbs_bits s) \<le> num_words
        then Inr (s\<lparr>fbs_bits := resize_words (num_words + 1) (fbs_bits s), fbs_num_words := num_words + 1,
                    fbs_num_bits := (num_words + 1) * 64\<rparr>)
        else Inr s)
      else Inr s)"

text \<open>The masks of a range: the bits from \<open>start\<close> on in its word, and those before \<open>end\<close> in its word.\<close>

definition start_mask :: "nat \<Rightarrow> i64" where
  "start_mask start_index = push_bit (start_index mod 64) (- 1)"

definition end_mask :: "nat \<Rightarrow> i64" where
  "end_mask end_index = unsigned_shift (- 1) ((64 - end_index mod 64) mod 64)"

text \<open>The common shape of \<open>flip\<close>, \<open>batch_set\<close> and \<open>clear_batch\<close>.\<close>

definition update_range ::
  "(i64 \<Rightarrow> i64) \<Rightarrow> (i64 \<Rightarrow> i64) \<Rightarrow> (i64 \<Rightarrow> i64) \<Rightarrow> (i64 \<Rightarrow> i64) \<Rightarrow> nat \<Rightarrow> nat \<Rightarrow> fixed_bit_set \<Rightarrow> fixed_bit_set result" where
  "update_range same first mid final start_index end_index s =
     (if \<not> (start_index < fbs_num_bits s \<and> end_index \<le> fbs_num_bits s) then Inl (Panic ''range out of bounds'')
      else if end_index \<le> start_index then Inr s
      else let start_word = start_index div 64; end_word = (end_index - 1) div 64
           in rbind (if start_word = end_word then update_word start_word same (fbs_bits s)
                     else rbind (update_word start_word first (fbs_bits s)) (\<lambda>b1.
                          rbind (update_words [start_word + 1..<end_word] mid b1) (update_word end_word final)))
                (\<lambda>bits. Inr (s\<lparr>fbs_bits := bits\<rparr>)))"

definition fbs_flip :: "nat \<Rightarrow> nat \<Rightarrow> fixed_bit_set \<Rightarrow> fixed_bit_set result" where
  "fbs_flip start_index end_index s =
     (let m1 = NOT (start_mask start_index); m2 = NOT (end_mask end_index)
      in update_range (\<lambda>w. w XOR (m1 OR m2)) (\<lambda>w. w XOR m1) (\<lambda>w. NOT w) (\<lambda>w. w XOR m2) start_index end_index s)"

definition fbs_batch_set :: "nat \<Rightarrow> nat \<Rightarrow> fixed_bit_set \<Rightarrow> fixed_bit_set result" where
  "fbs_batch_set start_index end_index s =
     (let m1 = start_mask start_index; m2 = end_mask end_index
      in update_range (\<lambda>w. w OR (m1 AND m2)) (\<lambda>w. w OR m1) (\<lambda>w. - 1) (\<lambda>w. w OR m2) start_index end_index s)"

definition fbs_clear_batch :: "nat \<Rightarrow> nat \<Rightarrow> fixed_bit_set \<Rightarrow> fixed_bit_set result" where
  "fbs_clear_batch start_index end_index s =
     (let m1 = NOT (start_mask start_index); m2 = NOT (end_mask end_index)
      in update_range (\<lambda>w. w AND (m1 OR m2)) (\<lambda>w. w AND m1) (\<lambda>w. 0) (\<lambda>w. w AND m2) start_index end_index s)"

definition fbs_set :: "nat \<Rightarrow> fixed_bit_set \<Rightarrow> fixed_bit_set result" where
  "fbs_set index s =
     (if \<not> index < fbs_num_bits s then Inl (Panic ''index < num_bits'')
      else rbind (update_word (index div 64) (\<lambda>w. w OR push_bit (index mod 64) 1) (fbs_bits s))
        (\<lambda>bits. Inr (s\<lparr>fbs_bits := bits\<rparr>)))"

definition fbs_clear :: "nat \<Rightarrow> fixed_bit_set \<Rightarrow> fixed_bit_set result" where
  "fbs_clear index s =
     (if \<not> index < fbs_num_bits s then Inl (Panic ''index < num_bits'')
      else rbind (update_word (index div 64) (\<lambda>w. w AND NOT (push_bit (index mod 64) 1)) (fbs_bits s))
        (\<lambda>bits. Inr (s\<lparr>fbs_bits := bits\<rparr>)))"

definition fbs_get :: "nat \<Rightarrow> fixed_bit_set \<Rightarrow> bool result" where
  "fbs_get index s =
     (if \<not> index < fbs_num_bits s then Inl (Panic ''index < num_bits'')
      else rbind (read_word (fbs_bits s) (index div 64)) (\<lambda>w. Inr (w AND push_bit (index mod 64) 1 \<noteq> 0)))"

definition fbs_len :: "fixed_bit_set \<Rightarrow> nat" where
  "fbs_len s = fbs_num_bits s"

definition fbs_cardinality :: "fixed_bit_set \<Rightarrow> nat" where
  "fbs_cardinality s = pop_array (fbs_bits s) 0 (fbs_num_words s)"

text \<open>The loop of \<open>next_set_bit\<close> over the words after the first.\<close>

fun next_word :: "i64 list \<Rightarrow> nat list \<Rightarrow> int result" where
  "next_word bits [] = Inr NO_MORE_DOCS"
| "next_word bits (i # is) =
     rbind (read_word bits i) (\<lambda>word.
       if word \<noteq> 0 then Inr (as_i32 (int (i * 64 + trailing_zeros word))) else next_word bits is)"

definition fbs_next_set_bit :: "nat \<Rightarrow> fixed_bit_set \<Rightarrow> int result" where
  "fbs_next_set_bit index s =
     (if \<not> index < fbs_num_bits s then Inl (Panic ''index < num_bits'')
      else rbind (read_word (fbs_bits s) (index div 64)) (\<lambda>w.
        let word = signed_drop_bit (index mod 64) w
        in if word \<noteq> 0 then Inr (as_i32 (int (index + trailing_zeros word)))
           else next_word (fbs_bits s) [index div 64 + 1..<fbs_num_words s]))"

fun any_common :: "i64 list \<Rightarrow> i64 list \<Rightarrow> nat list \<Rightarrow> bool result" where
  "any_common a b [] = Inr False"
| "any_common a b (i # is) =
     rbind (read_word a i) (\<lambda>x. rbind (read_word b i) (\<lambda>y.
       if x AND y \<noteq> 0 then Inr True else any_common a b is))"

definition fbs_intersects :: "fixed_bit_set \<Rightarrow> fixed_bit_set \<Rightarrow> bool result" where
  "fbs_intersects other s = any_common (fbs_bits s) (fbs_bits other) [0..<min (fbs_num_words s) (fbs_num_words other)]"

fun or_words :: "i64 list \<Rightarrow> nat list \<Rightarrow> i64 list \<Rightarrow> i64 list result" where
  "or_words other [] bits = Inr bits"
| "or_words other (i # is) bits =
     rbind (read_word other i) (\<lambda>o'. rbind (update_word i (\<lambda>w. w OR o') bits) (or_words other is))"

definition fbs_do_or :: "i64 list \<Rightarrow> nat \<Rightarrow> fixed_bit_set \<Rightarrow> fixed_bit_set result" where
  "fbs_do_or other_arr other_num_words s =
     (if \<not> other_num_words \<le> fbs_num_words s then Inl (Panic ''other_num_words <= self.num_words'')
      else rbind (or_words other_arr [0..<other_num_words] (fbs_bits s)) (\<lambda>bits. Inr (s\<lparr>fbs_bits := bits\<rparr>)))"

definition fbs_set_or :: "fixed_bit_set \<Rightarrow> fixed_bit_set \<Rightarrow> fixed_bit_set result" where
  "fbs_set_or other s = fbs_do_or (fbs_bits other) (fbs_num_words other) s"

definition fbs_clone_box :: "fixed_bit_set \<Rightarrow> fixed_bit_set result" where
  "fbs_clone_box s =
     (case fbs_copy_from (fbs_bits s) (fbs_num_bits s) of Inl e \<Rightarrow> Inl (Panic ''unwrap on an error'') | Inr s' \<Rightarrow> Inr s')"

section \<open>The indices a bit set stands for\<close>

definition word_bit :: "i64 list \<Rightarrow> nat \<Rightarrow> bool" where
  "word_bit bits i \<longleftrightarrow> i div 64 < length bits \<and> bit (bits ! (i div 64)) (i mod 64)"

definition fbs_abs :: "fixed_bit_set \<Rightarrow> nat set" where
  "fbs_abs s = {i. word_bit (fbs_bits s) i}"

definition fbs_inv :: "fixed_bit_set \<Rightarrow> bool" where
  "fbs_inv s \<longleftrightarrow>
     fbs_num_bits s < 2147483648 \<and> fbs_num_words s = (fbs_num_bits s + 63) div 64 \<and>
     fbs_num_words s \<le> length (fbs_bits s) \<and> fbs_abs s \<subseteq> {..<fbs_num_bits s}"

lemma bits2words_eq:
  assumes "n < 2147483648"
  shows "bits2words n = Inr ((n + 63) div 64)"
proof -
  have c: "as_i32 (int n) = int n" using assms by (intro as_i32_id) auto
  have "(int n - 1) div 64 + 1 = int ((n + 63) div 64)" by (simp add: zdiv_int)
  moreover have "(n + 63) div 64 < 2 ^ 64" using assms by (simp add: div_less_dividend)
  ultimately show ?thesis
    unfolding bits2words_def Let_def c by (simp add: unat_of_nat)
qed

lemma bit_start_mask: "bit (start_mask a) j \<longleftrightarrow> j < 64 \<and> a mod 64 \<le> j"
  by (auto simp: start_mask_def bit_push_bit_iff simp del: push_bit_minus_one_eq_not_mask)

lemma bit_end_mask:
  assumes "0 < b"
  shows "bit (end_mask b) j \<longleftrightarrow> j < 64 \<and> j \<le> (b - 1) mod 64"
proof -
  obtain m where m: "b = Suc m" using assms by (cases b) auto
  have "(64 - b mod 64) mod 64 + j < 64 \<longleftrightarrow> j < 64 \<and> j \<le> (b - 1) mod 64"
    using mod_less_divisor [of 64 m] unfolding m mod_Suc by auto
  then show ?thesis
    unfolding end_mask_def unsigned_shift_def bit_drop_bit_eq comp_def
    by (simp only: bit_minus_1_iff possible_bit_word len_num1 len_bit0) simp
qed

lemma le_via_words: "a \<le> i \<longleftrightarrow> a div 64 < i div 64 \<or> a div 64 = i div 64 \<and> a mod 64 \<le> i mod 64" for a i :: nat
proof -
  have *: "64 * q + r \<le> 64 * q' + r' \<longleftrightarrow> q < q' \<or> q = q' \<and> r \<le> r'" if "r < 64" "r' < 64" for q r q' r' :: nat
    using that by linarith
  show ?thesis using * [of "a mod 64" "i mod 64" "a div 64" "i div 64"] by simp
qed

lemma update_words_range:
  assumes "b \<le> length bits"
  shows "update_words [a..<b] f bits = Inr (map (\<lambda>k. if a \<le> k \<and> k < b then f (bits ! k) else bits ! k) [0..<length bits])"
  using assms
proof (induction "b - a" arbitrary: a bits)
  case 0
  then show ?case by (auto intro!: nth_equalityI)
next
  case (Suc n)
  then have ab: "a < b" by simp
  then have upt: "[a..<b] = a # [Suc a..<b]" by (rule upt_conv_Cons)
  have "update_words [Suc a..<b] f (bits[a := f (bits ! a)]) =
      Inr (map (\<lambda>k. if Suc a \<le> k \<and> k < b then f (bits[a := f (bits ! a)] ! k) else bits[a := f (bits ! a)] ! k) [0..<length bits])"
    using Suc.hyps(1) [of "Suc a" "bits[a := f (bits ! a)]"] Suc.hyps(2) Suc.prems by simp
  then show ?case
    using ab Suc.prems by (simp add: upt update_word_def) (auto intro!: nth_equalityI simp: nth_list_update Suc_le_eq order_le_less)
qed

text \<open>Which function a range update applies to word \<open>k\<close>.\<close>

definition range_word ::
  "(i64 \<Rightarrow> i64) \<Rightarrow> (i64 \<Rightarrow> i64) \<Rightarrow> (i64 \<Rightarrow> i64) \<Rightarrow> (i64 \<Rightarrow> i64) \<Rightarrow> nat \<Rightarrow> nat \<Rightarrow> nat \<Rightarrow> i64 \<Rightarrow> i64" where
  "range_word same first mid final sw ew k =
     (if k < sw \<or> ew < k then id else if sw = ew then same else if k = sw then first else if k = ew then final else mid)"

lemma update_range_spec:
  assumes "a < b" "b \<le> fbs_num_bits s" "fbs_num_bits s \<le> 64 * length (fbs_bits s)"
  shows "\<exists>bits. update_range same first mid final a b s = Inr (s\<lparr>fbs_bits := bits\<rparr>) \<and>
    length bits = length (fbs_bits s) \<and>
    (\<forall>k<length bits. bits ! k = range_word same first mid final (a div 64) ((b - 1) div 64) k (fbs_bits s ! k))"
proof -
  let ?sw = "a div 64" and ?ew = "(b - 1) div 64" and ?bits = "fbs_bits s"
  have le: "?sw \<le> ?ew" using assms(1) by (intro div_le_mono) simp
  have ew: "?ew < length ?bits" using assms by (intro less_mult_imp_div_less) (simp add: mult.commute)
  have guards: "\<not> \<not> (a < fbs_num_bits s \<and> b \<le> fbs_num_bits s)" "\<not> b \<le> a" using assms by auto
  show ?thesis
  proof (cases "?sw = ?ew")
    case True
    then show ?thesis
      using ew unfolding update_range_def Let_def if_not_P [OF guards(1)] if_not_P [OF guards(2)]
      by (auto simp: update_word_def range_word_def nth_list_update)
  next
    case False
    let ?b1 = "?bits[?sw := first (?bits ! ?sw)]"
    let ?b2 = "map (\<lambda>k. if ?sw + 1 \<le> k \<and> k < ?ew then mid (?b1 ! k) else ?b1 ! k) [0..<length ?b1]"
    have sw: "?sw < ?ew" using False le by simp
    have "update_words [?sw + 1..<?ew] mid ?b1 = Inr ?b2"
      using ew by (intro update_words_range) simp
    then have "update_range same first mid final a b s = Inr (s\<lparr>fbs_bits := ?b2[?ew := final (?b2 ! ?ew)]\<rparr>)"
      unfolding update_range_def Let_def if_not_P [OF guards(1)] if_not_P [OF guards(2)] if_not_P [OF False]
      using sw ew by (simp add: update_word_def)
    then show ?thesis
      using sw ew by (auto simp: range_word_def nth_list_update)
  qed
qed

lemma in_range_words:
  fixes a b i :: nat
  assumes "a < b"
  shows "a \<le> i \<and> i < b \<longleftrightarrow>
    (a div 64 < i div 64 \<or> a div 64 = i div 64 \<and> a mod 64 \<le> i mod 64) \<and>
    (i div 64 < (b - 1) div 64 \<or> i div 64 = (b - 1) div 64 \<and> i mod 64 \<le> (b - 1) mod 64)"
proof -
  have "i < b \<longleftrightarrow> i \<le> b - 1" using assms by auto
  then show ?thesis unfolding le_via_words [symmetric] by simp
qed

text \<open>
  A range update at the level of bits: if every word function changes bit \<open>j\<close> as \<open>F\<close> does
  on the bits its mask selects, bit \<open>i\<close> changes exactly for \<open>i\<close> in the range.
\<close>

lemma update_range_bits:
  assumes "a < b" "b \<le> fbs_num_bits s" "fbs_num_bits s \<le> 64 * length (fbs_bits s)"
    and "\<And>w j. j < 64 \<Longrightarrow> bit (same w) j = (if a mod 64 \<le> j \<and> j \<le> (b - 1) mod 64 then F (bit w j) else bit w j)"
    and "\<And>w j. j < 64 \<Longrightarrow> bit (first w) j = (if a mod 64 \<le> j then F (bit w j) else bit w j)"
    and "\<And>w j. j < 64 \<Longrightarrow> bit (mid w) j = F (bit w j)"
    and "\<And>w j. j < 64 \<Longrightarrow> bit (final w) j = (if j \<le> (b - 1) mod 64 then F (bit w j) else bit w j)"
  shows "\<exists>bits. update_range same first mid final a b s = Inr (s\<lparr>fbs_bits := bits\<rparr>) \<and>
    length bits = length (fbs_bits s) \<and>
    (\<forall>i<64 * length bits. word_bit bits i = (if a \<le> i \<and> i < b then F (word_bit (fbs_bits s) i) else word_bit (fbs_bits s) i))"
proof -
  obtain bits where bits: "update_range same first mid final a b s = Inr (s\<lparr>fbs_bits := bits\<rparr>)"
      "length bits = length (fbs_bits s)"
      "\<forall>k<length bits. bits ! k = range_word same first mid final (a div 64) ((b - 1) div 64) k (fbs_bits s ! k)"
    using update_range_spec [OF assms(1-3)] by blast
  have "word_bit bits i = (if a \<le> i \<and> i < b then F (word_bit (fbs_bits s) i) else word_bit (fbs_bits s) i)"
    if "i < 64 * length bits" for i
  proof -
    have i: "i div 64 < length bits" "i mod 64 < 64" using that by (auto intro!: less_mult_imp_div_less simp: mult.commute)
    then have "word_bit bits i = bit (range_word same first mid final (a div 64) ((b - 1) div 64) (i div 64) (fbs_bits s ! (i div 64))) (i mod 64)"
      using bits(3) by (simp add: word_bit_def)
    also have "\<dots> = (if a \<le> i \<and> i < b then F (bit (fbs_bits s ! (i div 64)) (i mod 64)) else bit (fbs_bits s ! (i div 64)) (i mod 64))"
      unfolding range_word_def in_range_words [OF assms(1)] using i(2) assms(4-7) by auto
    finally show ?thesis using i bits(2) by (simp add: word_bit_def)
  qed
  with bits(1,2) show ?thesis by blast
qed

section \<open>Operations on the set of indices\<close>

lemma word_bit_less: "word_bit bits i \<Longrightarrow> i < 64 * length bits"
  by (simp add: word_bit_def div_less_iff_less_mult mult.commute)

lemma fbs_capacity: "fbs_inv s \<Longrightarrow> fbs_num_bits s \<le> 64 * length (fbs_bits s)"
  unfolding fbs_inv_def by linarith

lemma fbs_index: "fbs_inv s \<Longrightarrow> i < fbs_num_bits s \<Longrightarrow> i div 64 < length (fbs_bits s)"
  using fbs_capacity [of s] by (simp add: div_less_iff_less_mult mult.commute)

text \<open>Replacing the words keeps the invariant as long as no bit past the end is set.\<close>

lemma fbs_update:
  assumes "fbs_inv s" "length bits = length (fbs_bits s)" "\<And>i. word_bit bits i \<longleftrightarrow> i \<in> A" "A \<subseteq> {..<fbs_num_bits s}"
  shows "fbs_inv (s\<lparr>fbs_bits := bits\<rparr>)" "fbs_abs (s\<lparr>fbs_bits := bits\<rparr>) = A"
  using assms by (auto simp: fbs_inv_def fbs_abs_def)

lemma bit_and_single: "w AND push_bit k 1 \<noteq> 0 \<longleftrightarrow> bit w k" if "k < LENGTH('a)" for w :: "'a::len word"
  using that by (simp add: bit_iff_and_push_bit_not_eq_0)

lemma fbs_get_eq: "fbs_inv s \<Longrightarrow> i < fbs_num_bits s \<Longrightarrow> fbs_get i s = Inr (i \<in> fbs_abs s)"
  using fbs_index [of s i]
  by (simp add: fbs_get_def read_word_def fbs_abs_def word_bit_def bit_and_single del: push_bit_of_1)

lemma word_bit_list_update:
  assumes "k < length bits" "\<And>j. j < 64 \<Longrightarrow> bit (f (bits ! k)) j = (if j = n then v else bit (bits ! k) j)" "n < 64"
  shows "word_bit (bits[k := f (bits ! k)]) i = (if i = 64 * k + n then v else word_bit bits i)"
proof -
  have "i = 64 * k + n \<longleftrightarrow> i div 64 = k \<and> i mod 64 = n" using assms(3) by auto
  then show ?thesis using assms by (auto simp: word_bit_def nth_list_update)
qed

lemma fbs_update_word:
  assumes "fbs_inv s" "i < fbs_num_bits s"
    and "\<And>w j. j < 64 \<Longrightarrow> bit (f w) j = (if j = i mod 64 then v else bit w j)"
  shows "\<exists>s'. rbind (update_word (i div 64) f (fbs_bits s)) (\<lambda>bits. Inr (s\<lparr>fbs_bits := bits\<rparr>)) = Inr s' \<and> fbs_inv s' \<and>
    fbs_abs s' = (if v then insert i (fbs_abs s) else fbs_abs s - {i}) \<and> fbs_num_bits s' = fbs_num_bits s"
proof -
  let ?bits = "(fbs_bits s)[i div 64 := f (fbs_bits s ! (i div 64))]"
  let ?A = "if v then insert i (fbs_abs s) else fbs_abs s - {i}"
  have "word_bit ?bits k \<longleftrightarrow> k \<in> ?A" for k
    using word_bit_list_update [of "i div 64" "fbs_bits s" f "i mod 64" v k] fbs_index [OF assms(1,2)] assms(3)
    by (auto simp: fbs_abs_def)
  moreover have "?A \<subseteq> {..<fbs_num_bits s}" using assms(1,2) by (auto simp: fbs_inv_def)
  ultimately have "fbs_inv (s\<lparr>fbs_bits := ?bits\<rparr>)" "fbs_abs (s\<lparr>fbs_bits := ?bits\<rparr>) = ?A"
    using fbs_update [OF assms(1), of ?bits ?A] by simp_all
  then show ?thesis using fbs_index [OF assms(1,2)] by (simp add: update_word_def)
qed

lemma fbs_set_eq:
  assumes "fbs_inv s" "i < fbs_num_bits s"
  shows "\<exists>s'. fbs_set i s = Inr s' \<and> fbs_inv s' \<and> fbs_abs s' = insert i (fbs_abs s) \<and> fbs_num_bits s' = fbs_num_bits s"
proof -
  have "j < 64 \<Longrightarrow> bit ((\<lambda>w. w OR push_bit (i mod 64) 1) w) j = (if j = i mod 64 then True else bit w j)" for w :: i64 and j
    by (auto simp: bit_or_iff bit_and_iff bit_not_iff bit_push_bit_iff bit_1_iff simp del: push_bit_of_1)
  from fbs_update_word [OF assms this] assms show ?thesis by (simp add: fbs_set_def)
qed

lemma fbs_clear_eq:
  assumes "fbs_inv s" "i < fbs_num_bits s"
  shows "\<exists>s'. fbs_clear i s = Inr s' \<and> fbs_inv s' \<and> fbs_abs s' = fbs_abs s - {i} \<and> fbs_num_bits s' = fbs_num_bits s"
proof -
  have "j < 64 \<Longrightarrow> bit ((\<lambda>w. w AND NOT (push_bit (i mod 64) 1)) w) j = (if j = i mod 64 then False else bit w j)" for w :: i64 and j
    by (auto simp: bit_or_iff bit_and_iff bit_not_iff bit_push_bit_iff bit_1_iff simp del: push_bit_of_1)
  from fbs_update_word [OF assms this] assms show ?thesis by (simp add: fbs_clear_def)
qed

lemma fbs_range_update:
  assumes "fbs_inv s" "update_range same first mid final a b s = Inr (s\<lparr>fbs_bits := bits\<rparr>)"
    and "length bits = length (fbs_bits s)" "b \<le> fbs_num_bits s"
    and "\<forall>i<64 * length bits. word_bit bits i = (if a \<le> i \<and> i < b then v else word_bit (fbs_bits s) i)"
  shows "\<exists>s'. update_range same first mid final a b s = Inr s' \<and> fbs_inv s' \<and>
    fbs_abs s' = (if v then fbs_abs s \<union> {a..<b} else fbs_abs s - {a..<b}) \<and> fbs_num_bits s' = fbs_num_bits s"
proof -
  let ?A = "if v then fbs_abs s \<union> {a..<b} else fbs_abs s - {a..<b}"
  have "i < 64 * length bits" if "word_bit (fbs_bits s) i \<or> i < b" for i
    using that word_bit_less [of "fbs_bits s" i] fbs_capacity [OF assms(1)] assms(3,4) by auto
  then have "word_bit bits i \<longleftrightarrow> i \<in> ?A" for i
    using assms(5) word_bit_less [of bits i] by (cases "i < 64 * length bits") (auto simp: fbs_abs_def)
  moreover have "?A \<subseteq> {..<fbs_num_bits s}" using assms(1,4) by (auto simp: fbs_inv_def)
  ultimately show ?thesis using fbs_update [OF assms(1,3), of ?A] assms(2) by auto
qed

lemma fbs_batch_set_eq:
  assumes "fbs_inv s" "a < fbs_num_bits s" "b \<le> fbs_num_bits s"
  shows "\<exists>s'. fbs_batch_set a b s = Inr s' \<and> fbs_inv s' \<and> fbs_abs s' = fbs_abs s \<union> {a..<b} \<and> fbs_num_bits s' = fbs_num_bits s"
proof (cases "a < b")
  case False
  then show ?thesis using assms by (simp add: fbs_batch_set_def update_range_def)
next
  case True
  then have "0 < b" by simp
  let ?m1 = "start_mask a" and ?m2 = "end_mask b"
  have "\<exists>bits. update_range (\<lambda>w. w OR (?m1 AND ?m2)) (\<lambda>w. w OR ?m1) (\<lambda>w. - 1) (\<lambda>w. w OR ?m2) a b s = Inr (s\<lparr>fbs_bits := bits\<rparr>) \<and>
      length bits = length (fbs_bits s) \<and>
      (\<forall>i<64 * length bits. word_bit bits i = (if a \<le> i \<and> i < b then True else word_bit (fbs_bits s) i))"
    by (rule update_range_bits [where F = "\<lambda>x. True", OF True assms(3) fbs_capacity [OF assms(1)]])
      (auto simp: bit_or_iff bit_and_iff bit_start_mask bit_end_mask [OF \<open>0 < b\<close>])
  then obtain bits where bits: "update_range (\<lambda>w. w OR (?m1 AND ?m2)) (\<lambda>w. w OR ?m1) (\<lambda>w. - 1) (\<lambda>w. w OR ?m2) a b s = Inr (s\<lparr>fbs_bits := bits\<rparr>)"
      "length bits = length (fbs_bits s)"
      "\<forall>i<64 * length bits. word_bit bits i = (if a \<le> i \<and> i < b then True else word_bit (fbs_bits s) i)"
    by blast
  from fbs_range_update [OF assms(1) bits(1,2) assms(3) bits(3)] show ?thesis
    by (simp add: fbs_batch_set_def Let_def)
qed

lemma fbs_clear_batch_eq:
  assumes "fbs_inv s" "a < fbs_num_bits s" "b \<le> fbs_num_bits s"
  shows "\<exists>s'. fbs_clear_batch a b s = Inr s' \<and> fbs_inv s' \<and> fbs_abs s' = fbs_abs s - {a..<b} \<and> fbs_num_bits s' = fbs_num_bits s"
proof (cases "a < b")
  case False
  then show ?thesis using assms by (simp add: fbs_clear_batch_def update_range_def)
next
  case True
  then have "0 < b" by simp
  let ?m1 = "NOT (start_mask a)" and ?m2 = "NOT (end_mask b)"
  have "\<exists>bits. update_range (\<lambda>w. w AND (?m1 OR ?m2)) (\<lambda>w. w AND ?m1) (\<lambda>w. 0) (\<lambda>w. w AND ?m2) a b s = Inr (s\<lparr>fbs_bits := bits\<rparr>) \<and>
      length bits = length (fbs_bits s) \<and>
      (\<forall>i<64 * length bits. word_bit bits i = (if a \<le> i \<and> i < b then False else word_bit (fbs_bits s) i))"
    by (rule update_range_bits [where F = "\<lambda>x. False", OF True assms(3) fbs_capacity [OF assms(1)]])
      (auto simp: bit_or_iff bit_and_iff bit_not_iff bit_start_mask bit_end_mask [OF \<open>0 < b\<close>])
  then obtain bits where bits: "update_range (\<lambda>w. w AND (?m1 OR ?m2)) (\<lambda>w. w AND ?m1) (\<lambda>w. 0) (\<lambda>w. w AND ?m2) a b s = Inr (s\<lparr>fbs_bits := bits\<rparr>)"
      "length bits = length (fbs_bits s)"
      "\<forall>i<64 * length bits. word_bit bits i = (if a \<le> i \<and> i < b then False else word_bit (fbs_bits s) i)"
    by blast
  from fbs_range_update [OF assms(1) bits(1,2) assms(3) bits(3)] show ?thesis
    by (simp add: fbs_clear_batch_def Let_def)
qed

text \<open>The arithmetic shift of \<open>next_set_bit\<close> copies the sign bit, which never moves the lowest set bit.\<close>

lemma signed_shift_lowest:
  fixes w :: i64
  assumes "k < 64" "signed_drop_bit k w \<noteq> 0"
  defines "t \<equiv> trailing_zeros (signed_drop_bit k w)"
  shows "k + t < 64" "bit w (k + t)" "\<And>j. k \<le> j \<Longrightarrow> j < k + t \<Longrightarrow> \<not> bit w j"
proof -
  have sh: "bit (signed_drop_bit k w) n \<longleftrightarrow> bit w (if 63 \<le> k + n then 63 else k + n)" if "n < 64" for n
    using that assms(1) by (cases "k + n = 63") (auto simp: bit_signed_drop_bit_iff)
  have t: "bit (signed_drop_bit k w) t" "t < 64"
    using assms(2) bit_trailing_zeros trailing_zeros_less unfolding t_def by fastforce+
  have low: "\<not> bit (signed_drop_bit k w) j" if "j < t" for j
    using not_bit_below_trailing_zeros [OF assms(2)] that unfolding t_def by blast
  show kt: "k + t < 64"
  proof (rule ccontr)
    assume "\<not> k + t < 64"
    then have "bit (signed_drop_bit k w) (63 - k)" "63 - k < t" using t sh [of t] sh [of "63 - k"] assms(1) by auto
    then show False using low by blast
  qed
  then show "bit w (k + t)" using t sh [of t] by (cases "k + t = 63") (auto split: if_splits)
  show "\<not> bit w j" if "k \<le> j" "j < k + t" for j
    using low [of "j - k"] sh [of "j - k"] that kt by (auto split: if_splits)
qed

lemma signed_shift_zero:
  fixes w :: i64
  assumes "signed_drop_bit k w = 0" "k \<le> j" "j < 64"
  shows "\<not> bit w j"
proof -
  have "\<not> bit (signed_drop_bit k w) (j - k)" using assms(1) by simp
  then show ?thesis using assms(2,3) by (auto simp: bit_signed_drop_bit_iff split: if_splits)
qed

lemma fbs_doc_set: "fbs_inv s \<Longrightarrow> doc_set (int ` fbs_abs s)"
  by (force simp: fbs_inv_def subset_iff)

lemma word_lowest:
  assumes "fbs_inv s" "m < length (fbs_bits s)" "fbs_bits s ! m \<noteq> 0"
  shows "as_i32 (int (m * 64 + trailing_zeros (fbs_bits s ! m))) = first_ge (int ` fbs_abs s) (int (64 * m))"
proof -
  let ?t = "trailing_zeros (fbs_bits s ! m)"
  have t: "bit (fbs_bits s ! m) ?t" "?t < 64"
    using assms(3) bit_trailing_zeros trailing_zeros_less by fastforce+
  then have mem: "m * 64 + ?t \<in> fbs_abs s" using assms(2) by (simp add: fbs_abs_def word_bit_def)
  then have "m * 64 + ?t < 2147483648" using assms(1) by (force simp: fbs_inv_def)
  moreover have "first_ge (int ` fbs_abs s) (int (64 * m)) = int (m * 64 + ?t)"
  proof (rule first_ge_eqI [OF fbs_doc_set [OF assms(1)]])
    fix x assume x: "x \<in> int ` fbs_abs s" "int (64 * m) \<le> x"
    then obtain i where i: "x = int i" "word_bit (fbs_bits s) i" by (auto simp: fbs_abs_def)
    show "int (m * 64 + ?t) \<le> x"
    proof (rule ccontr)
      assume "\<not> int (m * 64 + ?t) \<le> x"
      then have "64 * m \<le> i" "i < 64 * m + ?t" using x(2) i(1) by auto
      moreover from this have "i div 64 = m" using t(2) by auto
      ultimately have "i div 64 = m" "i mod 64 < ?t" using mult_div_mod_eq [of 64 i] by auto
      then show False using i(2) not_bit_below_trailing_zeros [OF assms(3)] by (auto simp: word_bit_def)
    qed
  qed (use mem in \<open>auto simp del: of_nat_add of_nat_mult\<close>)
  ultimately show ?thesis by (simp add: as_i32_id del: of_nat_add of_nat_mult)
qed

lemma next_word_eq:
  assumes "fbs_inv s"
  shows "next_word (fbs_bits s) [m..<fbs_num_words s] = Inr (first_ge (int ` fbs_abs s) (int (64 * m)))"
proof (induction "fbs_num_words s - m" arbitrary: m)
  case 0
  have "i < 64 * m" if "i \<in> fbs_abs s" for i
    using that 0 assms unfolding fbs_inv_def by fastforce
  then have "{d \<in> int ` fbs_abs s. int (64 * m) \<le> d} = {}" by force
  then have "first_ge (int ` fbs_abs s) (int (64 * m)) = NO_MORE_DOCS" by (simp only: first_ge_def Min_singleton)
  then show ?case using 0 by simp
next
  case (Suc n)
  then have m: "m < fbs_num_words s" "m < length (fbs_bits s)" using assms by (auto simp: fbs_inv_def)
  have IH: "next_word (fbs_bits s) [Suc m..<fbs_num_words s] = Inr (first_ge (int ` fbs_abs s) (int (64 * Suc m)))"
    using Suc by simp
  show ?case
  proof (cases "fbs_bits s ! m = 0")
    case True
    have "64 * Suc m \<le> i" if "word_bit (fbs_bits s) i" "64 * m \<le> i" for i
    proof (rule ccontr)
      assume "\<not> 64 * Suc m \<le> i"
      then have "i div 64 = m" using that(2) by auto
      then show False using that(1) True by (simp add: word_bit_def)
    qed
    then have "{d \<in> int ` fbs_abs s. int (64 * Suc m) \<le> d} = {d \<in> int ` fbs_abs s. int (64 * m) \<le> d}"
      by (force simp: fbs_abs_def)
    with True m IH show ?thesis by (simp add: upt_conv_Cons read_word_def first_ge_def)
  next
    case False
    with m word_lowest [OF assms m(2)] show ?thesis by (simp add: upt_conv_Cons read_word_def)
  qed
qed

lemma word_pos: "j < 64 \<Longrightarrow> (j + 64 * q) div 64 = q" "j < 64 \<Longrightarrow> (j + 64 * q) mod 64 = j" for j q :: nat
  by auto

lemma words_round_up:
  assumes "n mod 64 \<noteq> (0 :: nat)"
  shows "(n + 63) div 64 = n div 64 + 1"
proof -
  obtain q r where n: "n = r + 64 * q" "0 < r" "r < 64"
    using that [of "n mod 64" "n div 64"] assms by simp
  then have "n + 63 = (r - 1) + 64 * (q + 1)" "r - 1 < 64" by simp_all
  then show ?thesis using word_pos(1) n(1,3) by metis
qed

lemma same_word:
  assumes "i mod 64 + t < (64 :: nat)"
  shows "(i + t) div 64 = i div 64" "(i + t) mod 64 = i mod 64 + t"
proof -
  from word_pos [OF assms, of "i div 64"] show "(i + t) div 64 = i div 64" "(i + t) mod 64 = i mod 64 + t"
    by (simp_all only: add.assoc [symmetric] add.commute [of _ t] mod_mult_div_eq) (simp_all add: add.assoc)
qed

lemma fbs_next_set_bit_eq:
  assumes "fbs_inv s" "i < fbs_num_bits s"
  shows "fbs_next_set_bit i s = Inr (first_ge (int ` fbs_abs s) (int i))"
proof -
  let ?w = "fbs_bits s ! (i div 64)" and ?k = "i mod 64"
  note idx = fbs_index [OF assms]
  have i: "i = 64 * (i div 64) + ?k" "?k < 64" by auto
  show ?thesis
  proof (cases "signed_drop_bit ?k ?w = 0")
    case True
    have "64 * (i div 64 + 1) \<le> x" if "word_bit (fbs_bits s) x" "i \<le> x" for x
    proof (rule ccontr)
      assume "\<not> 64 * (i div 64 + 1) \<le> x"
      then have "x div 64 = i div 64" using i(1) that(2) by auto
      moreover from this have "?k \<le> x mod 64" using that(2) le_via_words [of i x] by simp
      ultimately show False using that(1) signed_shift_zero [OF True, of "x mod 64"] by (auto simp: word_bit_def)
    qed
    then have "{d \<in> int ` fbs_abs s. int (64 * (i div 64 + 1)) \<le> d} = {d \<in> int ` fbs_abs s. int i \<le> d}"
      using i by (force simp: fbs_abs_def)
    then have "first_ge (int ` fbs_abs s) (int (64 * (i div 64 + 1))) = first_ge (int ` fbs_abs s) (int i)"
      by (simp only: first_ge_def)
    with True assms(2) idx next_word_eq [OF assms(1), of "i div 64 + 1"] show ?thesis
      by (simp add: fbs_next_set_bit_def read_word_def Let_def)
  next
    case False
    define t where "t = trailing_zeros (signed_drop_bit ?k ?w)"
    note low = signed_shift_lowest [OF i(2) False, folded t_def]
    note pos = same_word [OF low(1)]
    have mem: "i + t \<in> fbs_abs s" using low(2) idx by (simp add: fbs_abs_def word_bit_def pos)
    then have bound: "i + t < 2147483648" using assms(1) by (force simp: fbs_inv_def)
    have "first_ge (int ` fbs_abs s) (int i) = int (i + t)"
    proof (rule first_ge_eqI [OF fbs_doc_set [OF assms(1)]])
      fix d assume d: "d \<in> int ` fbs_abs s" "int i \<le> d"
      then obtain x where x: "d = int x" "word_bit (fbs_bits s) x" "i \<le> x" by (auto simp: fbs_abs_def)
      show "int (i + t) \<le> d"
      proof (rule ccontr)
        assume "\<not> int (i + t) \<le> d"
        then have "x < i + t" using x(1) by simp
        then have "x div 64 = i div 64" "?k \<le> x mod 64" "x mod 64 < ?k + t"
          using x(3) pos le_via_words [of i x] le_via_words [of "i + t" x] by auto
        then show False using x(2) low(3) [of "x mod 64"] by (auto simp: word_bit_def)
      qed
    qed (use mem in \<open>auto simp del: of_nat_add\<close>)
    with False assms(2) idx bound show ?thesis
      by (simp add: fbs_next_set_bit_def read_word_def Let_def as_i32_id flip: t_def)
  qed
qed

lemma fbs_new_eq:
  assumes "n < 2147483648"
  shows "\<exists>s. fbs_new n = Inr s \<and> fbs_inv s \<and> fbs_abs s = {} \<and> fbs_num_bits s = n"
  using assms by (auto simp: fbs_new_def bits2words_eq fbs_inv_def fbs_abs_def word_bit_def)

lemma card_word_bits:
  "card {i. word_bit bits i \<and> i < 64 * n} = (\<Sum>w\<leftarrow>take n bits. count_ones w)"
proof (induction n)
  case (Suc n)
  let ?A = "{i. word_bit bits i \<and> i < 64 * n}" and ?w = "bits ! n"
  let ?B = "if n < length bits then (\<lambda>j. j + 64 * n) ` {j. j < 64 \<and> bit ?w j} else {}"
  have "{i. word_bit bits i \<and> i < 64 * Suc n} = ?A \<union> ?B"
  proof (intro equalityI subsetI)
    fix i assume i: "i \<in> {i. word_bit bits i \<and> i < 64 * Suc n}"
    show "i \<in> ?A \<union> ?B"
    proof (cases "i < 64 * n")
      case False
      then have "i div 64 = n" using i by auto
      then have "n < length bits" "i mod 64 \<in> {j. j < 64 \<and> bit ?w j}" "i = i mod 64 + 64 * n"
        using i by (auto simp: word_bit_def)
      then show ?thesis using image_eqI [of i "\<lambda>j. j + 64 * n" "i mod 64" "{j. j < 64 \<and> bit ?w j}"] by simp
    qed (use i in simp)
  qed (auto simp: word_bit_def word_pos split: if_splits)
  moreover have "finite ?A" by (rule finite_subset [of _ "{..<64 * n}"]) auto
  moreover have "finite ?B" by simp
  moreover have "?A \<inter> ?B = {}" by auto
  ultimately have "card {i. word_bit bits i \<and> i < 64 * Suc n} = card ?A + card ?B" by (simp add: card_Un_disjoint)
  moreover have "card ?B = (if n < length bits then count_ones ?w else 0)"
  proof -
    have "inj_on (\<lambda>j. j + 64 * n) X" for X by (rule inj_onI) simp
    then show ?thesis by (simp add: card_image count_ones_card)
  qed
  ultimately show ?case using Suc by (simp add: take_Suc_conv_app_nth)
qed simp

lemma fbs_cardinality_eq: "fbs_inv s \<Longrightarrow> fbs_cardinality s = card (fbs_abs s)"
proof -
  assume s: "fbs_inv s"
  then have "fbs_abs s = {i. word_bit (fbs_bits s) i \<and> i < 64 * fbs_num_words s}"
    unfolding fbs_inv_def by (force simp: fbs_abs_def)
  then show ?thesis using card_word_bits [of "fbs_bits s" "fbs_num_words s"]
    by (simp add: fbs_cardinality_def pop_array_eq_sum)
qed

lemma trailing_zeros_ge: "k \<le> trailing_zeros w \<longleftrightarrow> (\<forall>i<k. \<not> bit w i)" if "k \<le> LENGTH('a)" for w :: "'a::len word"
proof (cases "w = 0")
  case True
  then have all: "takeWhile (\<lambda>i. \<not> bit w i) [0..<LENGTH('a)] = [0..<LENGTH('a)]" by (simp only: takeWhile_eq_all_conv) simp
  show ?thesis unfolding trailing_zeros_def all using that True by simp
next
  case False
  then show ?thesis
    using bit_trailing_zeros [OF False] not_bit_below_trailing_zeros [OF False] by (meson less_le_trans not_less)
qed

lemma trailing_zeros_6: "6 \<le> trailing_zeros (of_nat n :: u64) \<longleftrightarrow> n mod 64 = 0"
proof -
  have "6 \<le> trailing_zeros (of_nat n :: u64) \<longleftrightarrow> (\<forall>i<6. \<not> bit n i)"
    by (auto simp: trailing_zeros_ge bit_of_nat_iff)
  also have "\<dots> \<longleftrightarrow> take_bit 6 n = 0" by (auto simp: bit_eq_iff bit_take_bit_iff)
  finally show ?thesis by (simp add: take_bit_eq_mod)
qed

text \<open>Words behind the last one in use are zero, and so are the bits of that word behind the last bit.\<close>

lemma ghost_words: "(\<exists>w\<in>set (drop nw bits). w \<noteq> 0) \<longleftrightarrow> (\<exists>i. word_bit bits i \<and> 64 * nw \<le> i)"
proof
  assume "\<exists>w\<in>set (drop nw bits). w \<noteq> 0"
  then obtain k where k: "nw + k < length bits" "bits ! (nw + k) \<noteq> 0"
    by (auto simp: in_set_conv_nth less_diff_conv add.commute)
  then obtain j where j: "bit (bits ! (nw + k)) j" "j < 64"
    using bit_trailing_zeros trailing_zeros_less by fastforce
  then have "word_bit bits (j + 64 * (nw + k))"
    unfolding word_bit_def word_pos [OF j(2)] using k(1) by simp
  then show "\<exists>i. word_bit bits i \<and> 64 * nw \<le> i" by (intro exI [of _ "j + 64 * (nw + k)"]) simp
next
  assume "\<exists>i. word_bit bits i \<and> 64 * nw \<le> i"
  then obtain i where i: "i div 64 < length bits" "bit (bits ! (i div 64)) (i mod 64)" "nw \<le> i div 64"
    by (auto simp: word_bit_def)
  then have "bits ! (i div 64) = drop nw bits ! (i div 64 - nw)" by simp
  then show "\<exists>w\<in>set (drop nw bits). w \<noteq> 0"
    using i by (intro bexI [of _ "bits ! (i div 64)"]) (auto simp: in_set_conv_nth intro!: exI [of _ "i div 64 - nw"])
qed

lemma ghost_last_word:
  assumes nw: "nw = n div 64 + 1" and len: "nw \<le> length bits"
  shows "bits ! (n div 64) AND push_bit (n mod 64) (- 1) = 0 \<longleftrightarrow> (\<forall>i. word_bit bits i \<longrightarrow> i < 64 * nw \<longrightarrow> i < n)"
proof -
  let ?w = "bits ! (n div 64)"
  have "?w AND push_bit (n mod 64) (- 1) = 0 \<longleftrightarrow> (\<forall>j<64. n mod 64 \<le> j \<longrightarrow> \<not> bit ?w j)"
    by (auto simp: bit_eq_iff bit_and_iff bit_push_bit_iff simp del: push_bit_minus_one_eq_not_mask)
  also have "\<dots> \<longleftrightarrow> (\<forall>i. word_bit bits i \<longrightarrow> i < 64 * nw \<longrightarrow> i < n)"
  proof (intro iffI allI impI)
    fix i assume all: "\<forall>j<64. n mod 64 \<le> j \<longrightarrow> \<not> bit ?w j" and i: "word_bit bits i" "i < 64 * nw"
    show "i < n"
    proof (rule ccontr)
      assume "\<not> i < n"
      then have "i div 64 = n div 64" "n mod 64 \<le> i mod 64"
        using i(2) nw le_via_words [of n i] by (auto simp: less_mult_imp_div_less)
      then show False using all i(1) by (auto simp: word_bit_def)
    qed
  next
    fix j assume all: "\<forall>i. word_bit bits i \<longrightarrow> i < 64 * nw \<longrightarrow> i < n" and j: "j < 64" "n mod 64 \<le> j"
    have "\<not> j + 64 * (n div 64) < n" using j(2) mult_div_mod_eq [of 64 n] by linarith
    moreover have "j + 64 * (n div 64) < 64 * nw" using nw j(1) by simp
    moreover have "word_bit bits (j + 64 * (n div 64)) \<longleftrightarrow> bit ?w j"
      unfolding word_bit_def word_pos [OF j(1)] using len nw by simp
    ultimately show "\<not> bit ?w j" using all by blast
  qed
  finally show ?thesis .
qed

lemma verify_ghost_bits_clear_eq:
  assumes "fbs_num_words s = (fbs_num_bits s + 63) div 64" "fbs_num_words s \<le> length (fbs_bits s)"
  shows "verify_ghost_bits_clear s = Inr (fbs_abs s \<subseteq> {..<fbs_num_bits s})"
proof -
  let ?n = "fbs_num_bits s" and ?nw = "fbs_num_words s" and ?bits = "fbs_bits s"
  show ?thesis
  proof (cases "?n mod 64 = 0")
    case True
    then have "64 * ?nw = ?n" using assms(1) by auto
    then show ?thesis
      using True ghost_words [of ?nw ?bits] by (auto simp: verify_ghost_bits_clear_def trailing_zeros_6 fbs_abs_def subset_iff not_less)
  next
    case False
    then have nw: "?nw = ?n div 64 + 1" using assms(1) words_round_up by simp
    have "?n \<le> 64 * ?nw" using assms(1) by linarith
    then have split: "fbs_abs s \<subseteq> {..<?n} \<longleftrightarrow> \<not> (\<exists>i. word_bit ?bits i \<and> 64 * ?nw \<le> i) \<and>
        (\<forall>i. word_bit ?bits i \<longrightarrow> i < 64 * ?nw \<longrightarrow> i < ?n)"
      by (force simp: fbs_abs_def subset_iff not_less)
    have idx: "?nw \<noteq> 0" "?nw - 1 = ?n div 64" "?n div 64 < length ?bits" using nw assms(2) by auto
    show ?thesis
      unfolding verify_ghost_bits_clear_def ghost_words trailing_zeros_6 split ghost_last_word [OF nw assms(2), symmetric] idx(2)
      using False idx by (auto simp: read_word_def)
  qed
qed

lemma fbs_copy_from_eq:
  assumes "n < 2147483648"
  shows "fbs_copy_from stored n =
    (let s = \<lparr>fbs_bits = stored, fbs_num_bits = n, fbs_num_words = (n + 63) div 64\<rparr>
     in if length stored < (n + 63) div 64 then Inl (IllegalArgument ''The given long array is too small'')
        else if fbs_abs s \<subseteq> {..<n} then Inr s else Inl (Panic ''verify_ghost_bits_clear''))"
  using assms by (simp add: fbs_copy_from_def bits2words_eq verify_ghost_bits_clear_eq Let_def)

lemma fbs_clone_box_eq: "fbs_inv s \<Longrightarrow> fbs_clone_box s = Inr s"
proof -
  assume s: "fbs_inv s"
  then have "s = \<lparr>fbs_bits = fbs_bits s, fbs_num_bits = fbs_num_bits s, fbs_num_words = (fbs_num_bits s + 63) div 64\<rparr>"
    by (simp add: fbs_inv_def)
  moreover have "fbs_abs \<lparr>fbs_bits = fbs_bits s, fbs_num_bits = m, fbs_num_words = k\<rparr> = fbs_abs s" for m k
    by (simp add: fbs_abs_def)
  ultimately show ?thesis using s by (simp add: fbs_clone_box_def fbs_copy_from_eq fbs_inv_def Let_def)
qed

lemma word_bit_resize:
  "length bits \<le> n \<Longrightarrow> word_bit (resize_words n bits) i = word_bit bits i"
  by (auto simp: word_bit_def resize_words_def nth_append)

lemma fbs_ensure_capacity_eq:
  assumes "fbs_inv s" "length (fbs_bits s) = fbs_num_words s" "n < 2147483456"
  shows "\<exists>s'. fbs_ensure_capacity n s = Inr s' \<and> fbs_inv s' \<and> fbs_abs s' = fbs_abs s \<and> n < fbs_num_bits s' \<and>
    length (fbs_bits s') = fbs_num_words s'"
proof (cases "fbs_num_bits s \<le> n")
  case True
  let ?nw = "(n + 63) div 64"
  have le: "length (fbs_bits s) \<le> ?nw" using True assms(1,2) by (auto simp: fbs_inv_def intro!: div_le_mono)
  have "n \<le> 64 * ?nw" by linarith
  moreover have "64 * ?nw \<le> n + 63" by simp
  ultimately have n: "n < (?nw + 1) * 64" "(?nw + 1) * 64 < 2147483648" using assms(3) by auto
  have abs: "fbs_abs (s\<lparr>fbs_bits := resize_words (?nw + 1) (fbs_bits s), fbs_num_words := ?nw + 1, fbs_num_bits := (?nw + 1) * 64\<rparr>) = fbs_abs s"
    using le by (simp add: fbs_abs_def word_bit_resize)
  then show ?thesis
    using True le n assms(1) bits2words_eq [of n] assms(3)
    by (auto simp: fbs_ensure_capacity_def fbs_inv_def resize_words_def)
next
  case False
  then show ?thesis using assms by (auto simp: fbs_ensure_capacity_def)
qed

lemma any_common_eq:
  assumes "\<And>i. i \<in> set is \<Longrightarrow> i < length a \<and> i < length b"
  shows "any_common a b is = Inr (\<exists>i\<in>set is. a ! i AND b ! i \<noteq> 0)"
  using assms by (induction "is") (auto simp: read_word_def)

lemma fbs_intersects_eq:
  assumes "fbs_inv s" "fbs_inv t"
  shows "fbs_intersects t s = Inr (fbs_abs s \<inter> fbs_abs t \<noteq> {})"
proof -
  let ?a = "fbs_bits s" and ?b = "fbs_bits t" and ?n = "min (fbs_num_words s) (fbs_num_words t)"
  have "(\<exists>i<?n. ?a ! i AND ?b ! i \<noteq> 0) \<longleftrightarrow> fbs_abs s \<inter> fbs_abs t \<noteq> {}"
  proof
    assume "\<exists>i<?n. ?a ! i AND ?b ! i \<noteq> 0"
    then obtain i j where ij: "i < ?n" "bit (?a ! i) j" "bit (?b ! i) j" "j < 64"
      using bit_trailing_zeros trailing_zeros_less by (fastforce simp: bit_and_iff)
    then have "j + 64 * i \<in> fbs_abs s \<inter> fbs_abs t"
      using assms word_pos [OF ij(4), of i] by (simp add: fbs_abs_def word_bit_def fbs_inv_def)
    then show "fbs_abs s \<inter> fbs_abs t \<noteq> {}" by blast
  next
    assume "fbs_abs s \<inter> fbs_abs t \<noteq> {}"
    then obtain i where i: "i \<in> fbs_abs s" "i \<in> fbs_abs t" by blast
    then have "bit (?a ! (i div 64) AND ?b ! (i div 64)) (i mod 64)" by (simp add: fbs_abs_def word_bit_def bit_and_iff)
    then have "?a ! (i div 64) AND ?b ! (i div 64) \<noteq> 0" by (metis bit_0_eq bot_apply bot_bool_def)
    moreover have "i div 64 < (m + 63) div 64" if "i < m" for m using that by linarith
    then have "i div 64 < ?n" using i assms by (force simp: fbs_inv_def)
    ultimately show "\<exists>i<?n. ?a ! i AND ?b ! i \<noteq> 0" by blast
  qed
  moreover have "any_common ?a ?b [0..<?n] = Inr (\<exists>i\<in>set [0..<?n]. ?a ! i AND ?b ! i \<noteq> 0)"
    using assms by (intro any_common_eq) (auto simp: fbs_inv_def)
  ultimately show ?thesis by (simp add: fbs_intersects_def Bex_def)
qed

lemma or_words_eq:
  assumes "distinct is" "\<And>i. i \<in> set is \<Longrightarrow> i < length bits \<and> i < length other"
  shows "\<exists>bits'. or_words other is bits = Inr bits' \<and> length bits' = length bits \<and>
    (\<forall>i<length bits. bits' ! i = (if i \<in> set is then bits ! i OR other ! i else bits ! i))"
  using assms
proof (induction "is" arbitrary: bits)
  case (Cons k ks)
  let ?b = "bits[k := bits ! k OR other ! k]"
  obtain bits' where "or_words other ks ?b = Inr bits'" "length bits' = length ?b"
      "\<forall>i<length ?b. bits' ! i = (if i \<in> set ks then ?b ! i OR other ! i else ?b ! i)"
    using Cons.IH [of ?b] Cons.prems by auto
  then show ?case using Cons.prems by (auto simp: read_word_def update_word_def nth_list_update)
qed simp

lemma fbs_set_or_eq:
  assumes "fbs_inv s" "fbs_inv t" "fbs_num_bits t \<le> fbs_num_bits s"
  shows "\<exists>s'. fbs_set_or t s = Inr s' \<and> fbs_inv s' \<and> fbs_abs s' = fbs_abs s \<union> fbs_abs t \<and> fbs_num_bits s' = fbs_num_bits s"
proof -
  let ?nt = "fbs_num_words t"
  have nw: "?nt \<le> fbs_num_words s" using assms by (auto simp: fbs_inv_def intro!: div_le_mono)
  have len: "?nt \<le> length (fbs_bits s)" "?nt \<le> length (fbs_bits t)" using nw assms by (auto simp: fbs_inv_def)
  obtain bits where bits: "or_words (fbs_bits t) [0..<?nt] (fbs_bits s) = Inr bits" "length bits = length (fbs_bits s)"
      "\<forall>i<length (fbs_bits s). bits ! i = (if i < ?nt then fbs_bits s ! i OR fbs_bits t ! i else fbs_bits s ! i)"
    using or_words_eq [of "[0..<?nt]" "fbs_bits s" "fbs_bits t"] len by auto
  have in_t: "i div 64 < ?nt" if "i \<in> fbs_abs t" for i
  proof -
    have "i < fbs_num_bits t" using that assms(2) by (auto simp: fbs_inv_def)
    then show ?thesis using assms(2) unfolding fbs_inv_def by linarith
  qed
  have "word_bit bits i \<longleftrightarrow> i \<in> fbs_abs s \<union> fbs_abs t" for i
    using bits(2,3) len in_t [of i] by (auto simp: fbs_abs_def word_bit_def bit_or_iff split: if_splits)
  moreover have "fbs_abs s \<union> fbs_abs t \<subseteq> {..<fbs_num_bits s}" using assms by (force simp: fbs_inv_def)
  ultimately have "fbs_inv (s\<lparr>fbs_bits := bits\<rparr>)" "fbs_abs (s\<lparr>fbs_bits := bits\<rparr>) = fbs_abs s \<union> fbs_abs t"
    using fbs_update [OF assms(1) bits(2), of "fbs_abs s \<union> fbs_abs t"] by auto
  then show ?thesis using bits(1) nw by (simp add: fbs_set_or_def fbs_do_or_def)
qed

section \<open>The interface of a bit set and its generic methods\<close>

text \<open>The default \<open>batch_set\<close> of the trait sets the bits one by one.\<close>

fun default_batch_set :: "(nat \<Rightarrow> 's \<Rightarrow> 's result) \<Rightarrow> nat list \<Rightarrow> 's \<Rightarrow> 's result" where
  "default_batch_set put_bit [] s = Inr s"
| "default_batch_set put_bit (i # is) s = rbind (put_bit i s) (default_batch_set put_bit is)"

text \<open>\<open>or\<close> with an iterator: it must be unpositioned, and is then drained.\<close>

definition assert_unpositioned :: "('i, 'e) doc_iterator_scheme \<Rightarrow> 'i \<Rightarrow> unit result" where
  "assert_unpositioned I it =
     (if doc_id I it \<noteq> - 1 then Inl (IllegalState ''This operation only works with an unpositioned iterator'') else Inr ())"

partial_function (option) or_loop ::
  "(nat \<Rightarrow> 's \<Rightarrow> 's result) \<Rightarrow> ('i, 'e) doc_iterator_scheme \<Rightarrow> 'i \<Rightarrow> 's \<Rightarrow> 's result option" where
  "or_loop put_bit I it s =
     (case next_doc I it of
        Inl e \<Rightarrow> Some (Inl e)
      | Inr (doc, it') \<Rightarrow>
          if doc = NO_MORE_DOCS then Some (Inr s)
          else (case put_bit (nat doc) s of Inl e \<Rightarrow> Some (Inl e) | Inr s' \<Rightarrow> or_loop put_bit I it' s'))"

definition bit_set_or :: "(nat \<Rightarrow> 's \<Rightarrow> 's result) \<Rightarrow> ('i, 'e) doc_iterator_scheme \<Rightarrow> 'i \<Rightarrow> 's \<Rightarrow> 's result option" where
  "bit_set_or put_bit I it s =
     (case assert_unpositioned I it of Inl e \<Rightarrow> Some (Inl e) | Inr _ \<Rightarrow> or_loop put_bit I it s)"

text \<open>\<open>BitSetIterator::next\<close>: the item, and the iterator's new position.\<close>

definition bit_set_iterator_next ::
  "(nat \<Rightarrow> 's \<Rightarrow> int result) \<Rightarrow> ('s \<Rightarrow> nat) \<Rightarrow> 's \<Rightarrow> int \<Rightarrow> (int option \<times> int) result" where
  "bit_set_iterator_next next_set_bit len s current =
     (if as_i32 (int (len s)) \<le> current + 1 then Inr (None, current)
      else rbind (next_set_bit (nat (current + 1)) s) (\<lambda>d.
        Inr (if d = NO_MORE_DOCS then None else Some d, d)))"

locale immutable_bit_set =
  fixes get :: "nat \<Rightarrow> 's \<Rightarrow> bool result"
    and next_set_bit :: "nat \<Rightarrow> 's \<Rightarrow> int result"
    and len :: "'s \<Rightarrow> nat"
    and abs :: "'s \<Rightarrow> nat set"
    and invar :: "'s \<Rightarrow> bool"
  assumes abs_len: "invar s \<Longrightarrow> abs s \<subseteq> {..<len s}"
    and len_docs: "invar s \<Longrightarrow> len s < 2147483648"
    and get_ok: "invar s \<Longrightarrow> i < len s \<Longrightarrow> get i s = Inr (i \<in> abs s)"
    and next_set_bit_ok: "invar s \<Longrightarrow> i < len s \<Longrightarrow> next_set_bit i s = Inr (first_ge (int ` abs s) (int i))"
begin

lemma abs_doc_set: "invar s \<Longrightarrow> doc_set (int ` abs s)"
  using abs_len [of s] len_docs [of s] by (force simp: subset_iff)

lemma len_cast: "invar s \<Longrightarrow> as_i32 (int (len s)) = int (len s)"
  using len_docs [of s] by (simp add: as_i32_id)

lemma first_ge_past_len: "invar s \<Longrightarrow> int (len s) \<le> t \<Longrightarrow> first_ge (int ` abs s) t = NO_MORE_DOCS"
proof -
  assume s: "invar s" "int (len s) \<le> t"
  have "{d \<in> int ` abs s. t \<le> d} = {}" using abs_len [OF s(1)] s(2) by force
  then show ?thesis by (simp only: first_ge_def Min_singleton)
qed

lemma bit_set_iterator_next_ok:
  assumes "invar s" "- 1 \<le> current" "current < NO_MORE_DOCS"
  shows "\<exists>c. bit_set_iterator_next next_set_bit len s current =
    Inr (let d = first_ge (int ` abs s) (current + 1) in if d = NO_MORE_DOCS then None else Some d, c)"
  using assms next_set_bit_ok [of s "nat (current + 1)"] first_ge_past_len [of s "current + 1"]
  by (auto simp: bit_set_iterator_next_def len_cast Let_def)

end

locale bit_set = immutable_bit_set get next_set_bit len abs invar
  for get :: "nat \<Rightarrow> 's \<Rightarrow> bool result" and next_set_bit len abs invar +
  fixes put_bit :: "nat \<Rightarrow> 's \<Rightarrow> 's result"
    and clear_bit :: "nat \<Rightarrow> 's \<Rightarrow> 's result"
    and clear_range :: "nat \<Rightarrow> nat \<Rightarrow> 's \<Rightarrow> 's result"
  assumes set_ok: "invar s \<Longrightarrow> i < len s \<Longrightarrow>
      \<exists>s'. put_bit i s = Inr s' \<and> invar s' \<and> abs s' = insert i (abs s) \<and> len s' = len s"
    and clear_ok: "invar s \<Longrightarrow> i < len s \<Longrightarrow>
      \<exists>s'. clear_bit i s = Inr s' \<and> invar s' \<and> abs s' = abs s - {i} \<and> len s' = len s"
    and clear_range_ok: "invar s \<Longrightarrow> a < len s \<Longrightarrow> b \<le> len s \<Longrightarrow>
      \<exists>s'. clear_range a b s = Inr s' \<and> invar s' \<and> abs s' = abs s - {a..<b} \<and> len s' = len s"
begin

lemma default_batch_set_ok:
  assumes "invar s" "\<And>i. i \<in> set is \<Longrightarrow> i < len s"
  shows "\<exists>s'. default_batch_set put_bit is s = Inr s' \<and> invar s' \<and> abs s' = abs s \<union> set is \<and> len s' = len s"
  using assms
proof (induction "is" arbitrary: s)
  case (Cons i "is")
  obtain s1 where s1: "put_bit i s = Inr s1" "invar s1" "abs s1 = insert i (abs s)" "len s1 = len s"
    using set_ok [OF Cons.prems(1), of i] Cons.prems(2) by auto
  obtain s2 where "default_batch_set put_bit is s1 = Inr s2" "invar s2" "abs s2 = abs s1 \<union> set is" "len s2 = len s1"
    using Cons.IH [OF s1(2)] Cons.prems(2) s1(4) by auto
  with s1 show ?case by auto
qed simp

lemma or_loop_ok:
  assumes "exact_cursor I docs iinv" "iinv it" "invar s" "docs it \<subseteq> {0..<int (len s)}" "doc_id I it < NO_MORE_DOCS"
  shows "\<exists>s'. or_loop put_bit I it s = Some (Inr s') \<and> invar s' \<and> len s' = len s \<and>
    abs s' = abs s \<union> nat ` {d \<in> docs it. doc_id I it < d}"
  using assms(2-)
proof (induction "nat (NO_MORE_DOCS - doc_id I it)" arbitrary: it s rule: less_induct)
  case less
  note cur = exact_cursor.axioms [OF assms(1)]
  note D = doc_cursor.docs_range [OF cur less.prems(1)]
  let ?d = "first_ge (docs it) (doc_id I it + 1)"
  obtain it' where it': "next_doc I it = Inr (?d, it')" "iinv it'" "docs it' = docs it" "doc_id I it' = ?d"
    using doc_cursor.next_moves [OF cur less.prems(1,4)] by (auto elim: movesE)
  show ?case
  proof (rule first_ge_cases [OF D, of "doc_id I it + 1"])
    assume d: "?d = NO_MORE_DOCS" "\<And>d. d \<in> docs it \<Longrightarrow> d < doc_id I it + 1"
    then have none: "nat ` {d \<in> docs it. doc_id I it < d} = {}" by force
    show ?thesis unfolding none using it'(1) d(1) less.prems(2) by (subst or_loop.simps) simp
  next
    assume d: "?d \<in> docs it" "doc_id I it + 1 \<le> ?d"
    then have bound: "0 \<le> ?d" "nat ?d < len s" "?d < NO_MORE_DOCS" using less.prems(3) D by force+
    obtain s' where s': "put_bit (nat ?d) s = Inr s'" "invar s'" "abs s' = insert (nat ?d) (abs s)" "len s' = len s"
      using set_ok [OF less.prems(2) bound(2)] by blast
    obtain s'' where s'': "or_loop put_bit I it' s' = Some (Inr s'')" "invar s''" "len s'' = len s'"
        "abs s'' = abs s' \<union> nat ` {e \<in> docs it'. doc_id I it' < e}"
      using less.hyps [of it' s'] it' s' d bound less.prems by auto
    have "{e \<in> docs it. doc_id I it < e} = insert ?d {e \<in> docs it. ?d < e}"
      using d first_ge_le [OF D, of _ "doc_id I it + 1"] by (force simp: order_le_less)
    then have "abs s'' = abs s \<union> nat ` {e \<in> docs it. doc_id I it < e}"
      using s''(4) s'(3) it' by auto
    then show ?thesis
      using it'(1) s' s'' bound(3) by (subst or_loop.simps) auto
  qed
qed

end

interpretation fbs: bit_set fbs_get fbs_next_set_bit fbs_len fbs_abs fbs_inv fbs_set fbs_clear fbs_clear_batch
proof
  show "fbs_inv s \<Longrightarrow> fbs_abs s \<subseteq> {..<fbs_len s}" "fbs_inv s \<Longrightarrow> fbs_len s < 2147483648" for s
    by (simp_all add: fbs_inv_def fbs_len_def)
qed (simp_all add: fbs_len_def fbs_get_eq fbs_next_set_bit_eq fbs_set_eq fbs_clear_eq fbs_clear_batch_eq)

lemma word_bit_ext:
  assumes "length a = length b" "\<And>i. word_bit a i = word_bit b i"
  shows "a = b"
proof (rule nth_equalityI [OF assms(1)])
  fix k assume k: "k < length a"
  have "bit (a ! k) j = bit (b ! k) j" if "j < 64" for j
    using assms(2) [of "j + 64 * k"] k assms(1) unfolding word_bit_def word_pos [OF that] by simp
  then show "a ! k = b ! k" by (intro bit_word_eqI) simp
qed

lemma fbs_set_frame: "fbs_set i s = Inr s' \<Longrightarrow> length (fbs_bits s') = length (fbs_bits s) \<and> fbs_num_words s' = fbs_num_words s"
  by (auto simp: fbs_set_def update_word_def rbind_eq_Inr split: if_splits)

lemma default_batch_set_frame:
  "default_batch_set fbs_set is s = Inr s' \<Longrightarrow> length (fbs_bits s') = length (fbs_bits s) \<and> fbs_num_words s' = fbs_num_words s"
  by (induction "is" arbitrary: s) (auto simp: rbind_eq_Inr dest: fbs_set_frame)

lemma update_words_length: "update_words is f bits = Inr bits' \<Longrightarrow> length bits' = length bits"
  by (induction "is" arbitrary: bits) (fastforce simp: update_word_def rbind_eq_Inr split: if_splits)+

lemma update_range_frame:
  "update_range same first mid final a b s = Inr s' \<Longrightarrow>
   length (fbs_bits s') = length (fbs_bits s) \<and> fbs_num_words s' = fbs_num_words s"
  by (auto simp: update_range_def Let_def rbind_eq_Inr update_word_def dest: update_words_length split: if_splits)

lemma fixed_bit_set_eqI:
  assumes "fbs_abs s = fbs_abs t" "length (fbs_bits s) = length (fbs_bits t)" "fbs_num_words s = fbs_num_words t"
    and "fbs_num_bits s = fbs_num_bits t"
  shows "s = t"
proof -
  have "fbs_bits s = fbs_bits t" using assms(1,2) by (intro word_bit_ext) (auto simp: fbs_abs_def set_eq_iff)
  then show ?thesis using assms(3,4) by (cases s, cases t) simp
qed

section \<open>Properties\<close>


text \<open>A set of 70 bits with the bits 3 to 66 set, as the word-wise operations build it.\<close>

definition example_bits :: fixed_bit_set where
  "example_bits = \<lparr>fbs_bits = [- 8, 7], fbs_num_bits = 70, fbs_num_words = 2\<rparr>"

lemma example_bits_built: "rbind (fbs_new 70) (fbs_batch_set 3 67) = Inr example_bits"
  by (simp add: fbs_new_def bits2words_eq fbs_batch_set_def update_range_def update_word_def start_mask_def
      end_mask_def unsigned_shift_def example_bits_def numeral_2_eq_2 mask_eq_exp_minus_1 Let_def)

lemma example_bits_inv: "fbs_inv example_bits" "fbs_len example_bits = 70"
proof -
  obtain s where s: "fbs_new 70 = Inr s" "fbs_inv s" "fbs_num_bits s = 70" using fbs_new_eq [of 70] by auto
  from fbs_batch_set_eq [OF s(2), of 3 67] s example_bits_built show "fbs_inv example_bits" by auto
qed (simp add: fbs_len_def example_bits_def)


text \<open>
  C31: the word-wise \<open>batch_set\<close> of \<open>FixedBitSet\<close> computes the very same bit set as the
  trait's default, which sets the bits of the range one at a time.
\<close>

theorem batch_set_matches_default:
  assumes "fbs_inv s" "a < fbs_len s" "b \<le> fbs_len s"
  shows "fbs_batch_set a b s = default_batch_set fbs_set [a..<b] s"
proof -
  obtain t where t: "fbs_batch_set a b s = Inr t" "fbs_abs t = fbs_abs s \<union> {a..<b}" "fbs_num_bits t = fbs_num_bits s"
    using fbs_batch_set_eq [OF assms [unfolded fbs_len_def]] by blast
  obtain u where u: "default_batch_set fbs_set [a..<b] s = Inr u" "fbs_abs u = fbs_abs s \<union> {a..<b}" "fbs_len u = fbs_len s"
    using fbs.default_batch_set_ok [OF assms(1), of "[a..<b]"] assms(3) by auto
  have "length (fbs_bits t) = length (fbs_bits s) \<and> fbs_num_words t = fbs_num_words s"
    using t(1) unfolding fbs_batch_set_def Let_def by (rule update_range_frame)
  moreover note default_batch_set_frame [OF u(1)]
  ultimately have "t = u" using t u by (intro fixed_bit_set_eqI) (auto simp: fbs_len_def)
  then show ?thesis using t(1) u(1) by simp
qed

theorem batch_set_matches_default_witness:
  "fbs_batch_set 2 70 example_bits = default_batch_set fbs_set [2..<70] example_bits"
  by (rule batch_set_matches_default) (simp_all add: example_bits_inv)

text \<open>
  C32: \<open>next_set_bit\<close> returns the first set index at or after the given one, or the sentinel,
  although it shifts the first word arithmetically; and the iterator over a bit set yields the
  first set index after its current position.
\<close>

theorem next_set_bit_first:
  assumes "fbs_inv s" "i < fbs_len s" "- 1 \<le> current" "current < NO_MORE_DOCS"
  shows "fbs_next_set_bit i s = Inr (first_ge (int ` fbs_abs s) (int i)) \<and>
    (\<exists>c. bit_set_iterator_next fbs_next_set_bit fbs_len s current =
       Inr (let d = first_ge (int ` fbs_abs s) (current + 1) in if d = NO_MORE_DOCS then None else Some d, c))"
  using fbs.next_set_bit_ok [OF assms(1,2)] fbs.bit_set_iterator_next_ok [OF assms(1,3,4)] by simp

theorem next_set_bit_first_witness:
  "fbs_next_set_bit 4 example_bits = Inr (first_ge (int ` fbs_abs example_bits) 4) \<and>
   (\<exists>c. bit_set_iterator_next fbs_next_set_bit fbs_len example_bits 9 =
      Inr (let d = first_ge (int ` fbs_abs example_bits) 10 in if d = NO_MORE_DOCS then None else Some d, c))"
  using next_set_bit_first [OF example_bits_inv(1), of 4 9] by (simp add: example_bits_inv(2))



text \<open>
  C34: \<open>flip\<close> on a range inside one word toggles exactly the bits of that word outside the
  range, and leaves the bits of the range alone.
\<close>

theorem flip_toggles_outside:
  assumes "fbs_inv s" "a < b" "b \<le> fbs_len s" "a div 64 = (b - 1) div 64"
  shows "\<exists>s'. fbs_flip a b s = Inr s' \<and>
    (\<forall>i. i div 64 = a div 64 \<longrightarrow> (i \<in> fbs_abs s' \<longleftrightarrow> (if a \<le> i \<and> i < b then i \<in> fbs_abs s else i \<notin> fbs_abs s)))"
proof -
  let ?m = "NOT (start_mask a) OR NOT (end_mask b)"
  obtain bits where bits: "fbs_flip a b s = Inr (s\<lparr>fbs_bits := bits\<rparr>)" "length bits = length (fbs_bits s)"
      "\<forall>k<length bits. bits ! k = range_word (\<lambda>w. w XOR ?m) (\<lambda>w. w XOR NOT (start_mask a)) (\<lambda>w. NOT w)
         (\<lambda>w. w XOR NOT (end_mask b)) (a div 64) ((b - 1) div 64) k (fbs_bits s ! k)"
    using update_range_spec [OF assms(2) assms(3) [unfolded fbs_len_def] fbs_capacity [OF assms(1)]]
    unfolding fbs_flip_def Let_def by blast
  have k: "a div 64 < length (fbs_bits s)" using assms by (intro fbs_index) (auto simp: fbs_len_def)
  have "0 < b" using assms(2) by simp
  have "i \<in> fbs_abs (s\<lparr>fbs_bits := bits\<rparr>) \<longleftrightarrow> (if a \<le> i \<and> i < b then i \<in> fbs_abs s else i \<notin> fbs_abs s)"
    if i: "i div 64 = a div 64" for i
    using i k bits(2,3) assms(4) in_range_words [OF assms(2), of i]
    by (auto simp: fbs_abs_def word_bit_def range_word_def bit_xor_iff bit_or_iff bit_not_iff bit_start_mask
        bit_end_mask [OF \<open>0 < b\<close>])
  with bits(1) show ?thesis by blast
qed

theorem flip_toggles_outside_witness:
  "\<exists>s'. fbs_flip 8 16 example_bits = Inr s' \<and> 8 \<in> fbs_abs s' \<and> 20 \<notin> fbs_abs s'"
proof -
  have "8 \<in> fbs_abs example_bits" "20 \<in> fbs_abs example_bits"
    by (simp_all add: fbs_abs_def word_bit_def example_bits_def bit_numeral_rec)
  then show ?thesis
    using flip_toggles_outside [OF example_bits_inv(1), of 8 16] by (auto simp: example_bits_inv(2))
qed



end
