(* ===== verification/Bits.thy ===== *)
theory Bits
  imports Bit_Set
begin

text \<open>
  The read-only bit sets of \<^verbatim>\<open>util/bits.rs\<close>: the constant ones, the bits of live documents
  read from a random-access input, \<open>FixedBits\<close> over shared words, and \<open>SparseBits\<close>, which
  finds a document in a sorted column of document ids by galloping from the last position and
  then bisecting. The column and the random-access input are other components: their read
  methods are arguments here.
\<close>

unbundle bit_operations_syntax

section \<open>Constant, live and fixed bits\<close>

definition match_all_get :: "nat \<Rightarrow> nat \<Rightarrow> bool result" where
  "match_all_get len index = Inr True"

definition match_all_is_empty :: "nat \<Rightarrow> bool" where
  "match_all_is_empty len = True"

definition match_no_get :: "nat \<Rightarrow> nat \<Rightarrow> bool result" where
  "match_no_get len index = Inr False"

definition match_no_is_empty :: "nat \<Rightarrow> bool" where
  "match_no_is_empty len = True"

text \<open>\<open>read_byte\<close> is the method of the random-access slice.\<close>

definition live_bits_length :: "nat \<Rightarrow> nat" where
  "live_bits_length count = (count + 7) div 8"

definition live_bits_get :: "(nat \<Rightarrow> u8 result) \<Rightarrow> nat \<Rightarrow> bool result" where
  "live_bits_get read_byte index =
     rbind (read_byte (index div 8)) (\<lambda>bitset. Inr (bitset AND push_bit (index mod 8) 1 \<noteq> 0))"

record fixed_bits =
  fb_num_bits :: nat
  fb_num_words :: nat
  fb_bits :: "i64 list"

definition fb_bits_2_words :: "nat \<Rightarrow> nat" where
  "fb_bits_2_words num_bits = (if num_bits = 0 then 0 else (num_bits - 1) div 64 + 1)"

definition fb_new :: "i64 list \<Rightarrow> nat \<Rightarrow> fixed_bits" where
  "fb_new bits num_bits =
     \<lparr>fb_num_bits = num_bits, fb_num_words = fb_bits_2_words num_bits, fb_bits = bits\<rparr>"

fun count_words :: "i64 list \<Rightarrow> nat list \<Rightarrow> nat \<Rightarrow> nat result" where
  "count_words bits [] set_bits = Inr set_bits"
| "count_words bits (i # is) set_bits =
     rbind (read_word bits i) (\<lambda>w. count_words bits is (set_bits + count_ones w))"

definition fb_cardinality :: "fixed_bits \<Rightarrow> nat result" where
  "fb_cardinality s = count_words (fb_bits s) [0..<fb_num_words s] 0"

definition fb_length :: "fixed_bits \<Rightarrow> nat" where
  "fb_length s = fb_num_bits s"

definition fb_get :: "nat \<Rightarrow> fixed_bits \<Rightarrow> bool result" where
  "fb_get index s =
     (if \<not> index < fb_num_bits s then Inl (Panic ''index < num_bits'')
      else rbind (read_word (fb_bits s) (index div 64)) (\<lambda>w. Inr (w AND push_bit (index mod 64) 1 \<noteq> 0)))"

lemma count_words_eq:
  "(\<And>i. i \<in> set is \<Longrightarrow> i < length bits) \<Longrightarrow> count_words bits is k = Inr (k + (\<Sum>i\<leftarrow>is. count_ones (bits ! i)))"
  by (induction "is" arbitrary: k) (auto simp: read_word_def)

lemma fb_bits_2_words_eq: "fb_bits_2_words n = (n + 63) div 64"
  by (cases n) (simp_all add: fb_bits_2_words_def)

section \<open>SparseBits\<close>

record sparse_ctx =
  sc_index :: int
  sc_doc_id :: int
  sc_next_doc_id :: int

definition sc_new :: "int \<Rightarrow> sparse_ctx" where
  "sc_new first_doc_id = \<lparr>sc_index = - 1, sc_doc_id = - 1, sc_next_doc_id = first_doc_id\<rparr>"

definition sc_reset :: "int \<Rightarrow> sparse_ctx \<Rightarrow> sparse_ctx" where
  "sc_reset first_doc_id ctx = ctx\<lparr>sc_index := - 1, sc_doc_id := - 1, sc_next_doc_id := first_doc_id\<rparr>"

record sparse_bits =
  sb_max_doc :: int
  sb_doc_ids_length :: int
  sb_first_doc_id :: int
  sb_doc_ids :: "int \<Rightarrow> int result"

definition sb_new :: "int \<Rightarrow> int \<Rightarrow> (int \<Rightarrow> int result) \<Rightarrow> sparse_bits result" where
  "sb_new max_doc n doc_ids =
     rbind (if 0 < n then rbind (doc_ids (n - 1)) (\<lambda>d. Inr (max_doc \<le> d)) else Inr False) (\<lambda>bad.
       if bad then Inl (IllegalArgument ''max_doc must be > the last element of doc_ids'')
       else rbind (if n = 0 then Inr max_doc else doc_ids 0) (\<lambda>first.
         Inr \<lparr>sb_max_doc = max_doc, sb_doc_ids_length = n, sb_first_doc_id = first, sb_doc_ids = doc_ids\<rparr>))"

text \<open>The loop of \<open>gallop\<close> does not end if the step is not positive; not returning is \<open>None\<close>.\<close>

partial_function (option) gallop_loop ::
  "sparse_bits \<Rightarrow> int \<Rightarrow> int \<Rightarrow> sparse_ctx \<Rightarrow> (int \<times> sparse_ctx) result option" where
  "gallop_loop s doc hi_index ctx =
     (if sb_doc_ids_length s \<le> hi_index
      then Some (Inr (sb_doc_ids_length s, ctx\<lparr>sc_next_doc_id := sb_max_doc s\<rparr>))
      else case sb_doc_ids s hi_index of
        Inl e \<Rightarrow> Some (Inl e)
      | Inr hi_doc_id \<Rightarrow>
          if doc < hi_doc_id then Some (Inr (hi_index, ctx\<lparr>sc_next_doc_id := hi_doc_id\<rparr>))
          else (let delta = hi_index - sc_index ctx
                in gallop_loop s doc (hi_index + delta * 2) (ctx\<lparr>sc_index := hi_index, sc_doc_id := hi_doc_id\<rparr>)))"

definition gallop :: "sparse_bits \<Rightarrow> int \<Rightarrow> sparse_ctx \<Rightarrow> (int \<times> sparse_ctx) result option" where
  "gallop s doc ctx =
     (let ctx' = ctx\<lparr>sc_index := sc_index ctx + 1, sc_doc_id := sc_next_doc_id ctx\<rparr>
      in gallop_loop s doc (sc_index ctx' + 1) ctx')"

function sb_binary_search :: "sparse_bits \<Rightarrow> int \<Rightarrow> int \<Rightarrow> sparse_ctx \<Rightarrow> sparse_ctx result" where
  "sb_binary_search s hi_index doc ctx =
     (if sc_index ctx + 1 < hi_index
      then let mid_index = sc_index ctx + (hi_index - sc_index ctx) div 2
           in rbind (sb_doc_ids s mid_index) (\<lambda>mid_doc_id.
                if doc < mid_doc_id then sb_binary_search s mid_index doc (ctx\<lparr>sc_next_doc_id := mid_doc_id\<rparr>)
                else sb_binary_search s hi_index doc (ctx\<lparr>sc_index := mid_index, sc_doc_id := mid_doc_id\<rparr>))
      else Inr ctx)"
  by pat_completeness auto
termination
  by (relation "measure (\<lambda>(s, hi, d, ctx). nat (hi - sc_index ctx))") auto

declare sb_binary_search.simps [simp del]

definition check_invariants :: "sparse_bits \<Rightarrow> sparse_ctx \<Rightarrow> int \<Rightarrow> int \<Rightarrow> unit result" where
  "check_invariants s ctx next_index doc =
     (if doc < sc_doc_id ctx \<or> sc_next_doc_id ctx \<le> doc then Inl (IllegalState ''internal error a'')
      else rbind (if sc_index ctx = - 1 \<and> sc_doc_id ctx = - 1 then Inr True
                  else rbind (sb_doc_ids s (sc_index ctx)) (\<lambda>d. Inr (sc_doc_id ctx = d))) (\<lambda>b.
        if \<not> b then Inl (IllegalState ''internal error b'')
        else rbind (if next_index = sb_doc_ids_length s \<and> sc_next_doc_id ctx = sb_max_doc s then Inr True
                    else rbind (sb_doc_ids s next_index) (\<lambda>d. Inr (sc_next_doc_id ctx = d))) (\<lambda>c.
          if \<not> c then Inl (IllegalState ''internal error c'') else Inr ())))"

definition exponential_search :: "sparse_bits \<Rightarrow> int \<Rightarrow> sparse_ctx \<Rightarrow> sparse_ctx result option" where
  "exponential_search s doc ctx =
     (case gallop s doc ctx of
        None \<Rightarrow> None
      | Some (Inl e) \<Rightarrow> Some (Inl e)
      | Some (Inr (hi_index, ctx')) \<Rightarrow>
          Some (rbind (check_invariants s ctx' hi_index doc) (\<lambda>_. sb_binary_search s hi_index doc ctx')))"

definition sb_get64 :: "sparse_bits \<Rightarrow> int \<Rightarrow> sparse_ctx \<Rightarrow> (bool \<times> sparse_ctx) result option" where
  "sb_get64 s doc ctx0 =
     (let ctx1 = (if doc < sc_doc_id ctx0 then sc_reset (sb_first_doc_id s) ctx0 else ctx0)
      in case (if sc_next_doc_id ctx1 \<le> doc then exponential_search s doc ctx1 else Some (Inr ctx1)) of
           None \<Rightarrow> None
         | Some (Inl e) \<Rightarrow> Some (Inl e)
         | Some (Inr ctx2) \<Rightarrow>
             Some (rbind (check_invariants s ctx2 (sc_index ctx2 + 1) doc)
               (\<lambda>_. Inr (doc = sc_doc_id ctx2, ctx2))))"

definition sb_len :: "sparse_bits \<Rightarrow> nat result" where
  "sb_len s =
     (case long_to_int_exact (word_of_int (sb_max_doc s)) of
        Inl e \<Rightarrow> Inl (Panic ''max_doc too big'') | Inr _ \<Rightarrow> Inr (nat (sb_max_doc s)))"

definition sb_context :: "sparse_bits \<Rightarrow> sparse_ctx" where
  "sb_context s = sc_new (sb_first_doc_id s)"

text \<open>\<open>get\<close> of \<open>Bits\<close> uses a fresh context, \<open>get\<close> of \<open>BitsMut\<close> the one kept in the set.\<close>

definition sb_get :: "sparse_bits \<Rightarrow> nat \<Rightarrow> bool result option" where
  "sb_get s index =
     (case sb_get64 s (int index) (sb_context s) of
        None \<Rightarrow> None | Some r \<Rightarrow> Some (rbind r (\<lambda>(b, ctx). Inr b)))"

text \<open>The column holds the strictly increasing document ids \<open>xs\<close>, all below \<open>max_doc\<close>.\<close>

definition column :: "int list \<Rightarrow> int \<Rightarrow> int result" where
  "column xs i = (if 0 \<le> i \<and> i < int (length xs) then Inr (xs ! nat i) else Inl (Panic ''index out of bounds''))"

definition sparse_inv :: "int list \<Rightarrow> sparse_bits \<Rightarrow> bool" where
  "sparse_inv xs s \<longleftrightarrow>
     sorted_wrt (<) xs \<and> (\<forall>x\<in>set xs. 0 \<le> x \<and> x < sb_max_doc s) \<and> sb_doc_ids_length s = int (length xs) \<and>
     sb_first_doc_id s = (if xs = [] then sb_max_doc s else xs ! 0) \<and>
     (\<forall>i. 0 \<le> i \<and> i < int (length xs) \<longrightarrow> sb_doc_ids s i = Inr (xs ! nat i))"

definition at_or_max :: "int list \<Rightarrow> sparse_bits \<Rightarrow> int \<Rightarrow> int" where
  "at_or_max xs s i = (if i = int (length xs) then sb_max_doc s else xs ! nat i)"

definition ctx_between :: "int list \<Rightarrow> sparse_bits \<Rightarrow> sparse_ctx \<Rightarrow> int \<Rightarrow> bool" where
  "ctx_between xs s ctx hi \<longleftrightarrow>
     - 1 \<le> sc_index ctx \<and> sc_index ctx < hi \<and> hi \<le> int (length xs) \<and>
     sc_doc_id ctx = (if sc_index ctx = - 1 then - 1 else xs ! nat (sc_index ctx)) \<and>
     sc_next_doc_id ctx = at_or_max xs s hi"

abbreviation ctx_inv :: "int list \<Rightarrow> sparse_bits \<Rightarrow> sparse_ctx \<Rightarrow> bool" where
  "ctx_inv xs s ctx \<equiv> ctx_between xs s ctx (sc_index ctx + 1)"

lemma sb_new_inv:
  assumes "sorted_wrt (<) xs" "\<And>x. x \<in> set xs \<Longrightarrow> 0 \<le> x \<and> x < max_doc"
  shows "\<exists>s. sb_new max_doc (int (length xs)) (column xs) = Inr s \<and> sparse_inv xs s \<and> ctx_inv xs s (sb_context s) \<and>
    sb_max_doc s = max_doc"
proof (cases "xs = []")
  case True
  then show ?thesis
    by (auto simp: sb_new_def sparse_inv_def ctx_between_def sb_context_def sc_new_def at_or_max_def)
next
  case False
  then have "xs ! (length xs - 1) \<in> set xs" by simp
  then have "\<not> max_doc \<le> xs ! (length xs - Suc 0)" using assms(2) by (simp add: not_le)
  moreover have "nat (int (length xs) - 1) = length xs - 1" using False by (simp add: nat_diff_distrib)
  ultimately show ?thesis
    using False assms
    by (auto simp: sb_new_def column_def sparse_inv_def ctx_between_def sb_context_def sc_new_def at_or_max_def)
qed

lemma check_invariants_ok:
  assumes "sparse_inv xs s" "ctx_between xs s ctx hi" "sc_doc_id ctx \<le> d" "d < sc_next_doc_id ctx"
  shows "check_invariants s ctx hi d = Inr ()"
proof -
  have "sb_doc_ids s hi = Inr (xs ! nat hi)" if "hi \<noteq> int (length xs)"
    using assms(1,2) that by (auto simp: sparse_inv_def ctx_between_def)
  moreover have "sb_doc_ids s (sc_index ctx) = Inr (xs ! nat (sc_index ctx))" if "sc_index ctx \<noteq> - 1"
    using assms(1,2) that by (auto simp: sparse_inv_def ctx_between_def)
  ultimately show ?thesis
    using assms by (auto simp: check_invariants_def ctx_between_def at_or_max_def sparse_inv_def)
qed

lemma gallop_loop_ok:
  assumes "sparse_inv xs s" "0 \<le> sc_index ctx" "sc_index ctx < hi" "sc_index ctx < int (length xs)"
    and "sc_doc_id ctx = xs ! nat (sc_index ctx)" "sc_doc_id ctx \<le> d" "d < sb_max_doc s"
  shows "\<exists>h c. gallop_loop s d hi ctx = Some (Inr (h, c)) \<and> ctx_between xs s c h \<and> 0 \<le> sc_index c \<and>
    sc_doc_id c \<le> d \<and> d < sc_next_doc_id c"
  using assms
proof (induction "nat (int (length xs) - hi)" arbitrary: hi ctx rule: less_induct)
  case less
  show ?case
  proof (cases "int (length xs) \<le> hi")
    case True
    then show ?thesis
      using less.prems by (subst gallop_loop.simps) (auto simp: sparse_inv_def ctx_between_def at_or_max_def)
  next
    case False
    have hi: "sb_doc_ids s hi = Inr (xs ! nat hi)" using less.prems False by (auto simp: sparse_inv_def)
    show ?thesis
    proof (cases "d < xs ! nat hi")
      case True
      with hi False less.prems show ?thesis
        by (subst gallop_loop.simps) (auto simp: sparse_inv_def ctx_between_def at_or_max_def)
    next
      case behind: False
      let ?ctx = "ctx\<lparr>sc_index := hi, sc_doc_id := xs ! nat hi\<rparr>"
      have "gallop_loop s d hi ctx = gallop_loop s d (hi + (hi - sc_index ctx) * 2) ?ctx"
        using hi False behind less.prems(1) by (subst gallop_loop.simps) (auto simp: sparse_inv_def Let_def)
      with less.hyps [of "hi + (hi - sc_index ctx) * 2" ?ctx] less.prems False behind show ?thesis by simp
    qed
  qed
qed

lemma sb_binary_search_ok:
  assumes "sparse_inv xs s" "ctx_between xs s ctx hi" "0 \<le> sc_index ctx" "sc_doc_id ctx \<le> d" "d < sc_next_doc_id ctx"
  shows "\<exists>c. sb_binary_search s hi d ctx = Inr c \<and> ctx_inv xs s c \<and> sc_doc_id c \<le> d \<and> d < sc_next_doc_id c"
  using assms
proof (induction s hi d ctx rule: sb_binary_search.induct)
  case (1 s hi d ctx)
  show ?case
  proof (cases "sc_index ctx + 1 < hi")
    case False
    then have "hi = sc_index ctx + 1" using 1 by (auto simp: ctx_between_def)
    with 1 show ?thesis by (subst sb_binary_search.simps) auto
  next
    case True
    let ?m = "sc_index ctx + (hi - sc_index ctx) div 2"
    have m: "sc_index ctx < ?m" "?m < hi" using True by auto
    then have get: "sb_doc_ids s ?m = Inr (xs ! nat ?m)" using 1 by (auto simp: sparse_inv_def ctx_between_def)
    have low: "ctx_between xs s (ctx\<lparr>sc_next_doc_id := xs ! nat ?m\<rparr>) ?m"
      and high: "ctx_between xs s (ctx\<lparr>sc_index := ?m, sc_doc_id := xs ! nat ?m\<rparr>) hi"
      using 1 m by (auto simp: ctx_between_def at_or_max_def)
    show ?thesis
    proof (cases "d < xs ! nat ?m")
      case left: True
      then show ?thesis
        using "1.IH"(1) [OF True refl get left "1.prems"(1) low] "1.prems" True get
        by (subst sb_binary_search.simps) (simp add: Let_def)
    next
      case right: False
      then show ?thesis
        using "1.IH"(2) [OF True refl get right "1.prems"(1) high] "1.prems" True get m
        by (subst sb_binary_search.simps) (simp add: Let_def)
    qed
  qed
qed

lemma exponential_search_ok:
  assumes "sparse_inv xs s" "ctx_inv xs s ctx" "sc_next_doc_id ctx \<le> d" "d < sb_max_doc s"
  shows "\<exists>c. exponential_search s d ctx = Some (Inr c) \<and> ctx_inv xs s c \<and> sc_doc_id c \<le> d \<and> d < sc_next_doc_id c"
proof -
  have idx: "sc_index ctx + 1 < int (length xs)" "sc_next_doc_id ctx = xs ! nat (sc_index ctx + 1)" "0 \<le> sc_index ctx + 1"
    using assms by (auto simp: ctx_between_def at_or_max_def split: if_splits)
  let ?c = "ctx\<lparr>sc_index := sc_index ctx + 1, sc_doc_id := sc_next_doc_id ctx\<rparr>"
  obtain h c where hc: "gallop_loop s d (sc_index ?c + 1) ?c = Some (Inr (h, c))" "ctx_between xs s c h" "0 \<le> sc_index c"
      "sc_doc_id c \<le> d" "d < sc_next_doc_id c"
    using gallop_loop_ok [OF assms(1), of ?c "sc_index ?c + 1" d] idx assms by auto
  with sb_binary_search_ok [OF assms(1) hc(2-5)] check_invariants_ok [OF assms(1) hc(2,4,5)] show ?thesis
    by (auto simp: exponential_search_def gallop_def Let_def)
qed

lemma ctx_member:
  assumes "sparse_inv xs s" "ctx_inv xs s ctx" "0 \<le> d" "sc_doc_id ctx \<le> d" "d < sc_next_doc_id ctx"
  shows "d = sc_doc_id ctx \<longleftrightarrow> d \<in> set xs"
proof
  assume "d = sc_doc_id ctx"
  then show "d \<in> set xs" using assms by (auto simp: ctx_between_def split: if_splits)
next
  assume "d \<in> set xs"
  then obtain j where j: "j < length xs" "d = xs ! j" by (auto simp: in_set_conv_nth)
  let ?i = "sc_index ctx"
  have less: "xs ! a < xs ! b" if "a < b" "b < length xs" for a b
    using sorted_wrt_nth_less [of "(<)" xs a b] assms(1) that by (auto simp: sparse_inv_def)
  have "\<not> ?i < int j"
  proof
    assume "?i < int j"
    then have "nat (?i + 1) \<le> j" "?i + 1 \<noteq> int (length xs)" using j(1) by auto
    then have "sc_next_doc_id ctx \<le> xs ! j"
      using assms(2) less [of "nat (?i + 1)" j] j(1) by (cases "nat (?i + 1) = j") (auto simp: ctx_between_def at_or_max_def)
    then show False using assms(5) j(2) by simp
  qed
  moreover have "\<not> int j < ?i"
  proof
    assume "int j < ?i"
    then have "xs ! j < sc_doc_id ctx" using assms(2) less [of j "nat ?i"] by (auto simp: ctx_between_def)
    then show False using assms(4) j(2) by simp
  qed
  ultimately have "?i = int j" by simp
  then show "d = sc_doc_id ctx" using j assms(2) by (simp add: ctx_between_def)
qed

lemma sb_get64_ok:
  assumes "sparse_inv xs s" "ctx_inv xs s ctx" "0 \<le> d" "d < sb_max_doc s"
  shows "\<exists>c. sb_get64 s d ctx = Some (Inr (d \<in> set xs, c)) \<and> ctx_inv xs s c"
proof -
  let ?c1 = "if d < sc_doc_id ctx then sc_reset (sb_first_doc_id s) ctx else ctx"
  have c1: "ctx_inv xs s ?c1" "sc_doc_id ?c1 \<le> d"
    using assms by (auto simp: sc_reset_def ctx_between_def at_or_max_def sparse_inv_def)
  obtain c2 where c2: "(if sc_next_doc_id ?c1 \<le> d then exponential_search s d ?c1 else Some (Inr ?c1)) = Some (Inr c2)"
      "ctx_inv xs s c2" "sc_doc_id c2 \<le> d" "d < sc_next_doc_id c2"
    using exponential_search_ok [OF assms(1) c1(1) _ assms(4)] c1 by (cases "sc_next_doc_id ?c1 \<le> d") auto
  then show ?thesis
    using check_invariants_ok [OF assms(1) c2(2-4)] ctx_member [OF assms(1) c2(2) assms(3) c2(3,4)]
    unfolding sb_get64_def Let_def c2(1) by simp
qed

section \<open>Properties\<close>

text \<open>A sequence of lookups that share a context.\<close>

fun sb_gets :: "sparse_bits \<Rightarrow> int list \<Rightarrow> sparse_ctx \<Rightarrow> bool list result option" where
  "sb_gets s [] ctx = Some (Inr [])"
| "sb_gets s (d # ds) ctx =
     (case sb_get64 s d ctx of
        None \<Rightarrow> None
      | Some (Inl e) \<Rightarrow> Some (Inl e)
      | Some (Inr (b, ctx')) \<Rightarrow>
          (case sb_gets s ds ctx' of None \<Rightarrow> None | Some r \<Rightarrow> Some (rbind r (\<lambda>bs. Inr (b # bs)))))"

lemma sb_gets_ok:
  assumes "sparse_inv xs s" "ctx_inv xs s ctx" "\<And>d. d \<in> set ds \<Longrightarrow> 0 \<le> d \<and> d < sb_max_doc s"
  shows "sb_gets s ds ctx = Some (Inr (map (\<lambda>d. d \<in> set xs) ds))"
  using assms(2,3)
proof (induction ds arbitrary: ctx)
  case (Cons d ds)
  then obtain c where c: "sb_get64 s d ctx = Some (Inr (d \<in> set xs, c))" "ctx_inv xs s c"
    using sb_get64_ok [OF assms(1) Cons.prems(1), of d] by auto
  with Cons.IH [OF c(2)] Cons.prems(2) show ?case by simp
qed simp

text \<open>
  C15: lookups in sparse bits over a sorted column terminate and answer membership, for every
  sequence of documents in range, forwards or backwards, on one shared context; none of the
  internal consistency checks fails.
\<close>

theorem sparse_bits_lookup:
  assumes "sorted_wrt (<) xs" "list_all (\<lambda>x. 0 \<le> x \<and> x < max_doc) xs" "list_all (\<lambda>d. 0 \<le> d \<and> d < max_doc) ds"
  shows "\<exists>s. sb_new max_doc (int (length xs)) (column xs) = Inr s \<and>
    sb_gets s ds (sb_context s) = Some (Inr (map (\<lambda>d. d \<in> set xs) ds))"
proof -
  obtain s where s: "sb_new max_doc (int (length xs)) (column xs) = Inr s" "sparse_inv xs s" "ctx_inv xs s (sb_context s)"
      "sb_max_doc s = max_doc"
    using sb_new_inv [of xs max_doc] assms by (auto simp: list_all_iff)
  with sb_gets_ok [OF s(2,3), of ds] assms(3) show ?thesis by (auto simp: list_all_iff)
qed

theorem sparse_bits_lookup_witness:
  "\<exists>s. sb_new 100 5 (column [3, 8, 20, 21, 90]) = Inr s \<and>
     sb_gets s [8, 90, 20, 19, 99] (sb_context s) = Some (Inr [True, True, True, False, False])"
  using sparse_bits_lookup [of "[3, 8, 20, 21, 90]" 100 "[8, 90, 20, 19, 99]"] by simp



end
