(* ===== verification/Doc_Id_Set.thy ===== *)
theory Doc_Id_Set
  imports Bit_Set
begin

text \<open>
  The document id sets of \<^verbatim>\<open>util/doc_id_set.rs\<close> and their iterators: over a bit set, over an
  array of 16-bit ids, over the complement of a set, and the enums that dispatch to them.
  \<open>bounded_cursor\<close> is what the clients of these iterators rely on: the values \<open>next\<close> and
  \<open>advance\<close> return, for targets below a limit; a \<open>forward_cursor\<close> does not fail beyond it either.
  \<open>run_moves\<close> runs a sequence of calls.
\<close>

section \<open>Bit sets\<close>

record 'b bit_doc_id_set =
  bds_set :: 'b
  bds_cost :: nat

definition bit_doc_id_set_new :: "'b \<Rightarrow> nat \<Rightarrow> 'b bit_doc_id_set" where
  "bit_doc_id_set_new b c = \<lparr>bds_set = b, bds_cost = c\<rparr>"

definition bit_doc_id_set_with_bits :: "('b \<Rightarrow> nat) \<Rightarrow> 'b \<Rightarrow> 'b bit_doc_id_set" where
  "bit_doc_id_set_with_bits cardinality b = \<lparr>bds_set = b, bds_cost = cardinality b\<rparr>"

record 'b bit_set_doc =
  bsd_bits :: 'b
  bsd_length :: nat
  bsd_cost :: nat
  bsd_doc :: int

definition bit_set_doc_new :: "('b \<Rightarrow> nat) \<Rightarrow> 'b \<Rightarrow> nat \<Rightarrow> 'b bit_set_doc result" where
  "bit_set_doc_new len b c = Inr \<lparr>bsd_bits = b, bsd_length = len b, bsd_cost = c, bsd_doc = - 1\<rparr>"

definition bit_set_doc_set_doc :: "int \<Rightarrow> 'b bit_set_doc \<Rightarrow> 'b bit_set_doc" where
  "bit_set_doc_set_doc d s = s\<lparr>bsd_doc := d\<rparr>"

definition bit_doc_id_set_iterator :: "('b \<Rightarrow> nat) \<Rightarrow> 'b bit_doc_id_set \<Rightarrow> 'b bit_set_doc option result" where
  "bit_doc_id_set_iterator len d = rbind (bit_set_doc_new len (bds_set d) (bds_cost d)) (\<lambda>it. Inr (Some it))"

definition bit_set_doc_advance ::
  "(nat \<Rightarrow> 'b \<Rightarrow> int result) \<Rightarrow> int \<Rightarrow> 'b bit_set_doc \<Rightarrow> (int \<times> 'b bit_set_doc) result" where
  "bit_set_doc_advance next_set_bit target s =
     (if as_i32 (int (bsd_length s)) \<le> target then Inr (NO_MORE_DOCS, s\<lparr>bsd_doc := NO_MORE_DOCS\<rparr>)
      else rbind (next_set_bit (as_usize target) (bsd_bits s)) (\<lambda>d. Inr (d, s\<lparr>bsd_doc := d\<rparr>)))"

definition bit_set_doc_next ::
  "(nat \<Rightarrow> 'b \<Rightarrow> int result) \<Rightarrow> 'b bit_set_doc \<Rightarrow> (int \<times> 'b bit_set_doc) result" where
  "bit_set_doc_next next_set_bit s = rbind (inc_i32 (bsd_doc s)) (\<lambda>nxt. bit_set_doc_advance next_set_bit nxt s)"

definition bit_set_doc_iter :: "(nat \<Rightarrow> 'b \<Rightarrow> int result) \<Rightarrow> 'b bit_set_doc doc_iterator" where
  "bit_set_doc_iter next_set_bit =
     one_phase bsd_doc (bit_set_doc_next next_set_bit) (bit_set_doc_advance next_set_bit) bsd_cost"

section \<open>Arrays of 16-bit ids\<close>

record short_array_set =
  sas_docs :: "u16 list"
  sas_length :: nat

definition short_array_set_new :: "u16 list \<Rightarrow> nat \<Rightarrow> short_array_set" where
  "short_array_set_new docs n = \<lparr>sas_docs = docs, sas_length = n\<rparr>"

record short_array =
  sa_docs :: "u16 list"
  sa_length :: nat
  sa_i :: int
  sa_doc :: int

definition short_array_new :: "u16 list \<Rightarrow> nat \<Rightarrow> short_array" where
  "short_array_new docs n = \<lparr>sa_docs = docs, sa_length = n, sa_i = - 1, sa_doc = - 1\<rparr>"

definition short_array_set_iterator :: "short_array_set \<Rightarrow> short_array option result" where
  "short_array_set_iterator d = Inr (Some (short_array_new (sas_docs d) (sas_length d)))"

text \<open>The unchecked reads of the source are reads of an index below \<open>length\<close>.\<close>

definition short_array_at :: "int \<Rightarrow> short_array \<Rightarrow> int result" where
  "short_array_at i s =
     (if 0 \<le> i \<and> nat i < length (sa_docs s) then Inr (uint (sa_docs s ! nat i))
      else Inl (Panic ''read out of bounds''))"

definition short_array_next :: "short_array \<Rightarrow> (int \<times> short_array) result" where
  "short_array_next s =
     rbind (inc_i32 (sa_i s)) (\<lambda>i.
       if sa_length s \<le> as_usize i then Inr (NO_MORE_DOCS, s\<lparr>sa_i := i\<rparr>)
       else rbind (short_array_at i s) (\<lambda>d. Inr (d, s\<lparr>sa_i := i, sa_doc := d\<rparr>)))"

definition short_array_advance :: "int \<Rightarrow> short_array \<Rightarrow> (int \<times> short_array) result" where
  "short_array_advance target s =
     rbind (inc_i32 (sa_i s)) (\<lambda>lo.
       if sa_length s \<le> as_usize lo then Inr (NO_MORE_DOCS, s\<lparr>sa_doc := NO_MORE_DOCS\<rparr>)
       else if length (sa_docs s) < sa_length s then Inl (Panic ''slice index out of bounds'')
       else let slice = drop (as_usize lo) (take (sa_length s) (sa_docs s));
                adv = search_pos (map uint slice) (uint (word_of_int target :: u16));
                i = sa_i s + as_i32 (int (adv + 1))
            in rbind (if i < as_i32 (int (sa_length s)) then short_array_at i s else Inr NO_MORE_DOCS) (\<lambda>d.
                 Inr (d, s\<lparr>sa_i := i, sa_doc := d\<rparr>)))"

definition short_array_iter :: "short_array doc_iterator" where
  "short_array_iter = one_phase sa_doc short_array_next short_array_advance sa_length"

section \<open>The complement of a set\<close>

record 'd not_doc_id_set =
  nds_set :: 'd
  nds_max_doc :: int

definition not_doc_id_set_new :: "'d \<Rightarrow> int \<Rightarrow> 'd not_doc_id_set" where
  "not_doc_id_set_new d m = \<lparr>nds_set = d, nds_max_doc = m\<rparr>"

record 'i not_doc =
  nd_max_doc :: int
  nd_doc :: int
  nd_next_skipped :: int
  nd_iterator :: 'i

definition not_doc_new :: "'i \<Rightarrow> int \<Rightarrow> 'i not_doc" where
  "not_doc_new it m = \<lparr>nd_max_doc = m, nd_doc = - 1, nd_next_skipped = - 1, nd_iterator = it\<rparr>"

definition not_doc_id_set_iterator ::
  "('d \<Rightarrow> 'i option result) \<Rightarrow> 'd not_doc_id_set \<Rightarrow> 'i not_doc option result" where
  "not_doc_id_set_iterator iterator d =
     rbind (iterator (nds_set d)) (\<lambda>r.
       case r of Some it \<Rightarrow> Inr (Some (not_doc_new it (nds_max_doc d))) | None \<Rightarrow> Inr None)"

function not_doc_loop ::
  "('i, 'e) doc_iterator_scheme \<Rightarrow> 'i not_doc \<Rightarrow> (int \<times> 'i not_doc) result" where
  "not_doc_loop I s =
     (if nd_max_doc s \<le> nd_doc s then Inr (NO_MORE_DOCS, s\<lparr>nd_doc := NO_MORE_DOCS\<rparr>)
      else if \<not> nd_doc s \<le> nd_next_skipped s then Inl (Panic ''self.doc <= self.next_skipped_doc'')
      else if nd_doc s \<noteq> nd_next_skipped s then Inr (nd_doc s, s)
      else case next_doc I (nd_iterator s) of
        Inl e \<Rightarrow> Inl e
      | Inr (d, it) \<Rightarrow> not_doc_loop I (s\<lparr>nd_doc := nd_doc s + 1, nd_next_skipped := d, nd_iterator := it\<rparr>))"
  by pat_completeness auto
termination
  by (relation "measure (\<lambda>(I, s). nat (nd_max_doc s - nd_doc s))") auto

declare not_doc_loop.simps [simp del]

definition not_doc_advance ::
  "('i, 'e) doc_iterator_scheme \<Rightarrow> int \<Rightarrow> 'i not_doc \<Rightarrow> (int \<times> 'i not_doc) result" where
  "not_doc_advance I target s0 =
     (let s = s0\<lparr>nd_doc := target\<rparr>
      in rbind (if nd_next_skipped s < nd_doc s
                then rbind (advance I (nd_doc s) (nd_iterator s)) (\<lambda>(d, it).
                       Inr (s\<lparr>nd_next_skipped := d, nd_iterator := it\<rparr>))
                else Inr s)
           (not_doc_loop I))"

definition not_doc_next :: "('i, 'e) doc_iterator_scheme \<Rightarrow> 'i not_doc \<Rightarrow> (int \<times> 'i not_doc) result" where
  "not_doc_next I s = rbind (inc_i32 (nd_doc s)) (\<lambda>adv. not_doc_advance I adv s)"

definition not_doc_cost :: "'i not_doc \<Rightarrow> nat" where
  "not_doc_cost s = as_usize (nd_max_doc s)"

definition not_doc_iter :: "('i, 'e) doc_iterator_scheme \<Rightarrow> 'i not_doc doc_iterator" where
  "not_doc_iter I = one_phase nd_doc (not_doc_next I) (not_doc_advance I) not_doc_cost"

section \<open>The enums\<close>

datatype doc_id_set_enum =
    ShortArray short_array_set
  | IntArray "int list \<times> nat"
  | NotDocId "short_array_set not_doc_id_set"
  | BitDocId "fixed_bit_set bit_doc_id_set"

datatype doc_iter_enum =
    ShortArrayIter short_array
  | IntArrayIter int_array
  | NotDocIter "short_array not_doc"
  | BitDocIter "fixed_bit_set bit_set_doc"

definition doc_id_set_enum_iterator :: "doc_id_set_enum \<Rightarrow> doc_iter_enum option result" where
  "doc_id_set_enum_iterator d =
     (case d of
        ShortArray s \<Rightarrow> rbind (short_array_set_iterator s) (\<lambda>r. Inr (map_option ShortArrayIter r))
      | IntArray s \<Rightarrow> rbind (int_array_set_iterator s) (\<lambda>r. Inr (map_option IntArrayIter r))
      | NotDocId s \<Rightarrow> rbind (not_doc_id_set_iterator short_array_set_iterator s) (\<lambda>r. Inr (map_option NotDocIter r))
      | BitDocId s \<Rightarrow> rbind (bit_doc_id_set_iterator fbs_len s) (\<lambda>r. Inr (map_option BitDocIter r)))"

definition doc_iter_enum_default :: doc_iter_enum where
  "doc_iter_enum_default = IntArrayIter int_array_empty"

text \<open>A call on the variant's iterator, its new state put back under the same constructor.\<close>

definition rewrap :: "('s \<Rightarrow> doc_iter_enum) \<Rightarrow> ('a \<times> 's) result \<Rightarrow> ('a \<times> doc_iter_enum) result" where
  "rewrap wrap r = rbind r (\<lambda>(x, s). Inr (x, wrap s))"

definition dispatch ::
  "(short_array \<Rightarrow> ('a \<times> short_array) result) \<Rightarrow> (int_array \<Rightarrow> ('a \<times> int_array) result) \<Rightarrow>
   (short_array not_doc \<Rightarrow> ('a \<times> short_array not_doc) result) \<Rightarrow>
   (fixed_bit_set bit_set_doc \<Rightarrow> ('a \<times> fixed_bit_set bit_set_doc) result) \<Rightarrow>
   doc_iter_enum \<Rightarrow> ('a \<times> doc_iter_enum) result" where
  "dispatch f g h k e =
     (case e of
        ShortArrayIter i \<Rightarrow> rewrap ShortArrayIter (f i)
      | IntArrayIter i \<Rightarrow> rewrap IntArrayIter (g i)
      | NotDocIter i \<Rightarrow> rewrap NotDocIter (h i)
      | BitDocIter i \<Rightarrow> rewrap BitDocIter (k i))"

abbreviation short_not_iter :: "short_array not_doc doc_iterator" where
  "short_not_iter \<equiv> not_doc_iter short_array_iter"

abbreviation fbs_doc_iter :: "fixed_bit_set bit_set_doc doc_iterator" where
  "fbs_doc_iter \<equiv> bit_set_doc_iter fbs_next_set_bit"

definition doc_iter_enum_doc_id :: "doc_iter_enum \<Rightarrow> int" where
  "doc_iter_enum_doc_id e =
     (case e of
        ShortArrayIter i \<Rightarrow> doc_id short_array_iter i
      | IntArrayIter i \<Rightarrow> doc_id int_array_iter i
      | NotDocIter i \<Rightarrow> doc_id short_not_iter i
      | BitDocIter i \<Rightarrow> doc_id fbs_doc_iter i)"

definition doc_iter_enum_next :: "doc_iter_enum \<Rightarrow> (int \<times> doc_iter_enum) result" where
  "doc_iter_enum_next =
     dispatch (next_doc short_array_iter) (next_doc int_array_iter) (next_doc short_not_iter) (next_doc fbs_doc_iter)"

definition doc_iter_enum_advance :: "int \<Rightarrow> doc_iter_enum \<Rightarrow> (int \<times> doc_iter_enum) result" where
  "doc_iter_enum_advance t =
     dispatch (advance short_array_iter t) (advance int_array_iter t) (advance short_not_iter t) (advance fbs_doc_iter t)"

definition doc_iter_enum_cost :: "doc_iter_enum \<Rightarrow> nat" where
  "doc_iter_enum_cost e =
     (case e of
        ShortArrayIter i \<Rightarrow> cost short_array_iter i
      | IntArrayIter i \<Rightarrow> cost int_array_iter i
      | NotDocIter i \<Rightarrow> cost short_not_iter i
      | BitDocIter i \<Rightarrow> cost fbs_doc_iter i)"

definition doc_iter_enum_matches :: "doc_iter_enum \<Rightarrow> (bool \<times> doc_iter_enum) result" where
  "doc_iter_enum_matches =
     dispatch (matches short_array_iter) (matches int_array_iter) (matches short_not_iter) (matches fbs_doc_iter)"

definition doc_iter_enum_approximate_next :: "doc_iter_enum \<Rightarrow> (int \<times> doc_iter_enum) result" where
  "doc_iter_enum_approximate_next =
     dispatch (approximate_next short_array_iter) (approximate_next int_array_iter)
       (approximate_next short_not_iter) (approximate_next fbs_doc_iter)"

definition doc_iter_enum_approximate_advance :: "int \<Rightarrow> doc_iter_enum \<Rightarrow> (int \<times> doc_iter_enum) result" where
  "doc_iter_enum_approximate_advance t =
     dispatch (approximate_advance short_array_iter t) (approximate_advance int_array_iter t)
       (approximate_advance short_not_iter t) (approximate_advance fbs_doc_iter t)"

definition doc_iter_enum_slow_advance :: "int \<Rightarrow> doc_iter_enum \<Rightarrow> (int \<times> doc_iter_enum) result option" where
  "doc_iter_enum_slow_advance t e =
     (case e of
        ShortArrayIter i \<Rightarrow> map_option (rewrap ShortArrayIter) (slow_advance short_array_iter t i)
      | IntArrayIter i \<Rightarrow> map_option (rewrap IntArrayIter) (slow_advance int_array_iter t i)
      | NotDocIter i \<Rightarrow> map_option (rewrap NotDocIter) (slow_advance short_not_iter t i)
      | BitDocIter i \<Rightarrow> map_option (rewrap BitDocIter) (slow_advance fbs_doc_iter t i))"

definition doc_iter_enum_iter :: "doc_iter_enum doc_iterator" where
  "doc_iter_enum_iter =
     \<lparr>doc_id = doc_iter_enum_doc_id, next_doc = doc_iter_enum_next, advance = doc_iter_enum_advance,
      cost = doc_iter_enum_cost, matches = doc_iter_enum_matches, support_two_phase = (\<lambda>e. False),
      approximate_next = doc_iter_enum_approximate_next, approximate_advance = doc_iter_enum_approximate_advance\<rparr>"

section \<open>What a client sees of an iterator\<close>

locale bounded_cursor =
  fixes pos :: "'s \<Rightarrow> int"
    and nxt :: "'s \<Rightarrow> (int \<times> 's) result"
    and adv :: "int \<Rightarrow> 's \<Rightarrow> (int \<times> 's) result"
    and docs :: "'s \<Rightarrow> int set"
    and limit :: int
    and invar :: "'s \<Rightarrow> bool"
  assumes docs_range: "invar s \<Longrightarrow> doc_set (docs s)"
    and pos_cases: "invar s \<Longrightarrow> pos s = - 1 \<or> pos s \<in> docs s \<or> pos s = NO_MORE_DOCS"
    and next_moves: "invar s \<Longrightarrow> pos s < NO_MORE_DOCS \<Longrightarrow>
      moves pos docs invar s (nxt s) (first_ge (docs s) (pos s + 1))"
    and adv_moves: "invar s \<Longrightarrow> pos s < t \<Longrightarrow> t \<le> NO_MORE_DOCS \<Longrightarrow> t < limit \<Longrightarrow>
      moves pos docs invar s (adv t s) (first_ge (docs s) t)"

locale forward_cursor = bounded_cursor pos nxt adv docs limit invar
  for pos :: "'s \<Rightarrow> int" and nxt adv docs limit invar +
  assumes adv_total: "invar s \<Longrightarrow> pos s < t \<Longrightarrow> t \<le> NO_MORE_DOCS \<Longrightarrow> \<exists>d. moves pos docs invar s (adv t s) d"

sublocale doc_cursor \<subseteq> fwd: forward_cursor doc nxt adv docs "NO_MORE_DOCS + 1" invar
proof
  show "invar s \<Longrightarrow> doc s < t \<Longrightarrow> t \<le> NO_MORE_DOCS \<Longrightarrow> \<exists>d. moves doc docs invar s (adv t s) d" for s t
    using adv_moves by blast
qed (use docs_range doc_cases next_moves adv_moves in auto)

text \<open>A sequence of calls and the documents they return; what it should return over \<open>D\<close> from position \<open>p\<close>.\<close>

datatype move = Next | Advance int

fun run_moves :: "('s, 'e) doc_iterator_scheme \<Rightarrow> move list \<Rightarrow> 's \<Rightarrow> int list result" where
  "run_moves I [] s = Inr []"
| "run_moves I (m # ms) s =
     rbind (case m of Next \<Rightarrow> next_doc I s | Advance t \<Rightarrow> advance I t s) (\<lambda>(d, s').
       rbind (run_moves I ms s') (\<lambda>ds. Inr (d # ds)))"

fun move_results :: "int set \<Rightarrow> int \<Rightarrow> move list \<Rightarrow> int list" where
  "move_results D p [] = []"
| "move_results D p (m # ms) =
     (let d = first_ge D (case m of Next \<Rightarrow> p + 1 | Advance t \<Rightarrow> t) in d # move_results D d ms)"

text \<open>The calls the trait allows: not past the end, targets ahead and below the limit.\<close>

fun forward_moves :: "int set \<Rightarrow> int \<Rightarrow> int \<Rightarrow> move list \<Rightarrow> bool" where
  "forward_moves D limit p [] \<longleftrightarrow> True"
| "forward_moves D limit p (m # ms) \<longleftrightarrow>
     (case m of Next \<Rightarrow> p < NO_MORE_DOCS | Advance t \<Rightarrow> p < t \<and> t \<le> NO_MORE_DOCS \<and> t < limit) \<and>
     forward_moves D limit (first_ge D (case m of Next \<Rightarrow> p + 1 | Advance t \<Rightarrow> t)) ms"

locale bounded_iterator = bounded_cursor pos "next_doc I" "advance I" docs limit invar
  for I :: "('s, 'e) doc_iterator_scheme" and pos docs limit invar
begin

lemma run_moves_ok:
  assumes "invar s" "forward_moves (docs s) limit (pos s) ms"
  shows "run_moves I ms s = Inr (move_results (docs s) (pos s) ms)"
  using assms
proof (induction ms arbitrary: s)
  case (Cons m ms)
  let ?r = "case m of Next \<Rightarrow> next_doc I s | Advance t \<Rightarrow> advance I t s"
  let ?d = "first_ge (docs s) (case m of Next \<Rightarrow> pos s + 1 | Advance t \<Rightarrow> t)"
  have "moves pos docs invar s ?r ?d"
    using Cons.prems next_moves [of s] adv_moves [of s] by (cases m) auto
  then obtain s' where "?r = Inr (?d, s')" "invar s'" "docs s' = docs s" "pos s' = ?d" by (rule movesE)
  with Cons.IH [of s'] Cons.prems show ?case by (simp add: Let_def)
qed simp

end

locale forward_iterator = forward_cursor pos "next_doc I" "advance I" docs limit invar
  for I :: "('s, 'e) doc_iterator_scheme" and pos docs limit invar

sublocale forward_iterator \<subseteq> bounded_iterator I pos docs limit invar ..

section \<open>The bit set iterator\<close>

definition bit_set_doc_docs :: "('b \<Rightarrow> nat set) \<Rightarrow> 'b bit_set_doc \<Rightarrow> int set" where
  "bit_set_doc_docs members s = int ` members (bsd_bits s)"

definition bit_set_doc_inv ::
  "('b \<Rightarrow> nat) \<Rightarrow> ('b \<Rightarrow> nat set) \<Rightarrow> ('b \<Rightarrow> bool) \<Rightarrow> 'b bit_set_doc \<Rightarrow> bool" where
  "bit_set_doc_inv len members invar s \<longleftrightarrow> invar (bsd_bits s) \<and> bsd_length s = len (bsd_bits s) \<and>
     (bsd_doc s = - 1 \<or> bsd_doc s \<in> bit_set_doc_docs members s \<or> bsd_doc s = NO_MORE_DOCS)"

context immutable_bit_set
begin

lemma bit_set_doc_advance_moves:
  assumes "bit_set_doc_inv len abs invar s" "bsd_doc s < t" "t \<le> NO_MORE_DOCS"
  shows "moves bsd_doc (bit_set_doc_docs abs) (bit_set_doc_inv len abs invar) s
    (bit_set_doc_advance next_set_bit t s) (first_ge (bit_set_doc_docs abs s) t)"
proof -
  let ?D = "int ` abs (bsd_bits s)"
  have inv: "invar (bsd_bits s)" and l: "bsd_length s = len (bsd_bits s)" and t: "0 \<le> t"
    using assms(1,2) by (auto simp: bit_set_doc_inv_def bit_set_doc_docs_def)
  have "bit_set_doc_advance next_set_bit t s = Inr (first_ge ?D t, s\<lparr>bsd_doc := first_ge ?D t\<rparr>)"
    using first_ge_past_len [OF inv, of t] next_set_bit_ok [OF inv, of "nat t"] t assms(3)
    by (simp add: bit_set_doc_advance_def l len_cast [OF inv] as_usize_nonneg)
  moreover have "first_ge ?D t \<in> ?D \<or> first_ge ?D t = NO_MORE_DOCS"
    by (rule first_ge_cases [OF abs_doc_set [OF inv], of t]) simp_all
  ultimately show ?thesis
    using inv l by (simp add: moves_def bit_set_doc_inv_def bit_set_doc_docs_def)
qed

lemma bit_set_doc_cursor:
  "exact_cursor (bit_set_doc_iter next_set_bit) (bit_set_doc_docs abs) (bit_set_doc_inv len abs invar)"
proof
  fix s :: "'s bit_set_doc" assume s: "bit_set_doc_inv len abs invar s"
  show "doc_set (bit_set_doc_docs abs s)"
    using s abs_doc_set by (simp add: bit_set_doc_inv_def bit_set_doc_docs_def)
  show "doc_id (bit_set_doc_iter next_set_bit) s = - 1 \<or>
      doc_id (bit_set_doc_iter next_set_bit) s \<in> bit_set_doc_docs abs s \<or>
      doc_id (bit_set_doc_iter next_set_bit) s = NO_MORE_DOCS"
    using s by (simp add: bit_set_doc_inv_def bit_set_doc_iter_def)
  show "doc_id (bit_set_doc_iter next_set_bit) s < NO_MORE_DOCS \<Longrightarrow>
      moves (doc_id (bit_set_doc_iter next_set_bit)) (bit_set_doc_docs abs) (bit_set_doc_inv len abs invar) s
        (next_doc (bit_set_doc_iter next_set_bit) s)
        (first_ge (bit_set_doc_docs abs s) (doc_id (bit_set_doc_iter next_set_bit) s + 1))"
    using bit_set_doc_advance_moves [OF s, of "bsd_doc s + 1"] by (simp add: bit_set_doc_iter_def bit_set_doc_next_def)
qed (simp add: bit_set_doc_iter_def bit_set_doc_advance_moves)

end

interpretation fbs_docs: exact_cursor fbs_doc_iter "bit_set_doc_docs fbs_abs" "bit_set_doc_inv fbs_len fbs_abs fbs_inv"
  by (rule fbs.bit_set_doc_cursor)

section \<open>The iterator over 16-bit ids\<close>

text \<open>
  \<open>next\<close> leaves the current document as it was when it runs out, so the place of the iterator is
  not what \<open>doc_id\<close> says but \<open>short_pos\<close>.
\<close>

definition short_list :: "short_array \<Rightarrow> int list" where
  "short_list s = map uint (take (sa_length s) (sa_docs s))"

definition short_docs :: "short_array \<Rightarrow> int set" where
  "short_docs s = set (short_list s)"

definition short_pos :: "short_array \<Rightarrow> int" where
  "short_pos s = (if sa_doc s = NO_MORE_DOCS \<or> int (sa_length s) \<le> sa_i s then NO_MORE_DOCS else sa_doc s)"

definition short_inv :: "short_array \<Rightarrow> bool" where
  "short_inv s \<longleftrightarrow>
     sa_length s \<le> length (sa_docs s) \<and> sa_length s < 2147483647 \<and> sorted_wrt (<) (short_list s) \<and>
     - 1 \<le> sa_i s \<and> sa_i s \<le> int (sa_length s) \<and>
     (short_pos s \<noteq> NO_MORE_DOCS \<longrightarrow> sa_doc s = (if sa_i s = - 1 then - 1 else short_list s ! nat (sa_i s)))"

lemma short_doc_range: "d \<in> short_docs s \<Longrightarrow> 0 \<le> d \<and> d < 65536"
  using unsigned_less [where 'b = 16 and 'a = int] by (auto simp: short_docs_def short_list_def)

lemma short_nth_range: "k < length (short_list s) \<Longrightarrow> 0 \<le> short_list s ! k \<and> short_list s ! k < 65536"
  using short_doc_range [of "short_list s ! k" s] by (simp add: short_docs_def)

lemma short_doc_set: "doc_set (short_docs s)"
  using short_doc_range by fastforce

lemma length_short_list: "short_inv s \<Longrightarrow> length (short_list s) = sa_length s"
  by (simp add: short_inv_def short_list_def)

lemma short_array_at_eq:
  "short_inv s \<Longrightarrow> 0 \<le> i \<Longrightarrow> i < int (sa_length s) \<Longrightarrow> short_array_at i s = Inr (short_list s ! nat i)"
  by (auto simp: short_array_at_def short_list_def short_inv_def)

text \<open>Moving to index \<open>k\<close> of the array, when the ids before it are too small and it is not.\<close>

lemma short_first_ge:
  assumes "sorted_wrt (<) xs" "doc_set (set xs)" "k \<le> length xs" "k < length xs \<Longrightarrow> t \<le> xs ! k" "t \<le> NO_MORE_DOCS"
    "\<And>j. j < k \<Longrightarrow> xs ! j < t"
  shows "first_ge (set xs) t = (if k < length xs then xs ! k else NO_MORE_DOCS)"
  using first_ge_nth [of "length xs" "xs @ [NO_MORE_DOCS]" k t] assms
  by (simp add: nth_append)

lemma short_before:
  assumes "short_inv s" "short_pos s < t" "t \<le> NO_MORE_DOCS" "int j \<le> sa_i s"
  shows "short_list s ! j < t"
proof -
  have i: "nat (sa_i s) < length (short_list s)" "sa_i s \<noteq> - 1" "sa_doc s = short_list s ! nat (sa_i s)" "sa_doc s = short_pos s"
    using assms length_short_list [OF assms(1)] by (auto simp: short_inv_def short_pos_def split: if_splits)
  have "short_list s ! j \<le> short_list s ! nat (sa_i s)"
    using sorted_wrt_nth_less [of "(<)" "short_list s" j "nat (sa_i s)"] assms(1,4) i
    by (cases "j = nat (sa_i s)") (auto simp: short_inv_def le_less nat_less_iff zless_nat_eq_int_zless)
  then show ?thesis using i assms(2) by simp
qed

text \<open>While the iterator runs, \<open>lo\<close> is the index it looks at next.\<close>

lemma short_pos_running:
  assumes "short_inv s" "short_pos s < NO_MORE_DOCS"
  obtains lo where "sa_i s = int lo - 1" "lo \<le> sa_length s" "inc_i32 (sa_i s) = Inr (int lo)" "as_usize (int lo) = lo"
    "lo < 2147483647" "short_pos s = (if lo = 0 then - 1 else short_list s ! (lo - 1))"
proof -
  have i: "- 1 \<le> sa_i s" "sa_i s < int (sa_length s)" "sa_length s < 2147483647"
    using assms by (auto simp: short_inv_def short_pos_def split: if_splits)
  define lo where "lo = nat (sa_i s + 1)"
  then have lo: "sa_i s = int lo - 1" "lo \<le> sa_length s" using i by auto
  have "short_pos s = (if lo = 0 then - 1 else short_list s ! (lo - 1))"
    using assms lo by (auto simp: short_inv_def short_pos_def nat_diff_distrib' split: if_splits)
  with lo i show thesis by (intro that [of lo]) (auto simp: inc_i32_def as_usize_nonneg)
qed

lemma short_moved:
  assumes "short_inv s" "k \<le> sa_length s" "d = (if k < sa_length s then short_list s ! k else NO_MORE_DOCS)"
    and "s' = s\<lparr>sa_i := int k, sa_doc := d\<rparr>"
  shows "short_inv s' \<and> short_docs s' = short_docs s \<and> short_pos s' = d"
proof -
  have "short_list s' = short_list s" by (simp add: assms(4) short_list_def)
  then show ?thesis
    using assms short_nth_range [of k s] length_short_list [OF assms(1)]
    by (auto simp: short_inv_def short_docs_def short_pos_def)
qed

lemma short_below:
  assumes "short_inv s" "short_pos s < t" "t \<le> NO_MORE_DOCS" "sa_i s = int lo - 1" "j < lo"
  shows "short_list s ! j < t"
  using short_before [OF assms(1-3), of j] assms(4,5) by simp

lemma short_docs_first_ge:
  assumes "short_inv s" "k \<le> sa_length s" "k < sa_length s \<Longrightarrow> t \<le> short_list s ! k" "t \<le> NO_MORE_DOCS"
    "\<And>j. j < k \<Longrightarrow> short_list s ! j < t"
  shows "first_ge (short_docs s) t = (if k < sa_length s then short_list s ! k else NO_MORE_DOCS)"
  using short_first_ge [of "short_list s" k t] assms short_doc_set [of s] length_short_list [OF assms(1)]
  by (simp add: short_docs_def short_inv_def)

lemma short_array_next_moves:
  assumes s: "short_inv s" "short_pos s < NO_MORE_DOCS"
  shows "moves short_pos short_docs short_inv s (short_array_next s) (first_ge (short_docs s) (short_pos s + 1))"
proof -
  obtain k where k: "sa_i s = int k - 1" "k \<le> sa_length s" "inc_i32 (sa_i s) = Inr (int k)" "as_usize (int k) = k"
      "k < 2147483647" "short_pos s = (if k = 0 then - 1 else short_list s ! (k - 1))"
    by (rule short_pos_running [OF s])
  have "short_pos s + 1 \<le> short_list s ! k" if "k < sa_length s"
    using short_nth_range [of k s] that sorted_wrt_nth_less [of "(<)" "short_list s" "k - 1" k]
      length_short_list [OF s(1)] s(1) k(6) by (auto simp: short_inv_def)
  then have d: "first_ge (short_docs s) (short_pos s + 1) = (if k < sa_length s then short_list s ! k else NO_MORE_DOCS)"
    using short_below [OF s(1) _ _ k(1), of "short_pos s + 1"] s k(2) by (intro short_docs_first_ge) auto
  show ?thesis
  proof (cases "k < sa_length s")
    case True
    then have "short_array_next s = Inr (short_list s ! k, s\<lparr>sa_i := int k, sa_doc := short_list s ! k\<rparr>)"
      using k(3,4) short_array_at_eq [OF s(1), of "int k"] by (simp add: short_array_next_def)
    then show ?thesis
      using short_moved [OF s(1) k(2)] True d by (simp add: moves_def)
  next
    case False
    then have n: "short_array_next s = Inr (NO_MORE_DOCS, s\<lparr>sa_i := int k\<rparr>)"
      using k(3,4) by (simp add: short_array_next_def)
    have "short_list (s\<lparr>sa_i := int k\<rparr>) = short_list s" by (simp add: short_list_def)
    then have "short_inv (s\<lparr>sa_i := int k\<rparr>) \<and> short_docs (s\<lparr>sa_i := int k\<rparr>) = short_docs s \<and>
        short_pos (s\<lparr>sa_i := int k\<rparr>) = NO_MORE_DOCS"
      using s k(2) False by (simp add: short_inv_def short_docs_def short_pos_def)
    then show ?thesis using False d n by (simp add: moves_def)
  qed
qed

lemma short_array_advance_step:
  assumes s: "short_inv s" and lo: "sa_i s = int lo - 1" "inc_i32 (sa_i s) = Inr (int lo)" "as_usize (int lo) = lo" "lo < sa_length s"
    and u: "u = uint (word_of_int t :: u16)" and k: "k = lo + search_pos (drop lo (short_list s)) u"
  shows "k \<le> sa_length s"
    and "short_array_advance t s =
      (let d = if k < sa_length s then short_list s ! k else NO_MORE_DOCS in Inr (d, s\<lparr>sa_i := int k, sa_doc := d\<rparr>))"
proof -
  let ?p = "search_pos (drop lo (short_list s)) u"
  have len: "sa_length s \<le> length (sa_docs s)" "sa_length s < 2147483647" using s by (simp_all add: short_inv_def)
  show le: "k \<le> sa_length s"
    using search_pos_le [of "drop lo (short_list s)" u] length_short_list [OF s] lo(4) k by simp
  have i: "sa_i s + as_i32 (int (?p + 1)) = int k"
    using le k len lo by (subst as_i32_id) auto
  have slice: "map uint (drop lo (take (sa_length s) (sa_docs s))) = drop lo (short_list s)"
    by (simp add: short_list_def drop_map)
  show "short_array_advance t s =
      (let d = if k < sa_length s then short_list s ! k else NO_MORE_DOCS in Inr (d, s\<lparr>sa_i := int k, sa_doc := d\<rparr>))"
    unfolding short_array_advance_def lo(2) rbind_simps lo(3) Let_def slice u [symmetric] i
    using len lo(4) short_array_at_eq [OF s, of "int k"] by (simp add: as_i32_id)
qed

lemma short_array_advance_end:
  assumes s: "short_inv s" "inc_i32 (sa_i s) = Inr (int lo)" "as_usize (int lo) = lo" "sa_length s \<le> lo"
  shows "short_array_advance t s = Inr (NO_MORE_DOCS, s\<lparr>sa_doc := NO_MORE_DOCS\<rparr>)"
    and "short_inv (s\<lparr>sa_doc := NO_MORE_DOCS\<rparr>)" "short_docs (s\<lparr>sa_doc := NO_MORE_DOCS\<rparr>) = short_docs s"
    and "short_pos (s\<lparr>sa_doc := NO_MORE_DOCS\<rparr>) = NO_MORE_DOCS"
proof -
  show "short_array_advance t s = Inr (NO_MORE_DOCS, s\<lparr>sa_doc := NO_MORE_DOCS\<rparr>)"
    using s by (simp add: short_array_advance_def)
  have "short_list (s\<lparr>sa_doc := NO_MORE_DOCS\<rparr>) = short_list s" by (simp add: short_list_def)
  then show "short_inv (s\<lparr>sa_doc := NO_MORE_DOCS\<rparr>)" "short_docs (s\<lparr>sa_doc := NO_MORE_DOCS\<rparr>) = short_docs s"
      "short_pos (s\<lparr>sa_doc := NO_MORE_DOCS\<rparr>) = NO_MORE_DOCS"
    using s by (simp_all add: short_inv_def short_docs_def short_pos_def)
qed

lemma short_array_advance_total:
  assumes s: "short_inv s" "short_pos s < NO_MORE_DOCS"
  shows "\<exists>d. moves short_pos short_docs short_inv s (short_array_advance t s) d"
proof -
  obtain lo where lo: "sa_i s = int lo - 1" "lo \<le> sa_length s" "inc_i32 (sa_i s) = Inr (int lo)" "as_usize (int lo) = lo"
    by (rule short_pos_running [OF s])
  show ?thesis
  proof (cases "lo < sa_length s")
    case True
    note step = short_array_advance_step [OF s(1) lo(1,3,4) True refl refl, where t = t]
    from short_moved [OF s(1) step(1) refl refl] show ?thesis
      unfolding moves_def step(2) Let_def by blast
  next
    case False
    then have "sa_length s \<le> lo" by simp
    from short_array_advance_end [OF s(1) lo(3,4) this] show ?thesis by (auto simp: moves_def)
  qed
qed

lemma short_array_advance_moves:
  assumes s: "short_inv s" "short_pos s < t" "t < 65536"
  shows "moves short_pos short_docs short_inv s (short_array_advance t s) (first_ge (short_docs s) t)"
proof -
  have nm: "short_pos s < NO_MORE_DOCS" "t \<le> NO_MORE_DOCS" using s by simp_all
  obtain lo where lo: "sa_i s = int lo - 1" "lo \<le> sa_length s" "inc_i32 (sa_i s) = Inr (int lo)" "as_usize (int lo) = lo"
      "short_pos s = (if lo = 0 then - 1 else short_list s ! (lo - 1))"
    by (rule short_pos_running [OF s(1) nm(1)])
  note len = length_short_list [OF s(1)]
  have "0 \<le> t" using s(2) lo(2,5) short_nth_range [of "lo - 1" s] len by (cases lo) auto
  then have u: "t = uint (word_of_int t :: u16)" using s(3) by (simp add: uint_word_of_int_eq take_bit_int_eq_self)
  note below = short_below [OF s(1,2) nm(2) lo(1)]
  show ?thesis
  proof (cases "lo < sa_length s")
    case True
    let ?k = "lo + search_pos (drop lo (short_list s)) t"
    note step = short_array_advance_step [OF s(1) lo(1,3,4) True u refl]
    have "t \<le> short_list s ! ?k" if "?k < sa_length s"
      using search_pos_ge [of "drop lo (short_list s)" t] that len by simp
    moreover have "short_list s ! j < t" if "j < ?k" for j
      using search_pos_less [of "j - lo" "drop lo (short_list s)" t] below [of j] that step(1) len
      by (cases "j < lo") auto
    ultimately have d: "first_ge (short_docs s) t = (if ?k < sa_length s then short_list s ! ?k else NO_MORE_DOCS)"
      using step(1) nm(2) by (intro short_docs_first_ge [OF s(1)])
    show ?thesis
      unfolding moves_def step(2) Let_def d using short_moved [OF s(1) step(1) refl refl] by simp
  next
    case False
    then have "first_ge (short_docs s) t = NO_MORE_DOCS"
      using short_docs_first_ge [OF s(1), of "sa_length s" t] below lo(2) nm(2) by simp
    then show ?thesis
      using short_array_advance_end [OF s(1) lo(3,4)] False by (simp add: moves_def)
  qed
qed

interpretation short_fwd: forward_iterator short_array_iter short_pos short_docs 65536 short_inv
proof
  show "short_inv s \<Longrightarrow> short_pos s = - 1 \<or> short_pos s \<in> short_docs s \<or> short_pos s = NO_MORE_DOCS" for s
    using length_short_list [of s] nth_mem [of "nat (sa_i s)" "short_list s"]
    by (auto simp: short_inv_def short_pos_def short_docs_def)
qed (simp_all add: short_array_iter_def short_doc_set short_array_next_moves short_array_advance_moves short_array_advance_total)

section \<open>The iterator over a complement\<close>

definition not_docs :: "('i \<Rightarrow> int set) \<Rightarrow> 'i not_doc \<Rightarrow> int set" where
  "not_docs docs s = {0..<nd_max_doc s} - docs (nd_iterator s)"

text \<open>
  Between calls the inner iterator is at the first document it has from the current one on, which
  is not the current one; the states before the first call and after the last are exceptions.
\<close>

definition not_inv :: "('i \<Rightarrow> int) \<Rightarrow> ('i \<Rightarrow> int set) \<Rightarrow> int \<Rightarrow> ('i \<Rightarrow> bool) \<Rightarrow> 'i not_doc \<Rightarrow> bool" where
  "not_inv pos docs limit invar s \<longleftrightarrow>
     0 \<le> nd_max_doc s \<and> nd_max_doc s \<le> limit \<and> nd_max_doc s \<le> NO_MORE_DOCS \<and> invar (nd_iterator s) \<and>
     (nd_doc s = NO_MORE_DOCS \<or>
      nd_doc s = - 1 \<and> nd_next_skipped s = - 1 \<and> pos (nd_iterator s) = - 1 \<or>
      nd_doc s \<in> not_docs docs s \<and> nd_next_skipped s = first_ge (docs (nd_iterator s)) (nd_doc s) \<and>
        pos (nd_iterator s) = nd_next_skipped s)"

context forward_iterator
begin

lemma not_docs_set: "not_inv pos docs limit invar s \<Longrightarrow> doc_set (not_docs docs s)"
  by (auto simp: not_inv_def not_docs_def)

lemma not_doc_exhausted:
  assumes "nd_max_doc s \<le> nd_doc s" "0 \<le> nd_max_doc s" "nd_max_doc s \<le> limit" "nd_max_doc s \<le> NO_MORE_DOCS" "invar (nd_iterator s)"
    "nd_doc s \<le> NO_MORE_DOCS"
  shows "moves nd_doc (not_docs docs) (not_inv pos docs limit invar) s (not_doc_loop I s) (first_ge (not_docs docs s) (nd_doc s))"
proof -
  have "{d \<in> not_docs docs s. nd_doc s \<le> d} = {}" using assms(1) by (auto simp: not_docs_def)
  then have "first_ge (not_docs docs s) (nd_doc s) = NO_MORE_DOCS" by (simp only: first_ge_def Min_singleton)
  then show ?thesis
    using assms by (subst not_doc_loop.simps) (simp add: moves_def not_inv_def not_docs_def)
qed

text \<open>The loop, from a current document with the inner iterator at its first document from there on.\<close>

lemma not_doc_loop_moves:
  assumes "0 \<le> nd_doc s" "nd_doc s < nd_max_doc s" "nd_max_doc s \<le> limit" "nd_max_doc s \<le> NO_MORE_DOCS"
    "invar (nd_iterator s)" "pos (nd_iterator s) = nd_next_skipped s"
    "nd_next_skipped s = first_ge (docs (nd_iterator s)) (nd_doc s)"
  shows "moves nd_doc (not_docs docs) (not_inv pos docs limit invar) s (not_doc_loop I s) (first_ge (not_docs docs s) (nd_doc s))"
  using assms
proof (induction "nat (nd_max_doc s - nd_doc s)" arbitrary: s rule: less_induct)
  case less
  let ?D = "docs (nd_iterator s)" and ?d = "nd_doc s"
  note D = docs_range [OF less.prems(5)]
  have N: "doc_set (not_docs docs s)" using less.prems by (auto simp: not_docs_def)
  have le: "?d \<le> nd_next_skipped s" using less.prems(2,4,7) first_ge_ge [OF D, of ?d] by linarith
  show ?case
  proof (cases "?d = nd_next_skipped s")
    case False
    have "?d \<noteq> first_ge ?D ?d" using False less.prems(7) by metis
    then have "?d \<notin> ?D" using first_ge_self [OF D, of ?d] by auto
    then have mem: "?d \<in> not_docs docs s" using less.prems by (auto simp: not_docs_def)
    then have "not_inv pos docs limit invar s" using less.prems by (simp add: not_inv_def)
    then show ?thesis
      using first_ge_self [OF N mem] False le less.prems(2)
      by (subst not_doc_loop.simps) (simp add: moves_def)
  next
    case True
    then have self: "first_ge ?D ?d = ?d" and pos: "pos (nd_iterator s) = ?d" using less.prems(6,7) by metis+
    have lt: "?d < NO_MORE_DOCS" using less.prems(2,4) by linarith
    then have dD: "?d \<in> ?D" using first_ge_mem [OF D, of ?d] self by simp
    let ?e = "first_ge ?D (?d + 1)"
    obtain it where it: "next_doc I (nd_iterator s) = Inr (?e, it)" "invar it" "docs it = ?D" "pos it = ?e"
      using next_moves [OF less.prems(5)] pos lt by (auto elim: movesE)
    define s' where "s' = s\<lparr>nd_doc := ?d + 1, nd_next_skipped := ?e, nd_iterator := it\<rparr>"
    have step: "not_doc_loop I s = not_doc_loop I s'"
      using True less.prems(2) it(1) by (subst not_doc_loop.simps) (simp add: s'_def)
    have nd: "not_docs docs s' = not_docs docs s" by (simp add: not_docs_def s'_def it(3))
    have eq: "first_ge (not_docs docs s) ?d = first_ge (not_docs docs s) (?d + 1)"
      using dD by (intro first_ge_Suc [symmetric]) (simp add: not_docs_def)
    have "moves nd_doc (not_docs docs) (not_inv pos docs limit invar) s' (not_doc_loop I s') (first_ge (not_docs docs s') (nd_doc s'))"
    proof (cases "?d + 1 < nd_max_doc s")
      case True
      then show ?thesis using less.prems(1-4) it by (intro less.hyps) (auto simp: s'_def)
    next
      case False
      then show ?thesis using less.prems(1-4) it by (intro not_doc_exhausted) (auto simp: s'_def)
    qed
    moreover have "nd_doc s' = ?d + 1" by (simp add: s'_def)
    ultimately show ?thesis by (simp only: step eq nd moves_def)
  qed
qed

lemma not_doc_advance_moves:
  assumes s: "not_inv pos docs limit invar s" and t: "nd_doc s < t" "t \<le> NO_MORE_DOCS"
  shows "moves nd_doc (not_docs docs) (not_inv pos docs limit invar) s (not_doc_advance I t s) (first_ge (not_docs docs s) t)"
proof -
  let ?D = "docs (nd_iterator s)"
  have inv: "invar (nd_iterator s)" "0 \<le> nd_max_doc s" "nd_max_doc s \<le> limit" "nd_max_doc s \<le> NO_MORE_DOCS"
    using s by (simp_all add: not_inv_def)
  note D = docs_range [OF inv(1)]
  have t0: "0 \<le> t" and cur: "nd_next_skipped s = pos (nd_iterator s)" "nd_next_skipped s = - 1 \<or> nd_next_skipped s = first_ge ?D (nd_doc s)"
    using s t by (auto simp: not_inv_def not_docs_def)
  text \<open>The state the loop starts from: its iterator is positioned, unless the target is past the end.\<close>
  obtain s' where s': "not_doc_advance I t s = not_doc_loop I s'" "nd_doc s' = t" "nd_max_doc s' = nd_max_doc s"
      "invar (nd_iterator s')" "docs (nd_iterator s') = ?D"
      "t < nd_max_doc s \<Longrightarrow> pos (nd_iterator s') = nd_next_skipped s' \<and> nd_next_skipped s' = first_ge ?D t"
  proof (cases "nd_next_skipped s < t")
    case True
    then obtain d where "moves pos docs invar (nd_iterator s) (advance I t (nd_iterator s)) d"
        "t < limit \<Longrightarrow> d = first_ge ?D t"
      using adv_total [OF inv(1), of t] adv_moves [OF inv(1), of t] cur t(2) by (cases "t < limit") auto
    then show thesis
      using True inv
      by (intro that [of "s\<lparr>nd_doc := t, nd_next_skipped := d, nd_iterator := snd (projr (advance I t (nd_iterator s)))\<rparr>"])
        (auto simp: not_doc_advance_def moves_def)
  next
    case False
    then have "first_ge ?D t = nd_next_skipped s"
      using cur(2) t t0 first_ge_between [OF D, of "nd_doc s" t] by auto
    then show thesis
      using False inv cur by (intro that [of "s\<lparr>nd_doc := t\<rparr>"]) (auto simp: not_doc_advance_def)
  qed
  have nd: "not_docs docs s' = not_docs docs s" using s' by (simp add: not_docs_def)
  have "moves nd_doc (not_docs docs) (not_inv pos docs limit invar) s' (not_doc_loop I s') (first_ge (not_docs docs s') (nd_doc s'))"
  proof (cases "t < nd_max_doc s")
    case True
    then show ?thesis using s' inv t0 by (intro not_doc_loop_moves) auto
  next
    case False
    then show ?thesis using s' inv t0 t(2) by (intro not_doc_exhausted) auto
  qed
  then show ?thesis using s' nd by (simp add: moves_def)
qed

lemma not_doc_cursor: "exact_cursor (not_doc_iter I) (not_docs docs) (not_inv pos docs limit invar)"
proof
  fix s assume s: "not_inv pos docs limit invar s"
  show "doc_set (not_docs docs s)" by (rule not_docs_set [OF s])
  show "doc_id (not_doc_iter I) s = - 1 \<or> doc_id (not_doc_iter I) s \<in> not_docs docs s \<or> doc_id (not_doc_iter I) s = NO_MORE_DOCS"
    using s by (auto simp: not_doc_iter_def not_inv_def)
  show "doc_id (not_doc_iter I) s < NO_MORE_DOCS \<Longrightarrow>
      moves (doc_id (not_doc_iter I)) (not_docs docs) (not_inv pos docs limit invar) s
        (next_doc (not_doc_iter I) s) (first_ge (not_docs docs s) (doc_id (not_doc_iter I) s + 1))"
    using not_doc_advance_moves [OF s, of "nd_doc s + 1"] by (simp add: not_doc_iter_def not_doc_next_def)
qed (simp add: not_doc_iter_def not_doc_advance_moves)

end

interpretation short_not: exact_cursor short_not_iter "not_docs short_docs" "not_inv short_pos short_docs 65536 short_inv"
  by (rule short_fwd.not_doc_cursor)

section \<open>The enum iterator\<close>

definition doc_iter_enum_pos :: "doc_iter_enum \<Rightarrow> int" where
  "doc_iter_enum_pos e = (case e of ShortArrayIter i \<Rightarrow> short_pos i | _ \<Rightarrow> doc_iter_enum_doc_id e)"

definition doc_iter_enum_docs :: "doc_iter_enum \<Rightarrow> int set" where
  "doc_iter_enum_docs e =
     (case e of
        ShortArrayIter i \<Rightarrow> short_docs i
      | IntArrayIter i \<Rightarrow> int_array_docs i
      | NotDocIter i \<Rightarrow> not_docs short_docs i
      | BitDocIter i \<Rightarrow> bit_set_doc_docs fbs_abs i)"

definition doc_iter_enum_inv :: "doc_iter_enum \<Rightarrow> bool" where
  "doc_iter_enum_inv e =
     (case e of
        ShortArrayIter i \<Rightarrow> short_inv i
      | IntArrayIter i \<Rightarrow> int_array_inv i
      | NotDocIter i \<Rightarrow> not_inv short_pos short_docs 65536 short_inv i
      | BitDocIter i \<Rightarrow> bit_set_doc_inv fbs_len fbs_abs fbs_inv i)"

lemmas doc_iter_enum_views = doc_iter_enum_pos_def doc_iter_enum_docs_def doc_iter_enum_inv_def doc_iter_enum_doc_id_def

lemma rewrap_moves:
  assumes "moves pos docs invar s r d"
    and "\<And>s'. invar s' \<Longrightarrow> pos' (w s') = pos s' \<and> docs' (w s') = docs s' \<and> invar' (w s')" "docs' (w s) = docs s"
  shows "moves pos' docs' invar' (w s) (rewrap w r) d"
  using assms by (auto simp: moves_def rewrap_def)

lemma doc_iter_enum_next_moves:
  assumes "doc_iter_enum_inv e" "doc_iter_enum_pos e < NO_MORE_DOCS"
  shows "moves doc_iter_enum_pos doc_iter_enum_docs doc_iter_enum_inv e (doc_iter_enum_next e)
    (first_ge (doc_iter_enum_docs e) (doc_iter_enum_pos e + 1))"
proof (cases e)
  case (ShortArrayIter i)
  then show ?thesis
    using assms rewrap_moves [OF short_fwd.next_moves [of i], where w = ShortArrayIter]
    by (simp add: doc_iter_enum_next_def dispatch_def doc_iter_enum_views)
next
  case (IntArrayIter i)
  then show ?thesis
    using assms rewrap_moves [OF int_array_exact.next_moves [of i], where w = IntArrayIter]
    by (simp add: doc_iter_enum_next_def dispatch_def doc_iter_enum_views)
next
  case (NotDocIter i)
  then show ?thesis
    using assms rewrap_moves [OF short_not.next_moves [of i], where w = NotDocIter]
    by (simp add: doc_iter_enum_next_def dispatch_def doc_iter_enum_views)
next
  case (BitDocIter i)
  then show ?thesis
    using assms rewrap_moves [OF fbs_docs.next_moves [of i], where w = BitDocIter]
    by (simp add: doc_iter_enum_next_def dispatch_def doc_iter_enum_views)
qed

lemma doc_iter_enum_advance_moves:
  assumes "doc_iter_enum_inv e" "doc_iter_enum_pos e < t" "t \<le> NO_MORE_DOCS" "\<And>i. e = ShortArrayIter i \<Longrightarrow> t < 65536"
  shows "moves doc_iter_enum_pos doc_iter_enum_docs doc_iter_enum_inv e (doc_iter_enum_advance t e)
    (first_ge (doc_iter_enum_docs e) t)"
proof (cases e)
  case (ShortArrayIter i)
  then show ?thesis
    using assms rewrap_moves [OF short_fwd.adv_moves [of i t], where w = ShortArrayIter]
    by (simp add: doc_iter_enum_advance_def dispatch_def doc_iter_enum_views)
next
  case (IntArrayIter i)
  then show ?thesis
    using assms rewrap_moves [OF int_array_exact.adv_moves [of i t], where w = IntArrayIter]
    by (simp add: doc_iter_enum_advance_def dispatch_def doc_iter_enum_views)
next
  case (NotDocIter i)
  then show ?thesis
    using assms rewrap_moves [OF short_not.adv_moves [of i t], where w = NotDocIter]
    by (simp add: doc_iter_enum_advance_def dispatch_def doc_iter_enum_views)
next
  case (BitDocIter i)
  then show ?thesis
    using assms rewrap_moves [OF fbs_docs.adv_moves [of i t], where w = BitDocIter]
    by (simp add: doc_iter_enum_advance_def dispatch_def doc_iter_enum_views)
qed

lemma doc_iter_enum_advance_total:
  assumes "doc_iter_enum_inv e" "doc_iter_enum_pos e < t" "t \<le> NO_MORE_DOCS"
  shows "\<exists>d. moves doc_iter_enum_pos doc_iter_enum_docs doc_iter_enum_inv e (doc_iter_enum_advance t e) d"
proof (cases e)
  case (ShortArrayIter i)
  then obtain d where "moves short_pos short_docs short_inv i (advance short_array_iter t i) d"
    using assms short_fwd.adv_total [of i t] by (auto simp: doc_iter_enum_views)
  from rewrap_moves [OF this, where w = ShortArrayIter and pos' = doc_iter_enum_pos and docs' = doc_iter_enum_docs and invar' = doc_iter_enum_inv]
  show ?thesis using ShortArrayIter by (auto simp: doc_iter_enum_advance_def dispatch_def doc_iter_enum_views)
qed (use doc_iter_enum_advance_moves [OF assms] in auto)

interpretation enum_fwd: forward_iterator doc_iter_enum_iter doc_iter_enum_pos doc_iter_enum_docs 65536 doc_iter_enum_inv
proof
  fix e assume e: "doc_iter_enum_inv e"
  show "doc_set (doc_iter_enum_docs e)"
    using e short_fwd.docs_range int_array_exact.docs_range short_not.docs_range fbs_docs.docs_range
    by (cases e) (simp_all add: doc_iter_enum_views)
  show "doc_iter_enum_pos e = - 1 \<or> doc_iter_enum_pos e \<in> doc_iter_enum_docs e \<or> doc_iter_enum_pos e = NO_MORE_DOCS"
    using e short_fwd.pos_cases int_array_exact.doc_cases short_not.doc_cases fbs_docs.doc_cases
    by (cases e) (simp_all add: doc_iter_enum_views)
qed (simp_all add: doc_iter_enum_iter_def doc_iter_enum_next_moves doc_iter_enum_advance_moves doc_iter_enum_advance_total)

section \<open>Sets and their iterators\<close>

definition doc_id_set_docs :: "doc_id_set_enum \<Rightarrow> int set" where
  "doc_id_set_docs d =
     (case d of
        ShortArray s \<Rightarrow> set (map uint (take (sas_length s) (sas_docs s)))
      | IntArray s \<Rightarrow> set (take (snd s) (fst s))
      | NotDocId s \<Rightarrow> {0..<nds_max_doc s} - set (map uint (take (sas_length (nds_set s)) (sas_docs (nds_set s))))
      | BitDocId s \<Rightarrow> int ` fbs_abs (bds_set s))"

definition short_array_set_ok :: "short_array_set \<Rightarrow> bool" where
  "short_array_set_ok s \<longleftrightarrow> sas_length s \<le> length (sas_docs s) \<and> sas_length s < 2147483647 \<and>
     sorted_wrt (<) (map uint (take (sas_length s) (sas_docs s)) :: int list)"

definition doc_id_set_ok :: "doc_id_set_enum \<Rightarrow> bool" where
  "doc_id_set_ok d =
     (case d of
        ShortArray s \<Rightarrow> short_array_set_ok s
      | IntArray s \<Rightarrow> snd s < length (fst s) \<and> fst s ! snd s = NO_MORE_DOCS \<and>
          sorted_wrt (<) (take (snd s) (fst s)) \<and> doc_set (set (take (snd s) (fst s)))
      | NotDocId s \<Rightarrow> short_array_set_ok (nds_set s) \<and> 0 \<le> nds_max_doc s \<and> nds_max_doc s \<le> 65536
      | BitDocId s \<Rightarrow> fbs_inv (bds_set s))"

lemma short_array_new_inv:
  assumes "short_array_set_ok s"
  shows "short_inv (short_array_new (sas_docs s) (sas_length s))" "short_pos (short_array_new (sas_docs s) (sas_length s)) = - 1"
    "short_docs (short_array_new (sas_docs s) (sas_length s)) = set (map uint (take (sas_length s) (sas_docs s)))"
  using assms by (auto simp: short_array_new_def short_inv_def short_pos_def short_docs_def short_list_def short_array_set_ok_def)

lemma doc_id_set_enum_iterator_ok:
  assumes "doc_id_set_ok d"
  obtains it where "doc_id_set_enum_iterator d = Inr (Some it)" "doc_iter_enum_inv it" "doc_iter_enum_pos it = - 1"
    "doc_iter_enum_docs it = doc_id_set_docs d"
proof (cases d)
  case (ShortArray s)
  then show thesis
    using assms short_array_new_inv [of s]
    by (intro that [of "ShortArrayIter (short_array_new (sas_docs s) (sas_length s))"])
      (simp_all add: doc_id_set_enum_iterator_def short_array_set_iterator_def doc_iter_enum_views doc_id_set_docs_def doc_id_set_ok_def)
next
  case (IntArray s)
  then show thesis
    using assms
    by (intro that [of "IntArrayIter (int_array_new (fst s) (snd s))"])
      (simp_all add: doc_id_set_enum_iterator_def int_array_set_iterator_def doc_iter_enum_views doc_id_set_docs_def doc_id_set_ok_def
        int_array_new_def int_array_inv_def int_array_docs_def int_array_iter_def)
next
  case (NotDocId s)
  then show thesis
    using assms short_array_new_inv [of "nds_set s"]
    by (intro that [of "NotDocIter (not_doc_new (short_array_new (sas_docs (nds_set s)) (sas_length (nds_set s))) (nds_max_doc s))"])
      (simp_all add: doc_id_set_enum_iterator_def not_doc_id_set_iterator_def short_array_set_iterator_def doc_iter_enum_views
        doc_id_set_docs_def doc_id_set_ok_def not_doc_new_def not_inv_def not_docs_def not_doc_iter_def)
next
  case (BitDocId s)
  then show thesis
    using assms
    by (intro that [of "BitDocIter \<lparr>bsd_bits = bds_set s, bsd_length = fbs_len (bds_set s), bsd_cost = bds_cost s, bsd_doc = - 1\<rparr>"])
      (simp_all add: doc_id_set_enum_iterator_def bit_doc_id_set_iterator_def bit_set_doc_new_def doc_iter_enum_views
        doc_id_set_docs_def doc_id_set_ok_def bit_set_doc_inv_def bit_set_doc_docs_def bit_set_doc_iter_def)
qed





end
