(* ===== verification/Heap_Order.thy ===== *)
theory Heap_Order
  imports Rucene_Prelude "HOL-Library.Multiset"
begin

text \<open>
  Array heaps, shared by the binary heap and the queue of iterators. The sources move a hole through
  the array and fill it at the end: \<open>hole_inv\<close> says that the array is a heap but for the hole,
  and the lemmas move the hole up to its parent or down to its better child and close it.
  \<open>before\<close> is the order of the heap, a total preorder in which the top comes first.
\<close>

definition parent :: "nat \<Rightarrow> nat" where
  "parent i = (i - 1) div 2"

lemma parent_less: "0 < i \<Longrightarrow> parent i < i"
  by (auto simp: parent_def)

lemma parent_eq_iff: "0 < i \<Longrightarrow> parent i = p \<longleftrightarrow> i = 2 * p + 1 \<or> i = 2 * p + 2"
  unfolding parent_def by auto

lemma parent_child [simp]: "parent (2 * p + 1) = p" "parent (2 * p + 2) = p" "parent (Suc (2 * p)) = p" "parent (Suc (Suc (2 * p))) = p"
  by (simp_all add: parent_def)

definition heap_inv :: "('a \<Rightarrow> 'a \<Rightarrow> bool) \<Rightarrow> 'a list \<Rightarrow> nat \<Rightarrow> bool" where
  "heap_inv before xs n \<longleftrightarrow> (\<forall>i. 0 < i \<longrightarrow> i < n \<longrightarrow> before (xs ! parent i) (xs ! i))"

definition hole_inv :: "('a \<Rightarrow> 'a \<Rightarrow> bool) \<Rightarrow> 'a list \<Rightarrow> nat \<Rightarrow> nat \<Rightarrow> bool" where
  "hole_inv before xs p n \<longleftrightarrow>
     (\<forall>i. 0 < i \<longrightarrow> i < n \<longrightarrow> i \<noteq> p \<longrightarrow> parent i \<noteq> p \<longrightarrow> before (xs ! parent i) (xs ! i)) \<and>
     (\<forall>i. 0 < i \<longrightarrow> i < n \<longrightarrow> parent i = p \<longrightarrow> 0 < p \<longrightarrow> before (xs ! parent p) (xs ! i))"

lemma hole_invD:
  "hole_inv before xs p n \<Longrightarrow> 0 < i \<Longrightarrow> i < n \<Longrightarrow> i \<noteq> p \<Longrightarrow> parent i \<noteq> p \<Longrightarrow> before (xs ! parent i) (xs ! i)"
  by (simp add: hole_inv_def)

text \<open>The element is not before its parent, or its children are not before it.\<close>

definition below_parent :: "('a \<Rightarrow> 'a \<Rightarrow> bool) \<Rightarrow> 'a list \<Rightarrow> nat \<Rightarrow> 'a \<Rightarrow> bool" where
  "below_parent before xs p x \<longleftrightarrow> (0 < p \<longrightarrow> before (xs ! parent p) x)"

definition above_children :: "('a \<Rightarrow> 'a \<Rightarrow> bool) \<Rightarrow> 'a list \<Rightarrow> nat \<Rightarrow> nat \<Rightarrow> 'a \<Rightarrow> bool" where
  "above_children before xs p n x \<longleftrightarrow> (\<forall>i. 0 < i \<longrightarrow> i < n \<longrightarrow> parent i = p \<longrightarrow> before x (xs ! i))"

lemma mset_move_hole:
  assumes "p \<noteq> q" "p < length xs" "q < length xs"
  shows "mset (xs[p := xs ! q, q := x]) = mset (xs[p := x])"
proof -
  have "mset (xs[p := x]) = mset ((xs[p := x])[p := xs[p := x] ! q, q := xs[p := x] ! p])"
    using assms by (simp only: mset_swap length_list_update)
  then show ?thesis using assms by simp
qed

lemma mset_fill_hole: "p < length xs \<Longrightarrow> mset (xs[p := xs ! p]) = mset xs"
  by simp

locale heap_order =
  fixes before :: "'a \<Rightarrow> 'a \<Rightarrow> bool"
  assumes before_trans: "before x y \<Longrightarrow> before y z \<Longrightarrow> before x z"
    and before_total: "before x y \<or> before y x"
begin

lemma before_refl: "before x x"
  using before_total by blast

lemma close_hole:
  assumes "hole_inv before xs p n" "below_parent before xs p x" "above_children before xs p n x" "n \<le> length xs"
  shows "heap_inv before (xs[p := x]) n"
  unfolding heap_inv_def
proof (intro allI impI)
  fix i assume i: "0 < i" "i < n"
  then have pi: "parent i < length xs" "parent i < i" using parent_less [of i] assms(4) by auto
  consider "i = p" | "parent i = p" "i \<noteq> p" | "i \<noteq> p" "parent i \<noteq> p" by blast
  then show "before (xs[p := x] ! parent i) (xs[p := x] ! i)"
  proof cases
    case 1
    then show ?thesis using assms i pi by (simp add: below_parent_def)
  next
    case 2
    then show ?thesis using assms i pi by (simp add: above_children_def)
  next
    case 3
    then show ?thesis using hole_invD [OF assms(1) i] by simp
  qed
qed

lemma open_hole: "heap_inv before xs n \<Longrightarrow> hole_inv before xs p n"
  unfolding heap_inv_def hole_inv_def using before_trans parent_less by (metis order_less_trans)

lemma move_up:
  assumes h: "hole_inv before xs p n" and p: "0 < p" "p < n" "n \<le> length xs"
  shows "hole_inv before (xs[p := xs ! parent p]) (parent p) n"
proof -
  let ?q = "parent p" and ?ys = "xs[p := xs ! parent p]"
  have q: "?q < p" by (rule parent_less [OF p(1)])
  have "before (?ys ! parent i) (?ys ! i)" if i: "0 < i" "i < n" "i \<noteq> ?q" "parent i \<noteq> ?q" for i
  proof (cases "parent i = p")
    case True
    then have "i \<noteq> p" using parent_less [OF i(1)] by simp
    then show ?thesis using h i p True by (auto simp: hole_inv_def)
  next
    case False
    moreover have "i \<noteq> p" using i(4) by auto
    ultimately show ?thesis using h i p by (auto simp: hole_inv_def)
  qed
  moreover have "before (?ys ! parent ?q) (?ys ! i)" if i: "0 < i" "i < n" "parent i = ?q" "0 < ?q" for i
  proof -
    have g: "parent ?q < ?q" using i(4) by (rule parent_less)
    have pq: "before (xs ! parent ?q) (xs ! ?q)"
      using h i(4) p q g by (auto simp: hole_inv_def)
    show ?thesis
    proof (cases "i = p")
      case True
      then show ?thesis using pq p q g by simp
    next
      case False
      then have "before (xs ! ?q) (xs ! i)" using hole_invD [OF h i(1,2)] i(3) q by simp
      with pq show ?thesis using before_trans False q g p by auto
    qed
  qed
  ultimately show ?thesis unfolding hole_inv_def by blast
qed

lemma move_up_children:
  assumes h: "hole_inv before xs p n" and p: "0 < p" "p < n" "n \<le> length xs" and x: "before x (xs ! parent p)"
  shows "above_children before (xs[p := xs ! parent p]) (parent p) n x"
  unfolding above_children_def
proof (intro allI impI)
  fix i assume i: "0 < i" "i < n" "parent i = parent p"
  show "before x (xs[p := xs ! parent p] ! i)"
  proof (cases "i = p")
    case True
    then show ?thesis using x p by simp
  next
    case False
    then have "before (xs ! parent p) (xs ! i)"
      using hole_invD [OF h i(1,2)] i(3) parent_less [OF p(1)] by simp
    with x show ?thesis using False before_trans by auto
  qed
qed

lemma move_down:
  assumes h: "hole_inv before xs p n" and c: "0 < c" "c < n" "parent c = p" "n \<le> length xs"
    and best: "above_children before xs p n (xs ! c)"
  shows "hole_inv before (xs[p := xs ! c]) c n" "below_parent before (xs[p := xs ! c]) c x = before (xs ! c) x"
proof -
  let ?ys = "xs[p := xs ! c]"
  have p: "p < c" using parent_less [OF c(1)] c(3) by simp
  have "before (?ys ! parent i) (?ys ! i)" if i: "0 < i" "i < n" "i \<noteq> c" "parent i \<noteq> c" for i
  proof -
    have pi: "parent i < i" by (rule parent_less [OF i(1)])
    consider "i = p" | "parent i = p" | "i \<noteq> p" "parent i \<noteq> p" by blast
    then show ?thesis
    proof cases
      case 1
      then show ?thesis using h c i pi p by (auto simp: hole_inv_def)
    next
      case 2
      then show ?thesis using best i c p pi by (auto simp: above_children_def)
    next
      case 3
      then show ?thesis using h i by (auto simp: hole_inv_def)
    qed
  qed
  moreover have "before (?ys ! parent c) (?ys ! i)" if i: "0 < i" "i < n" "parent i = c" for i
  proof -
    have "i > c" using parent_less [OF i(1)] i(3) by simp
    then have "before (xs ! c) (xs ! i)" using h i p by (auto simp: hole_inv_def)
    then show ?thesis using \<open>i > c\<close> p c by simp
  qed
  ultimately show "hole_inv before ?ys c n" unfolding hole_inv_def by blast
  show "below_parent before ?ys c x = before (xs ! c) x"
    using c p by (simp add: below_parent_def)
qed

lemma no_children: "n \<le> 2 * p + 1 \<Longrightarrow> above_children before xs p n x"
  by (auto simp: above_children_def parent_eq_iff)

lemma children_cases:
  "above_children before xs p n x \<longleftrightarrow>
     (2 * p + 1 < n \<longrightarrow> before x (xs ! (2 * p + 1))) \<and> (2 * p + 2 < n \<longrightarrow> before x (xs ! (2 * p + 2)))"
  by (auto simp: above_children_def parent_eq_iff)

lemma heap_top:
  assumes "heap_inv before xs n" "i < n"
  shows "before (xs ! 0) (xs ! i)"
  using assms(2)
proof (induction i rule: less_induct)
  case (less i)
  show ?case
  proof (cases "i = 0")
    case False
    then have "before (xs ! 0) (xs ! parent i)" using less.IH [of "parent i"] less.prems parent_less [of i] by simp
    then show ?thesis using assms(1) False less.prems before_trans by (auto simp: heap_inv_def)
  qed (simp add: before_refl)
qed

lemma heap_inv_mono: "heap_inv before xs n \<Longrightarrow> m \<le> n \<Longrightarrow> heap_inv before xs m"
  by (auto simp: heap_inv_def)

end

end
