(* ===== verification/Binary_Heap.thy ===== *)
theory Binary_Heap
  imports Heap_Order
begin

text \<open>
  The binary heap of \<^verbatim>\<open>util/external/binary_heap.rs\<close>, a copy of the standard library's with
  access to its array. \<open>le\<close> is the \<open><=\<close> of the element type; the greatest element is at the top.
  The contract of a priority queue, over the multiset of its elements, is \<open>priority_queue\<close>.
\<close>

section \<open>The hole\<close>

record 'a hole =
  hole_data :: "'a list"
  hole_elt :: 'a
  hole_pos :: nat

definition hole_new :: "'a list \<Rightarrow> nat \<Rightarrow> 'a hole result" where
  "hole_new data pos =
     (if pos < length data then Inr \<lparr>hole_data = data, hole_elt = data ! pos, hole_pos = pos\<rparr>
      else Inl (Panic ''pos < data.len()''))"

definition hole_get :: "nat \<Rightarrow> 'a hole \<Rightarrow> 'a result" where
  "hole_get index h =
     (if index = hole_pos h then Inl (Panic ''index != self.pos'')
      else if \<not> index < length (hole_data h) then Inl (Panic ''index < self.data.len()'')
      else Inr (hole_data h ! index))"

definition hole_move_to :: "nat \<Rightarrow> 'a hole \<Rightarrow> 'a hole result" where
  "hole_move_to index h =
     (if index = hole_pos h then Inl (Panic ''index != self.pos'')
      else if \<not> index < length (hole_data h) then Inl (Panic ''index < self.data.len()'')
      else Inr (h\<lparr>hole_data := (hole_data h)[hole_pos h := hole_data h ! index], hole_pos := index\<rparr>))"

definition hole_drop :: "'a hole \<Rightarrow> 'a list" where
  "hole_drop h = (hole_data h)[hole_pos h := hole_elt h]"

lemma hole_move_to_pos: "hole_move_to index h = Inr h' \<Longrightarrow> hole_pos h' = index"
  by (auto simp: hole_move_to_def split: if_splits)

section \<open>The heap\<close>

function sift_up_loop :: "('a \<Rightarrow> 'a \<Rightarrow> bool) \<Rightarrow> nat \<Rightarrow> 'a hole \<Rightarrow> 'a hole result" where
  "sift_up_loop le start h =
     (if \<not> start < hole_pos h then Inr h
      else let par = (hole_pos h - 1) div 2
           in rbind (hole_get par h) (\<lambda>x.
                if le (hole_elt h) x then Inr h
                else rbind (hole_move_to par h) (sift_up_loop le start)))"
  by pat_completeness auto
termination
  by (relation "measure (\<lambda>(le, start, h). hole_pos h)") (auto dest!: hole_move_to_pos)

declare sift_up_loop.simps [simp del]

definition sift_up :: "('a \<Rightarrow> 'a \<Rightarrow> bool) \<Rightarrow> nat \<Rightarrow> nat \<Rightarrow> 'a list \<Rightarrow> ('a list \<times> nat) result" where
  "sift_up le start pos data =
     rbind (hole_new data pos) (\<lambda>h.
       rbind (sift_up_loop le start h) (\<lambda>h'. Inr (hole_drop h', hole_pos h')))"

text \<open>The greater of the two children, the right one if they are equal.\<close>

definition greater_child :: "('a \<Rightarrow> 'a \<Rightarrow> bool) \<Rightarrow> nat \<Rightarrow> nat \<Rightarrow> 'a hole \<Rightarrow> nat result" where
  "greater_child le end' child h =
     (let right = child + 1
      in if right < end'
         then rbind (hole_get child h) (\<lambda>x. rbind (hole_get right h) (\<lambda>y. Inr (if le x y then right else child)))
         else Inr child)"

lemma greater_child_ge: "greater_child le end' child h = Inr c \<Longrightarrow> child \<le> c"
  by (auto simp: greater_child_def Let_def rbind_eq_Inr split: if_splits)

function sift_down_loop :: "('a \<Rightarrow> 'a \<Rightarrow> bool) \<Rightarrow> nat \<Rightarrow> nat \<Rightarrow> 'a hole \<Rightarrow> 'a hole result" where
  "sift_down_loop le end' child h =
     (if \<not> child < end' then Inr h
      else rbind (greater_child le end' child h) (\<lambda>c.
           rbind (hole_get c h) (\<lambda>x.
             if le x (hole_elt h) then Inr h
             else rbind (hole_move_to c h) (\<lambda>h'. sift_down_loop le end' (2 * hole_pos h' + 1) h'))))"
  by pat_completeness auto
termination
  by (relation "measure (\<lambda>(le, end', child, h). end' - child)")
    (auto dest!: hole_move_to_pos greater_child_ge)

declare sift_down_loop.simps [simp del]

definition sift_down_range :: "('a \<Rightarrow> 'a \<Rightarrow> bool) \<Rightarrow> nat \<Rightarrow> nat \<Rightarrow> 'a list \<Rightarrow> 'a list result" where
  "sift_down_range le pos end' data =
     rbind (hole_new data pos) (\<lambda>h.
       rbind (sift_down_loop le end' (2 * pos + 1) h) (\<lambda>h'. Inr (hole_drop h')))"

definition sift_down :: "('a \<Rightarrow> 'a \<Rightarrow> bool) \<Rightarrow> nat \<Rightarrow> 'a list \<Rightarrow> 'a list result" where
  "sift_down le pos data = sift_down_range le pos (length data) data"

function to_bottom_loop :: "('a \<Rightarrow> 'a \<Rightarrow> bool) \<Rightarrow> nat \<Rightarrow> nat \<Rightarrow> 'a hole \<Rightarrow> 'a hole result" where
  "to_bottom_loop le end' child h =
     (if \<not> child < end' then Inr h
      else rbind (greater_child le end' child h) (\<lambda>c.
           rbind (hole_move_to c h) (\<lambda>h'. to_bottom_loop le end' (2 * hole_pos h' + 1) h')))"
  by pat_completeness auto
termination
  by (relation "measure (\<lambda>(le, end', child, h). end' - child)")
    (auto dest!: hole_move_to_pos greater_child_ge)

declare to_bottom_loop.simps [simp del]

definition sift_down_to_bottom :: "('a \<Rightarrow> 'a \<Rightarrow> bool) \<Rightarrow> nat \<Rightarrow> 'a list \<Rightarrow> 'a list result" where
  "sift_down_to_bottom le pos data =
     rbind (hole_new data pos) (\<lambda>h.
       rbind (to_bottom_loop le (length data) (2 * pos + 1) h) (\<lambda>h'.
         rbind (sift_up le pos (hole_pos h') (hole_drop h')) (\<lambda>(data', p). Inr data')))"

definition bh_new :: "'a list" where
  "bh_new = []"

definition bh_len :: "'a list \<Rightarrow> nat" where
  "bh_len data = length data"

definition bh_is_empty :: "'a list \<Rightarrow> bool" where
  "bh_is_empty data \<longleftrightarrow> bh_len data = 0"

definition bh_peek :: "'a list \<Rightarrow> 'a option" where
  "bh_peek data = (case data of [] \<Rightarrow> None | x # xs \<Rightarrow> Some x)"

definition bh_pop :: "('a \<Rightarrow> 'a \<Rightarrow> bool) \<Rightarrow> 'a list \<Rightarrow> ('a option \<times> 'a list) result" where
  "bh_pop le data =
     (if data = [] then Inr (None, data)
      else let item = last data; rest = butlast data
           in if bh_is_empty rest then Inr (Some item, rest)
              else rbind (sift_down_to_bottom le 0 (rest[0 := item])) (\<lambda>data'. Inr (Some (rest ! 0), data')))"

definition bh_push :: "('a \<Rightarrow> 'a \<Rightarrow> bool) \<Rightarrow> 'a \<Rightarrow> 'a list \<Rightarrow> 'a list result" where
  "bh_push le item data =
     (let old_len = bh_len data
      in rbind (sift_up le 0 old_len (data @ [item])) (\<lambda>(data', p). Inr data'))"

definition bh_clear :: "'a list \<Rightarrow> 'a list" where
  "bh_clear data = []"

text \<open>The guard of \<open>peek_mut\<close>: written through, it sifts when it is dropped, unless it was popped.\<close>

record 'a peek_mut =
  pm_heap :: "'a list"
  pm_sift :: bool

definition bh_peek_mut :: "'a list \<Rightarrow> 'a peek_mut option" where
  "bh_peek_mut data = (if bh_is_empty data then None else Some \<lparr>pm_heap = data, pm_sift = True\<rparr>)"

definition pm_deref :: "'a peek_mut \<Rightarrow> 'a" where
  "pm_deref g = pm_heap g ! 0"

definition pm_deref_mut :: "'a \<Rightarrow> 'a peek_mut \<Rightarrow> 'a peek_mut" where
  "pm_deref_mut x g = g\<lparr>pm_heap := (pm_heap g)[0 := x]\<rparr>"

definition pm_drop :: "('a \<Rightarrow> 'a \<Rightarrow> bool) \<Rightarrow> 'a peek_mut \<Rightarrow> 'a list result" where
  "pm_drop le g = (if pm_sift g then sift_down le 0 (pm_heap g) else Inr (pm_heap g))"

definition pm_pop :: "('a \<Rightarrow> 'a \<Rightarrow> bool) \<Rightarrow> 'a peek_mut \<Rightarrow> ('a \<times> 'a list) result" where
  "pm_pop le g =
     rbind (bh_pop le (pm_heap g)) (\<lambda>(r, data).
       case r of
         None \<Rightarrow> Inl (Panic ''unwrap on None'')
       | Some value \<Rightarrow> rbind (pm_drop le \<lparr>pm_heap = data, pm_sift = False\<rparr>) (\<lambda>data'. Inr (value, data')))"

text \<open>Writing through the guard and dropping it.\<close>

definition bh_replace_top :: "('a \<Rightarrow> 'a \<Rightarrow> bool) \<Rightarrow> 'a \<Rightarrow> 'a list \<Rightarrow> 'a list result" where
  "bh_replace_top le y data =
     (case bh_peek_mut data of None \<Rightarrow> Inr data | Some g \<Rightarrow> pm_drop le (pm_deref_mut y g))"

section \<open>The contract of a priority queue\<close>

locale priority_queue =
  fixes le :: "'a \<Rightarrow> 'a \<Rightarrow> bool"
    and push :: "'a \<Rightarrow> 'h \<Rightarrow> 'h result"
    and pop :: "'h \<Rightarrow> ('a option \<times> 'h) result"
    and peek :: "'h \<Rightarrow> 'a option"
    and replace_top :: "'a \<Rightarrow> 'h \<Rightarrow> 'h result"
    and contents :: "'h \<Rightarrow> 'a multiset"
    and invar :: "'h \<Rightarrow> bool"
  assumes le_trans: "le x y \<Longrightarrow> le y z \<Longrightarrow> le x z"
    and le_total: "le x y \<or> le y x"
    and push_ok: "invar h \<Longrightarrow> \<exists>h'. push x h = Inr h' \<and> invar h' \<and> contents h' = add_mset x (contents h)"
    and pop_empty: "invar h \<Longrightarrow> contents h = {#} \<Longrightarrow> pop h = Inr (None, h)"
    and pop_ok: "invar h \<Longrightarrow> contents h \<noteq> {#} \<Longrightarrow>
      \<exists>x h'. pop h = Inr (Some x, h') \<and> invar h' \<and> contents h = add_mset x (contents h') \<and> (\<forall>y \<in># contents h. le y x)"
    and peek_empty: "invar h \<Longrightarrow> contents h = {#} \<Longrightarrow> peek h = None"
    and peek_ok: "invar h \<Longrightarrow> contents h \<noteq> {#} \<Longrightarrow> \<exists>x. peek h = Some x \<and> x \<in># contents h \<and> (\<forall>y \<in># contents h. le y x)"
    and replace_ok: "invar h \<Longrightarrow> peek h = Some x \<Longrightarrow>
      \<exists>h'. replace_top y h = Inr h' \<and> invar h' \<and> contents h' = add_mset y (contents h - {#x#})"

text \<open>Popping \<open>n\<close> times, as the clients that empty a queue do.\<close>

fun pop_many :: "('h \<Rightarrow> ('a option \<times> 'h) result) \<Rightarrow> nat \<Rightarrow> 'h \<Rightarrow> ('a list \<times> 'h) result" where
  "pop_many pop 0 h = Inr ([], h)"
| "pop_many pop (Suc n) h =
     rbind (pop h) (\<lambda>(r, h').
       case r of
         None \<Rightarrow> Inl (Panic ''unwrap on None'')
       | Some x \<Rightarrow> rbind (pop_many pop n h') (\<lambda>(xs, h''). Inr (x # xs, h'')))"

context priority_queue
begin

text \<open>As many pops as there are elements return them all, each no greater than the ones before it.\<close>

lemma pop_many_sorts:
  assumes "invar h" "n \<le> size (contents h)"
  shows "\<exists>xs h'. pop_many pop n h = Inr (xs, h') \<and> invar h' \<and> contents h = mset xs + contents h' \<and>
    length xs = n \<and> sorted_wrt (\<lambda>x y. le y x) xs \<and> (\<forall>x \<in> set xs. \<forall>y \<in># contents h'. le y x)"
  using assms
proof (induction n arbitrary: h)
  case 0
  then show ?case by simp
next
  case (Suc n)
  from Suc.prems have "contents h \<noteq> {#}" by auto
  then obtain x h1 where h1: "pop h = Inr (Some x, h1)" "invar h1" "contents h = add_mset x (contents h1)"
      "\<forall>y \<in># contents h. le y x"
    using pop_ok [OF Suc.prems(1)] by blast
  then obtain xs h' where xs: "pop_many pop n h1 = Inr (xs, h')" "invar h'" "contents h1 = mset xs + contents h'"
      "length xs = n" "sorted_wrt (\<lambda>x y. le y x) xs" "\<forall>x \<in> set xs. \<forall>y \<in># contents h'. le y x"
    using Suc.IH [OF h1(2)] Suc.prems(2) by auto
  have "\<forall>y \<in> set xs. le y x" "\<forall>y \<in># contents h'. le y x" using h1(3,4) xs(3) by auto
  with h1 xs show ?case by (intro exI [of _ "x # xs"] exI [of _ h']) auto
qed

end

section \<open>The heap keeps its order\<close>

locale ord_heap =
  fixes le :: "'a \<Rightarrow> 'a \<Rightarrow> bool"
  assumes le_trans: "le x y \<Longrightarrow> le y z \<Longrightarrow> le x z"
    and le_total: "le x y \<or> le y x"

sublocale ord_heap \<subseteq> heap_order "\<lambda>x y. le y x"
  by unfold_locales (use le_trans le_total in blast)+

abbreviation hole_ok :: "('a \<Rightarrow> 'a \<Rightarrow> bool) \<Rightarrow> 'a hole \<Rightarrow> bool" where
  "hole_ok le h \<equiv> hole_inv (\<lambda>x y. le y x) (hole_data h) (hole_pos h) (length (hole_data h)) \<and> hole_pos h < length (hole_data h)"

abbreviation bh_inv :: "('a \<Rightarrow> 'a \<Rightarrow> bool) \<Rightarrow> 'a list \<Rightarrow> bool" where
  "bh_inv le data \<equiv> heap_inv (\<lambda>x y. le y x) data (length data)"

lemma hole_drop_mset_move:
  assumes "c \<noteq> hole_pos h" "c < length (hole_data h)" "hole_pos h < length (hole_data h)"
    and "h' = h\<lparr>hole_data := (hole_data h)[hole_pos h := hole_data h ! c], hole_pos := c\<rparr>"
  shows "mset (hole_drop h') = mset (hole_drop h)"
  using mset_move_hole [of "hole_pos h" c "hole_data h" "hole_elt h"] assms by (simp add: hole_drop_def)

context ord_heap
begin

lemma sift_up_loop_ok:
  assumes "hole_ok le h" "above_children (\<lambda>x y. le y x) (hole_data h) (hole_pos h) (length (hole_data h)) (hole_elt h)"
  shows "\<exists>h'. sift_up_loop le 0 h = Inr h' \<and> bh_inv le (hole_drop h') \<and> mset (hole_drop h') = mset (hole_drop h)"
  using assms
proof (induction "hole_pos h" arbitrary: h rule: less_induct)
  case less
  let ?xs = "hole_data h" and ?p = "hole_pos h" and ?x = "hole_elt h"
  let ?q = "(?p - 1) div 2"
  have close: "below_parent (\<lambda>x y. le y x) ?xs ?p ?x \<Longrightarrow> bh_inv le (hole_drop h)"
    using close_hole [of ?xs ?p "length ?xs" ?x] less.prems by (simp add: hole_drop_def)
  show ?case
  proof (cases "?p = 0")
    case True
    then show ?thesis using close by (subst sift_up_loop.simps) (simp add: below_parent_def)
  next
    case False
    then have p: "0 < ?p" and q: "parent ?p = ?q" "?q < ?p" using parent_less [of ?p] by (auto simp: parent_def)
    have get: "hole_get ?q h = Inr (?xs ! ?q)" using less.prems q by (simp add: hole_get_def)
    show ?thesis
    proof (cases "le ?x (?xs ! ?q)")
      case True
      then show ?thesis using close get p q(1) by (subst sift_up_loop.simps) (simp add: below_parent_def Let_def)
    next
      case False
      define h' where "h' = h\<lparr>hole_data := ?xs[?p := ?xs ! ?q], hole_pos := ?q\<rparr>"
      have mv: "hole_move_to ?q h = Inr h'" using less.prems q by (simp add: hole_move_to_def h'_def)
      have "hole_ok le h'"
        using move_up [of ?xs ?p "length ?xs"] less.prems p q by (simp add: h'_def)
      moreover have "above_children (\<lambda>x y. le y x) (hole_data h') (hole_pos h') (length (hole_data h')) (hole_elt h')"
        using move_up_children [of ?xs ?p "length ?xs" ?x] less.prems p q False le_total by (auto simp: h'_def)
      moreover have "mset (hole_drop h') = mset (hole_drop h)"
        using less.prems q by (intro hole_drop_mset_move [OF _ _ _ h'_def]) auto
      moreover have "hole_pos h' < ?p" using q by (simp add: h'_def)
      ultimately show ?thesis
        using less.hyps [of h'] mv get False p by (subst sift_up_loop.simps) (simp add: Let_def)
    qed
  qed
qed

lemma sift_up_ok:
  assumes "hole_inv (\<lambda>x y. le y x) data pos (length data)" "pos < length data"
    "above_children (\<lambda>x y. le y x) data pos (length data) (data ! pos)"
  shows "\<exists>data' p. sift_up le 0 pos data = Inr (data', p) \<and> bh_inv le data' \<and> mset data' = mset data"
  using sift_up_loop_ok [of "\<lparr>hole_data = data, hole_elt = data ! pos, hole_pos = pos\<rparr>"] assms
  by (auto simp: sift_up_def hole_new_def hole_drop_def)

lemma greater_child_ok:
  assumes "hole_ok le h" "2 * hole_pos h + 1 < length (hole_data h)"
  obtains c where "greater_child le (length (hole_data h)) (2 * hole_pos h + 1) h = Inr c"
    "c < length (hole_data h)" "parent c = hole_pos h" "hole_pos h < c"
    "above_children (\<lambda>x y. le y x) (hole_data h) (hole_pos h) (length (hole_data h)) (hole_data h ! c)"
proof -
  let ?xs = "hole_data h" and ?l = "2 * hole_pos h + 1"
  let ?c = "if ?l + 1 < length ?xs \<and> le (?xs ! ?l) (?xs ! (?l + 1)) then ?l + 1 else ?l"
  have "greater_child le (length ?xs) ?l h = Inr ?c"
    using assms by (simp add: greater_child_def hole_get_def Let_def)
  moreover have "above_children (\<lambda>x y. le y x) ?xs (hole_pos h) (length ?xs) (?xs ! ?c)"
    unfolding children_cases using assms le_total before_refl by auto
  moreover have "?c < length ?xs" "parent ?c = hole_pos h" "hole_pos h < ?c" using assms by auto
  ultimately show thesis using that by blast
qed

lemma move_down_ok:
  assumes "hole_ok le h" "c < length (hole_data h)" "parent c = hole_pos h" "hole_pos h < c"
    "above_children (\<lambda>x y. le y x) (hole_data h) (hole_pos h) (length (hole_data h)) (hole_data h ! c)"
  obtains h' where "hole_move_to c h = Inr h'" "hole_ok le h'" "hole_pos h' = c" "hole_elt h' = hole_elt h"
    "length (hole_data h') = length (hole_data h)" "mset (hole_drop h') = mset (hole_drop h)"
    "below_parent (\<lambda>x y. le y x) (hole_data h') c (hole_elt h) = le (hole_elt h) (hole_data h ! c)"
proof -
  let ?xs = "hole_data h"
  define h' where "h' = h\<lparr>hole_data := ?xs[hole_pos h := ?xs ! c], hole_pos := c\<rparr>"
  have "mset (hole_drop h') = mset (hole_drop h)"
    using assms by (intro hole_drop_mset_move [OF _ _ _ h'_def]) auto
  moreover have "hole_move_to c h = Inr h'" using assms by (simp add: hole_move_to_def h'_def)
  moreover have "hole_ok le h'" "below_parent (\<lambda>x y. le y x) (hole_data h') c (hole_elt h) = le (hole_elt h) (?xs ! c)"
    using move_down(1) [of ?xs "hole_pos h" "length ?xs" c] move_down(2) [of ?xs "hole_pos h" "length ?xs" c "hole_elt h"] assms
    by (auto simp: h'_def)
  ultimately show thesis using that [of h'] by (simp add: h'_def)
qed

lemma sift_down_loop_ok:
  assumes "hole_ok le h" "below_parent (\<lambda>x y. le y x) (hole_data h) (hole_pos h) (hole_elt h)"
  shows "\<exists>h'. sift_down_loop le (length (hole_data h)) (2 * hole_pos h + 1) h = Inr h' \<and>
    bh_inv le (hole_drop h') \<and> mset (hole_drop h') = mset (hole_drop h)"
  using assms
proof (induction "length (hole_data h) - hole_pos h" arbitrary: h rule: less_induct)
  case less
  let ?xs = "hole_data h" and ?p = "hole_pos h" and ?x = "hole_elt h"
  have close: "above_children (\<lambda>x y. le y x) ?xs ?p (length ?xs) ?x \<Longrightarrow> bh_inv le (hole_drop h)"
    using close_hole [of ?xs ?p "length ?xs" ?x] less.prems by (simp add: hole_drop_def)
  show ?case
  proof (cases "2 * ?p + 1 < length ?xs")
    case False
    then show ?thesis using close no_children [of "length ?xs" ?p ?xs ?x] by (subst sift_down_loop.simps) simp
  next
    case True
    obtain c where c: "greater_child le (length ?xs) (2 * ?p + 1) h = Inr c" "c < length ?xs" "parent c = ?p" "?p < c"
        "above_children (\<lambda>x y. le y x) ?xs ?p (length ?xs) (?xs ! c)"
      by (rule greater_child_ok [OF less.prems(1) True])
    have get: "hole_get c h = Inr (?xs ! c)" using c by (simp add: hole_get_def)
    show ?thesis
    proof (cases "le (?xs ! c) ?x")
      case stop: True
      then have "above_children (\<lambda>x y. le y x) ?xs ?p (length ?xs) ?x"
        using c(5) le_trans unfolding above_children_def by blast
      then show ?thesis using close c(1) get stop True by (subst sift_down_loop.simps) simp
    next
      case go: False
      obtain h' where h': "hole_move_to c h = Inr h'" "hole_ok le h'" "hole_pos h' = c" "hole_elt h' = ?x"
          "length (hole_data h') = length ?xs" "mset (hole_drop h') = mset (hole_drop h)"
          "below_parent (\<lambda>x y. le y x) (hole_data h') c ?x = le ?x (?xs ! c)"
        by (rule move_down_ok [OF less.prems(1) c(2-5)])
      have "below_parent (\<lambda>x y. le y x) (hole_data h') (hole_pos h') (hole_elt h')"
        using h' go le_total by auto
      moreover have "length ?xs - hole_pos h' < length ?xs - ?p" using c(2,4) h'(3) by simp
      ultimately obtain h'' where "sift_down_loop le (length ?xs) (2 * c + 1) h' = Inr h''"
          "bh_inv le (hole_drop h'')" "mset (hole_drop h'') = mset (hole_drop h)"
        using less.hyps [of h'] h' by auto
      then show ?thesis using c(1) get go True h'(1,3) by (subst sift_down_loop.simps) simp
    qed
  qed
qed

lemma to_bottom_loop_ok:
  assumes "hole_ok le h"
  shows "\<exists>h'. to_bottom_loop le (length (hole_data h)) (2 * hole_pos h + 1) h = Inr h' \<and> hole_ok le h' \<and>
    length (hole_data h') = length (hole_data h) \<and> length (hole_data h) \<le> 2 * hole_pos h' + 1 \<and>
    mset (hole_drop h') = mset (hole_drop h)"
  using assms
proof (induction "length (hole_data h) - hole_pos h" arbitrary: h rule: less_induct)
  case less
  let ?xs = "hole_data h" and ?p = "hole_pos h"
  show ?case
  proof (cases "2 * ?p + 1 < length ?xs")
    case False
    then show ?thesis using less.prems by (subst to_bottom_loop.simps) simp
  next
    case True
    obtain c where c: "greater_child le (length ?xs) (2 * ?p + 1) h = Inr c" "c < length ?xs" "parent c = ?p" "?p < c"
        "above_children (\<lambda>x y. le y x) ?xs ?p (length ?xs) (?xs ! c)"
      by (rule greater_child_ok [OF less.prems True])
    obtain h' where h': "hole_move_to c h = Inr h'" "hole_ok le h'" "hole_pos h' = c"
        "length (hole_data h') = length ?xs" "mset (hole_drop h') = mset (hole_drop h)"
      by (rule move_down_ok [OF less.prems c(2-5)])
    moreover have "length ?xs - hole_pos h' < length ?xs - ?p" using c(2,4) h'(3) by simp
    ultimately obtain h'' where "to_bottom_loop le (length ?xs) (2 * c + 1) h' = Inr h''" "hole_ok le h''"
        "length (hole_data h'') = length ?xs" "length ?xs \<le> 2 * hole_pos h'' + 1" "mset (hole_drop h'') = mset (hole_drop h)"
      using less.hyps [of h'] by auto
    then show ?thesis using c(1) True h'(1,3) by (subst to_bottom_loop.simps) simp
  qed
qed

lemma sift_down_ok:
  assumes "hole_inv (\<lambda>x y. le y x) data 0 (length data)" "data \<noteq> []"
  shows "\<exists>data'. sift_down le 0 data = Inr data' \<and> bh_inv le data' \<and> mset data' = mset data"
  using sift_down_loop_ok [of "\<lparr>hole_data = data, hole_elt = data ! 0, hole_pos = 0\<rparr>"] assms
  by (auto simp: sift_down_def sift_down_range_def hole_new_def hole_drop_def below_parent_def)

lemma sift_down_to_bottom_ok:
  assumes "hole_inv (\<lambda>x y. le y x) data 0 (length data)" "data \<noteq> []"
  shows "\<exists>data'. sift_down_to_bottom le 0 data = Inr data' \<and> bh_inv le data' \<and> mset data' = mset data"
proof -
  let ?h = "\<lparr>hole_data = data, hole_elt = data ! 0, hole_pos = 0\<rparr>"
  obtain h where h: "to_bottom_loop le (length data) 1 ?h = Inr h" "hole_ok le h" "length (hole_data h) = length data"
      "length data \<le> 2 * hole_pos h + 1" "mset (hole_drop h) = mset data"
    using to_bottom_loop_ok [of ?h] assms by (auto simp: hole_drop_def)
  have "hole_inv (\<lambda>x y. le y x) (hole_drop h) (hole_pos h) (length (hole_drop h))"
    unfolding hole_inv_def
  proof (intro conjI allI impI)
    fix i assume i: "0 < i" "i < length (hole_drop h)" "i \<noteq> hole_pos h" "parent i \<noteq> hole_pos h"
    then show "le (hole_drop h ! i) (hole_drop h ! parent i)"
      using hole_invD [of "\<lambda>x y. le y x" "hole_data h" "hole_pos h" "length (hole_data h)" i] h(2) by (simp add: hole_drop_def)
  next
    fix i assume "0 < i" "i < length (hole_drop h)" "parent i = hole_pos h"
    then show "le (hole_drop h ! i) (hole_drop h ! parent (hole_pos h))"
      using h(3,4) parent_eq_iff [of i "hole_pos h"] by (auto simp: hole_drop_def)
  qed
  moreover have "above_children (\<lambda>x y. le y x) (hole_drop h) (hole_pos h) (length (hole_drop h)) (hole_drop h ! hole_pos h)"
    using h(3,4) by (intro no_children) (simp add: hole_drop_def)
  ultimately obtain data' p where "sift_up le 0 (hole_pos h) (hole_drop h) = Inr (data', p)" "bh_inv le data'" "mset data' = mset data"
    using sift_up_ok [of "hole_drop h" "hole_pos h"] h by (auto simp: hole_drop_def)
  then show ?thesis using h(1) assms by (simp add: sift_down_to_bottom_def hole_new_def)
qed

lemma bh_push_ok:
  assumes "bh_inv le data"
  shows "\<exists>data'. bh_push le x data = Inr data' \<and> bh_inv le data' \<and> mset data' = add_mset x (mset data)"
proof -
  have "hole_inv (\<lambda>x y. le y x) (data @ [x]) (length data) (length (data @ [x]))"
    unfolding hole_inv_def
  proof (intro conjI allI impI)
    fix i assume "0 < i" "i < length (data @ [x])" "i \<noteq> length data"
    then show "le ((data @ [x]) ! i) ((data @ [x]) ! parent i)"
      using assms parent_less [of i] by (auto simp: heap_inv_def nth_append)
  next
    fix i assume "0 < i" "i < length (data @ [x])" "parent i = length data"
    then show "le ((data @ [x]) ! i) ((data @ [x]) ! parent (length data))"
      using parent_less [of i] by auto
  qed
  moreover have "above_children (\<lambda>x y. le y x) (data @ [x]) (length data) (length (data @ [x])) ((data @ [x]) ! length data)"
    by (rule no_children) simp
  ultimately show ?thesis
    using sift_up_ok [of "data @ [x]" "length data"] by (auto simp: bh_push_def bh_len_def)
qed

lemma heap_max: "bh_inv le data \<Longrightarrow> y \<in> set data \<Longrightarrow> le y (data ! 0)"
  using heap_top [of data "length data"] by (auto simp: in_set_conv_nth)

lemma replace_root:
  assumes "bh_inv le data"
  shows "hole_inv (\<lambda>x y. le y x) (data[0 := x]) 0 (length data)"
  using assms parent_less by (fastforce simp: hole_inv_def heap_inv_def)

lemma bh_pop_ok:
  assumes "bh_inv le data" "data \<noteq> []"
  shows "\<exists>data'. bh_pop le data = Inr (Some (data ! 0), data') \<and> bh_inv le data' \<and> mset data = add_mset (data ! 0) (mset data')"
proof (cases "butlast data = []")
  case True
  then obtain x where "data = [x]" using assms(2) by (cases data rule: rev_cases) auto
  then show ?thesis by (simp add: bh_pop_def bh_is_empty_def bh_len_def heap_inv_def)
next
  case False
  let ?r = "butlast data" and ?x = "last data"
  have data: "data = ?r @ [?x]" using assms(2) by simp
  then have top: "data ! 0 = ?r ! 0" using False by (metis length_greater_0_conv nth_append)
  have "bh_inv le ?r"
    unfolding heap_inv_def
  proof (intro allI impI)
    fix i assume i: "0 < i" "i < length ?r"
    then have "le (data ! i) (data ! parent i)" using assms(1) by (simp add: heap_inv_def)
    then show "le (?r ! i) (?r ! parent i)" using i parent_less [of i] by (simp add: nth_butlast)
  qed
  then obtain data' where d: "sift_down_to_bottom le 0 (?r[0 := ?x]) = Inr data'" "bh_inv le data'"
      "mset data' = mset (?r[0 := ?x])"
    using sift_down_to_bottom_ok [of "?r[0 := ?x]"] replace_root [of ?r ?x] False by auto
  have "mset data = add_mset ?x (mset ?r)" by (subst data) simp
  also have "\<dots> = add_mset (?r ! 0) (mset (?r[0 := ?x]))"
    using False by (cases ?r) simp_all
  finally show ?thesis using d False assms(2) top by (simp add: bh_pop_def bh_is_empty_def bh_len_def Let_def)
qed

lemma bh_replace_top_ok:
  assumes "bh_inv le data" "data \<noteq> []"
  shows "\<exists>data'. bh_replace_top le y data = Inr data' \<and> bh_inv le data' \<and> mset data' = add_mset y (mset data - {#data ! 0#})"
  using sift_down_ok [of "data[0 := y]"] replace_root [OF assms(1), of y] assms(2)
  by (auto simp: bh_replace_top_def bh_peek_mut_def bh_is_empty_def bh_len_def pm_drop_def pm_deref_mut_def mset_update)

lemma bh_peek_eq: "bh_peek data = (if data = [] then None else Some (data ! 0))"
  by (cases data) (simp_all add: bh_peek_def)

end

sublocale ord_heap \<subseteq> pq: priority_queue le "bh_push le" "bh_pop le" bh_peek "bh_replace_top le" mset "bh_inv le"
proof
  fix h :: "'a list" and x y assume h: "bh_inv le h"
  show "mset h \<noteq> {#} \<Longrightarrow> \<exists>x h'. bh_pop le h = Inr (Some x, h') \<and> bh_inv le h' \<and> mset h = add_mset x (mset h') \<and> (\<forall>y \<in># mset h. le y x)"
    using bh_pop_ok [OF h] heap_max [OF h] by auto
  show "mset h \<noteq> {#} \<Longrightarrow> \<exists>x. bh_peek h = Some x \<and> x \<in># mset h \<and> (\<forall>y \<in># mset h. le y x)"
    using heap_max [OF h] by (auto simp: bh_peek_eq)
  show "bh_peek h = Some x \<Longrightarrow> \<exists>h'. bh_replace_top le y h = Inr h' \<and> bh_inv le h' \<and> mset h' = add_mset y (mset h - {#x#})"
    using bh_replace_top_ok [OF h, of y] by (auto simp: bh_peek_eq split: if_splits)
qed (use le_trans le_total bh_push_ok in \<open>auto simp: bh_pop_def bh_peek_def\<close>)

section \<open>The heap of an ordered type\<close>

interpretation lin_heap: ord_heap "(\<le>) :: 'a::linorder \<Rightarrow> 'a \<Rightarrow> bool"
  by unfold_locales auto

text \<open>
  C4: The binary heap refines a priority queue over the multiset of its elements: pushing adds
  the element, popping removes and returns a greatest one (or nothing from an empty heap), peeking
  shows it, and writing a new top through \<open>peek_mut\<close> replaces it; every operation keeps the heap
  order, and none of the debug assertions of the hole fails.
\<close>

theorem binary_heap_operations:
  fixes data :: "'a::linorder list"
  assumes "bh_inv (\<le>) data"
  shows "(\<exists>data'. bh_push (\<le>) x data = Inr data' \<and> bh_inv (\<le>) data' \<and> mset data' = add_mset x (mset data)) \<and>
    (\<exists>r data'. bh_pop (\<le>) data = Inr (r, data') \<and> bh_inv (\<le>) data' \<and> r = bh_peek data \<and>
       mset data = (case r of None \<Rightarrow> {#} | Some m \<Rightarrow> add_mset m (mset data')) \<and>
       (data \<noteq> [] \<longrightarrow> r = Some (Max (set data)))) \<and>
    (\<exists>data'. bh_replace_top (\<le>) x data = Inr data' \<and> bh_inv (\<le>) data' \<and>
       mset data' = (if data = [] then {#} else add_mset x (mset data - {#Max (set data)#})))"
proof (cases "data = []")
  case True
  then show ?thesis
    using lin_heap.bh_push_ok [OF assms, of x]
    by (simp add: bh_pop_def bh_peek_def bh_replace_top_def bh_peek_mut_def bh_is_empty_def bh_len_def heap_inv_def)
next
  case False
  have "Max (set data) = data ! 0"
    using False lin_heap.heap_max [OF assms] by (intro Max_eqI) auto
  then show ?thesis
    using lin_heap.bh_push_ok [OF assms, of x] lin_heap.bh_pop_ok [OF assms False]
      lin_heap.bh_replace_top_ok [OF assms False, of x] False
    by (auto simp: lin_heap.bh_peek_eq)
qed

theorem binary_heap_operations_witness:
  "(\<exists>data'. bh_push (\<le>) 9 [7, 5, 6, 1 :: nat] = Inr data' \<and> bh_inv (\<le>) data' \<and> mset data' = {#9, 7, 5, 6, 1#}) \<and>
   (\<exists>data'. bh_pop (\<le>) [7, 5, 6, 1 :: nat] = Inr (Some 7, data') \<and> mset data' = {#5, 6, 1#})"
proof -
  have "bh_inv (\<le>) [7, 5, 6, 1 :: nat]"
    by (auto simp: heap_inv_def parent_def less_Suc_eq)
  from binary_heap_operations [OF this, of 9] show ?thesis by auto
qed

text \<open>Pushing a list one element after the other.\<close>

fun push_all :: "('a \<Rightarrow> 'h \<Rightarrow> 'h result) \<Rightarrow> 'a list \<Rightarrow> 'h \<Rightarrow> 'h result" where
  "push_all push [] h = Inr h"
| "push_all push (x # xs) h = rbind (push x h) (push_all push xs)"

context priority_queue
begin

lemma push_all_ok:
  "invar h \<Longrightarrow> \<exists>h'. push_all push xs h = Inr h' \<and> invar h' \<and> contents h' = contents h + mset xs"
proof (induction xs arbitrary: h)
  case (Cons x xs)
  from push_ok [OF Cons.prems, of x] obtain h1 where h1: "push x h = Inr h1" "invar h1" "contents h1 = add_mset x (contents h)"
    by blast
  from Cons.IH [OF h1(2)] h1 show ?case by auto
qed simp

end

text \<open>
  C18: Elements pushed on an empty heap in any order come out in decreasing order: popping it
  empty returns the sorted list of what was pushed, reversed, with every element as often as it
  was pushed.
\<close>

theorem binary_heap_sorts:
  fixes xs :: "'a::linorder list"
  shows "rbind (push_all (bh_push (\<le>)) xs bh_new) (pop_many (bh_pop (\<le>)) (length xs)) = Inr (rev (sort xs), [])"
proof -
  have "bh_inv (\<le>) (bh_new :: 'a list)" by (simp add: bh_new_def heap_inv_def)
  from lin_heap.pq.push_all_ok [OF this, of xs] obtain h where
    h: "push_all (bh_push (\<le>)) xs bh_new = Inr h" "bh_inv (\<le>) h" "mset h = mset xs" by (auto simp: bh_new_def)
  then have "length xs \<le> size (mset h)" by simp
  from lin_heap.pq.pop_many_sorts [OF h(2) this] obtain ys h' where
    ys: "pop_many (bh_pop (\<le>)) (length xs) h = Inr (ys, h')" "mset xs = mset ys + mset h'" "length ys = length xs"
      "sorted_wrt (\<lambda>x y. y \<le> x) ys"
    using h(3) by auto
  have "h' = []" using ys(2,3) by (metis add_cancel_left_right length_0_conv size_mset size_union)
  moreover have "sort xs = rev ys"
    using ys(2,4) \<open>h' = []\<close> by (intro properties_for_sort) (simp_all add: sorted_wrt_rev)
  ultimately show ?thesis using h(1) ys(1) by simp
qed

end
