(* ===== verification/Top_Docs.thy ===== *)
theory Top_Docs
  imports Binary_Heap
begin

text \<open>
  The collector of the best scoring documents, \<^verbatim>\<open>search/collector/top_docs.rs\<close>, with its
  sequential and its parallel use. A score is an \<open>f32\<close>, here its bit pattern; \<open>f32_key\<close> orders
  the patterns that are numbers as the floats are ordered. The standard library's
  \<open>BinaryHeap\<close> is the heap of theory \<open>Binary_Heap\<close>, its copy. The channel of the parallel
  search is the list of the messages sent so far.
\<close>

section \<open>Scores\<close>

definition f32_key :: "u32 \<Rightarrow> int" where
  "f32_key w = (if bit w 31 then - uint (take_bit 31 w) else uint (take_bit 31 w))"

definition f32_is_nan :: "u32 \<Rightarrow> bool" where
  "f32_is_nan w \<longleftrightarrow> 0x7F800000 < take_bit 31 w"

definition f32_neg_infinity :: u32 where
  "f32_neg_infinity = 0xFF800000"

definition f32_less :: "u32 \<Rightarrow> u32 \<Rightarrow> bool" where
  "f32_less a b \<longleftrightarrow> \<not> f32_is_nan a \<and> \<not> f32_is_nan b \<and> f32_key a < f32_key b"

section \<open>Scored documents\<close>

record score_doc =
  sd_doc :: int
  sd_score :: u32

definition score_doc_new :: "int \<Rightarrow> u32 \<Rightarrow> score_doc" where
  "score_doc_new doc score = \<lparr>sd_doc = doc, sd_score = score\<rparr>"

definition score_doc_reset :: "int \<Rightarrow> u32 \<Rightarrow> score_doc \<Rightarrow> score_doc" where
  "score_doc_reset doc score d = d\<lparr>sd_doc := doc, sd_score := score\<rparr>"

text \<open>
  The heap compares with \<open><=\<close>, which is \<open>partial_cmp\<close>: the reversed order of the scores. No
  score is NaN, as \<open>collect\<close> asserts.
\<close>

definition score_doc_le :: "score_doc \<Rightarrow> score_doc \<Rightarrow> bool" where
  "score_doc_le a b \<longleftrightarrow> f32_key (sd_score b) \<le> f32_key (sd_score a)"

interpretation score_heap: ord_heap score_doc_le
  by unfold_locales (auto simp: score_doc_le_def)

section \<open>TopDocsBaseCollector\<close>

record top_docs_base =
  td_pq :: "score_doc list"
  td_estimated_hits :: nat
  td_total_hits :: nat
  td_cur_doc_base :: int

definition tdb_new :: "nat \<Rightarrow> top_docs_base" where
  "tdb_new estimated_hits =
     \<lparr>td_pq = bh_new, td_estimated_hits = estimated_hits, td_total_hits = 0, td_cur_doc_base = 0\<rparr>"

definition tdb_top_docs :: "top_docs_base \<Rightarrow> ((nat \<times> score_doc list) \<times> top_docs_base) result" where
  "tdb_top_docs s =
     (let size = min (td_total_hits s) (bh_len (td_pq s))
      in rbind (pop_many (bh_pop score_doc_le) size (td_pq s)) (\<lambda>(docs, pq).
           Inr ((td_total_hits s, rev docs), s\<lparr>td_pq := pq\<rparr>)))"

definition tdb_add_doc :: "int \<Rightarrow> u32 \<Rightarrow> top_docs_base \<Rightarrow> top_docs_base result" where
  "tdb_add_doc doc_id score s0 =
     (if \<not> bh_len (td_pq s0) \<le> td_estimated_hits s0 then Inl (Panic ''pq.len() <= estimated_hits'')
      else let s = s0\<lparr>td_total_hits := td_total_hits s0 + 1\<rparr>
           in if bh_len (td_pq s) \<noteq> td_estimated_hits s
              then rbind (bh_push score_doc_le (score_doc_new doc_id score) (td_pq s)) (\<lambda>pq. Inr (s\<lparr>td_pq := pq\<rparr>))
              else case bh_peek_mut (td_pq s) of
                None \<Rightarrow> Inr s
              | Some g \<Rightarrow>
                  let d = pm_deref g;
                      g' = (if f32_less (sd_score d) score then pm_deref_mut (score_doc_reset doc_id score d) g else g)
                  in rbind (pm_drop score_doc_le g') (\<lambda>pq. Inr (s\<lparr>td_pq := pq\<rparr>)))"

text \<open>\<open>collect\<close>, given what the scorer's \<open>score\<close> returns; the sum of the ids is an \<open>i32\<close>.\<close>

definition add_i32 :: "int \<Rightarrow> int \<Rightarrow> int result" where
  "add_i32 a b = (if - 2147483648 \<le> a + b \<and> a + b < 2147483648 then Inr (a + b) else Inl (Panic ''attempt to add with overflow''))"

definition tdb_collect :: "int \<Rightarrow> u32 result \<Rightarrow> top_docs_base \<Rightarrow> top_docs_base result" where
  "tdb_collect doc scorer_score s =
     rbind scorer_score (\<lambda>score.
       if score = f32_neg_infinity \<or> f32_is_nan score then Inl (Panic ''score is a number'')
       else rbind (add_i32 doc (td_cur_doc_base s)) (\<lambda>id. tdb_add_doc id score s))"

section \<open>TopDocsCollector and its leaves\<close>

record leaf_top_docs =
  ltd_docs :: "score_doc list"
  ltd_total_hits :: nat

record top_docs_collector =
  tdc_base :: top_docs_base
  tdc_channel :: "leaf_top_docs list option"

definition tdc_new :: "nat \<Rightarrow> top_docs_collector" where
  "tdc_new estimated_hits = \<lparr>tdc_base = tdb_new estimated_hits, tdc_channel = None\<rparr>"

definition tdc_top_docs :: "top_docs_collector \<Rightarrow> ((nat \<times> score_doc list) \<times> top_docs_collector) result" where
  "tdc_top_docs c = rbind (tdb_top_docs (tdc_base c)) (\<lambda>(r, b). Inr (r, c\<lparr>tdc_base := b\<rparr>))"

definition tdc_add_doc :: "int \<Rightarrow> u32 \<Rightarrow> top_docs_collector \<Rightarrow> top_docs_collector result" where
  "tdc_add_doc doc_id score c = rbind (tdb_add_doc doc_id score (tdc_base c)) (\<lambda>b. Inr (c\<lparr>tdc_base := b\<rparr>))"

definition tdc_collect :: "int \<Rightarrow> u32 result \<Rightarrow> top_docs_collector \<Rightarrow> top_docs_collector result" where
  "tdc_collect doc score c = rbind (tdb_collect doc score (tdc_base c)) (\<lambda>b. Inr (c\<lparr>tdc_base := b\<rparr>))"

definition tdc_set_next_reader :: "int \<Rightarrow> top_docs_collector \<Rightarrow> top_docs_collector result" where
  "tdc_set_next_reader doc_base c = Inr (c\<lparr>tdc_base := (tdc_base c)\<lparr>td_cur_doc_base := doc_base\<rparr>\<rparr>)"

definition tdc_init_parallel :: "top_docs_collector \<Rightarrow> top_docs_collector" where
  "tdc_init_parallel c = (if tdc_channel c = None then c\<lparr>tdc_channel := Some []\<rparr> else c)"

definition tdc_leaf_collector :: "int \<Rightarrow> top_docs_collector \<Rightarrow> top_docs_base result" where
  "tdc_leaf_collector doc_base c =
     (if tdc_channel c = None then Inl (Panic ''unwrap on None'')
      else Inr ((tdb_new (td_estimated_hits (tdc_base c)))\<lparr>td_cur_doc_base := doc_base\<rparr>))"

text \<open>\<open>finish_leaf\<close> sends the leaf's documents in the order of the heap's array.\<close>

definition finish_leaf :: "top_docs_base \<Rightarrow> leaf_top_docs list \<Rightarrow> top_docs_base \<times> leaf_top_docs list" where
  "finish_leaf leaf channel =
     (leaf\<lparr>td_pq := bh_new\<rparr>, channel @ [\<lparr>ltd_docs = td_pq leaf, ltd_total_hits = td_total_hits leaf\<rparr>])"

fun add_docs :: "score_doc list \<Rightarrow> top_docs_base \<Rightarrow> top_docs_base result" where
  "add_docs [] s = Inr s"
| "add_docs (d # ds) s = rbind (tdb_add_doc (sd_doc d) (sd_score d) s) (add_docs ds)"

fun recv_all :: "leaf_top_docs list \<Rightarrow> top_docs_base \<Rightarrow> top_docs_base result" where
  "recv_all [] s = Inr s"
| "recv_all (m # ms) s =
     rbind (add_docs (ltd_docs m) (s\<lparr>td_total_hits := td_total_hits s + ltd_total_hits m\<rparr>)) (recv_all ms)"

definition tdc_finish_parallel :: "top_docs_collector \<Rightarrow> top_docs_collector result" where
  "tdc_finish_parallel c =
     (case tdc_channel c of
        None \<Rightarrow> Inr c
      | Some ms \<Rightarrow> rbind (recv_all ms (tdc_base c)) (\<lambda>b. Inr (c\<lparr>tdc_base := b, tdc_channel := None\<rparr>)))"

section \<open>The best documents\<close>

text \<open>
  \<open>best n M K\<close>: \<open>K\<close> is a choice of the \<open>n\<close> best documents of \<open>M\<close>: nothing left out scores more
  than anything kept.
\<close>

definition best :: "nat \<Rightarrow> score_doc multiset \<Rightarrow> score_doc multiset \<Rightarrow> bool" where
  "best n M K \<longleftrightarrow> K \<subseteq># M \<and> size K = min n (size M) \<and>
     (\<forall>x \<in># M - K. \<forall>y \<in># K. f32_key (sd_score x) \<le> f32_key (sd_score y))"

definition tdb_inv :: "score_doc multiset \<Rightarrow> top_docs_base \<Rightarrow> bool" where
  "tdb_inv M s \<longleftrightarrow> bh_inv score_doc_le (td_pq s) \<and> best (td_estimated_hits s) M (mset (td_pq s))"

lemma best_split:
  "best n M K \<longleftrightarrow> (\<exists>R. M = K + R \<and> size K = min n (size M) \<and>
     (\<forall>x \<in># R. \<forall>y \<in># K. f32_key (sd_score x) \<le> f32_key (sd_score y)))"
  unfolding best_def by (auto simp: mset_subset_eq_exists_conv)

lemma best_add:
  assumes "best n M K" "size K \<noteq> n"
  shows "best n (add_mset x M) (add_mset x K)"
proof -
  from assms(1) obtain R where R: "M = K + R" "size K = min n (size M)"
    unfolding best_split by blast
  have "size K = size M" "size K < n" using R(2) assms(2) by (simp_all add: min_def split: if_splits)
  then have "R = {#}" using R(1) by simp
  then show ?thesis using R(1) \<open>size K < n\<close> unfolding best_split by (intro exI [of _ "{#}"]) simp
qed

lemma best_skip:
  assumes "best n M K" "size K = n" "\<forall>y \<in># K. f32_key (sd_score x) \<le> f32_key (sd_score y)"
  shows "best n (add_mset x M) K"
proof -
  from assms(1) obtain R where R: "M = K + R" "\<forall>x \<in># R. \<forall>y \<in># K. f32_key (sd_score x) \<le> f32_key (sd_score y)"
    unfolding best_split by blast
  have "add_mset x M = K + add_mset x R" "size K = min n (size (add_mset x M))" using R(1) assms(2) by simp_all
  moreover have "\<forall>z \<in># add_mset x R. \<forall>y \<in># K. f32_key (sd_score z) \<le> f32_key (sd_score y)" using R(2) assms(3) by simp
  ultimately show ?thesis unfolding best_split by blast
qed

lemma best_replace:
  assumes "best n M (add_mset y K)" "size (add_mset y K) = n" "\<forall>z \<in># K. f32_key (sd_score y) \<le> f32_key (sd_score z)"
    "f32_key (sd_score y) < f32_key (sd_score x)"
  shows "best n (add_mset x M) (add_mset x K)"
proof -
  from assms(1) obtain R where R: "M = add_mset y K + R"
      "\<forall>x \<in># R. \<forall>z \<in># add_mset y K. f32_key (sd_score x) \<le> f32_key (sd_score z)"
    unfolding best_split by blast
  have "add_mset x M = add_mset x K + add_mset y R" "size (add_mset x K) = min n (size (add_mset x M))" using R(1) assms(2) by simp_all
  moreover have "\<forall>w \<in># add_mset y R. \<forall>z \<in># add_mset x K. f32_key (sd_score w) \<le> f32_key (sd_score z)"
    using R(2) assms(3,4) by (auto intro: order_trans)
  ultimately show ?thesis unfolding best_split by blast
qed

lemma score_doc_reset_eq: "score_doc_reset doc score d = score_doc_new doc score"
  by (cases d) (simp add: score_doc_reset_def score_doc_new_def)

lemma tdb_add_doc_ok:
  assumes "tdb_inv M s" "\<not> f32_is_nan score" "\<forall>d \<in># M. \<not> f32_is_nan (sd_score d)"
  shows "\<exists>s'. tdb_add_doc doc score s = Inr s' \<and> tdb_inv (add_mset (score_doc_new doc score) M) s' \<and>
    td_total_hits s' = td_total_hits s + 1 \<and> td_estimated_hits s' = td_estimated_hits s"
proof -
  let ?d = "score_doc_new doc score" and ?n = "td_estimated_hits s"
  have h: "bh_inv score_doc_le (td_pq s)" and b: "best ?n M (mset (td_pq s))" using assms(1) by (simp_all add: tdb_inv_def)
  then have len: "bh_len (td_pq s) \<le> ?n" by (auto simp: best_def bh_len_def)
  show ?thesis
  proof (cases "bh_len (td_pq s) = ?n")
    case False
    from score_heap.bh_push_ok [OF h, of ?d] obtain pq where
      pq: "bh_push score_doc_le ?d (td_pq s) = Inr pq" "bh_inv score_doc_le pq" "mset pq = add_mset ?d (mset (td_pq s))" by blast
    with best_add [OF b, of ?d] False len show ?thesis
      by (simp add: tdb_add_doc_def tdb_inv_def Let_def bh_len_def)
  next
    case full: True
    show ?thesis
    proof (cases "td_pq s = []")
      case True
      then show ?thesis using full best_skip [OF b, of ?d] h
        by (simp add: tdb_add_doc_def tdb_inv_def Let_def bh_len_def bh_peek_mut_def bh_is_empty_def)
    next
      case False
      let ?y = "td_pq s ! 0"
      have y: "?y \<in># mset (td_pq s)" using False by simp
      have min: "\<forall>z \<in># mset (td_pq s). f32_key (sd_score ?y) \<le> f32_key (sd_score z)"
        using score_heap.heap_max [OF h] by (auto simp: score_doc_le_def)
      have "?y \<in># M" using y b by (auto simp: best_def dest: mset_subset_eqD)
      then have cmp: "f32_less (sd_score ?y) score \<longleftrightarrow> f32_key (sd_score ?y) < f32_key score"
        using assms(2,3) by (simp add: f32_less_def)
      let ?z = "if f32_less (sd_score ?y) score then ?d else ?y"
      have add: "tdb_add_doc doc score s =
          rbind (bh_replace_top score_doc_le ?z (td_pq s)) (\<lambda>pq. Inr (s\<lparr>td_total_hits := td_total_hits s + 1, td_pq := pq\<rparr>))"
        using full len False
        by (simp add: tdb_add_doc_def Let_def bh_replace_top_def bh_peek_mut_def bh_is_empty_def bh_len_def pm_deref_def
            pm_deref_mut_def score_doc_reset_eq)
      from score_heap.bh_replace_top_ok [OF h False, of ?z] obtain pq where
        pq: "bh_replace_top score_doc_le ?z (td_pq s) = Inr pq" "bh_inv score_doc_le pq"
          "mset pq = add_mset ?z (mset (td_pq s) - {#?y#})" by blast
      have "best ?n (add_mset ?d M) (mset pq)"
      proof (cases "f32_less (sd_score ?y) score")
        case True
        have split: "add_mset ?y (mset (td_pq s) - {#?y#}) = mset (td_pq s)" using y by (rule insert_DiffM)
        have "\<forall>z \<in># mset (td_pq s) - {#?y#}. f32_key (sd_score ?y) \<le> f32_key (sd_score z)"
          using min by (auto dest: in_diffD)
        then show ?thesis
          using best_replace [of ?n M ?y "mset (td_pq s) - {#?y#}" ?d] b full cmp pq(3) True
          unfolding split by (simp add: bh_len_def score_doc_new_def)
      next
        case False
        then have "\<forall>z \<in># mset (td_pq s). f32_key score \<le> f32_key (sd_score z)" using min cmp by force
        then show ?thesis
          using best_skip [OF b, of ?d] full False pq(3) y by (simp add: bh_len_def score_doc_new_def)
      qed
      then show ?thesis using add pq by (simp add: tdb_inv_def)
    qed
  qed
qed

text \<open>The best of a part and the rest are the best of the whole.\<close>

lemma best_trans:
  assumes "best n M K1" "best n (K1 + N) K"
  shows "best n (M + N) K"
proof -
  from assms(1) obtain R1 where R1: "M = K1 + R1" "size K1 = min n (size M)"
      "\<forall>x \<in># R1. \<forall>y \<in># K1. f32_key (sd_score x) \<le> f32_key (sd_score y)"
    unfolding best_split by blast
  from assms(2) obtain R where R: "K1 + N = K + R" "size K = min n (size (K1 + N))"
      "\<forall>x \<in># R. \<forall>y \<in># K. f32_key (sd_score x) \<le> f32_key (sd_score y)"
    unfolding best_split by blast
  have split: "M + N = K + (R + R1)" using R(1) R1(1) by (metis add.assoc add.commute)
  have sizes: "size K = min n (size (M + N))" using R1(1,2) R(2) by (simp add: min_def split: if_splits)
  have "f32_key (sd_score x) \<le> f32_key (sd_score y)" if "x \<in># R1" "y \<in># K" for x y
  proof (rule ccontr)
    assume less: "\<not> f32_key (sd_score x) \<le> f32_key (sd_score y)"
    have n: "size K1 = n" "size K = n" using that(1) R1(1,2) R(2) by (auto simp: min_def split: if_splits)
    have "K1 \<subseteq># K"
    proof (rule mset_subset_eqI)
      fix z
      show "count K1 z \<le> count K z"
      proof (cases "z \<in># K1")
        case True
        then have "f32_key (sd_score y) < f32_key (sd_score z)" using less R1(3) that(1) by force
        then have "z \<notin># R" using R(3) that(2) by (auto simp: not_le [symmetric])
        moreover have "count K1 z + count N z = count K z + count R z" using R(1) by (metis count_union)
        ultimately show ?thesis by (simp add: not_in_iff)
      qed (simp add: not_in_iff)
    qed
    then have "K = K1" using n by (metis mset_subset_size nat_less_le subset_mset.le_imp_less_or_eq)
    then show False using less R1(3) that by blast
  qed
  then have "\<forall>x \<in># R + R1. \<forall>y \<in># K. f32_key (sd_score x) \<le> f32_key (sd_score y)" using R(3) by auto
  with split sizes show ?thesis unfolding best_split by blast
qed

section \<open>Searching segments\<close>

text \<open>A segment's document base and its hits; the collection of one segment and of all of them in turn.\<close>

type_synonym segment = "int \<times> (int \<times> u32) list"

fun collect_hits :: "(int \<times> u32) list \<Rightarrow> top_docs_base \<Rightarrow> top_docs_base result" where
  "collect_hits [] s = Inr s"
| "collect_hits ((doc, score) # hs) s = rbind (tdb_collect doc (Inr score) s) (collect_hits hs)"

fun search_segments :: "segment list \<Rightarrow> top_docs_collector \<Rightarrow> top_docs_collector result" where
  "search_segments [] c = Inr c"
| "search_segments ((base, hits) # segs) c =
     rbind (tdc_set_next_reader base c) (\<lambda>c1.
       rbind (collect_hits hits (tdc_base c1)) (\<lambda>b. search_segments segs (c1\<lparr>tdc_base := b\<rparr>)))"

text \<open>The parallel search: a leaf collector per segment, whose results arrive in the order they finish.\<close>

fun search_leaves :: "segment list \<Rightarrow> top_docs_collector \<Rightarrow> top_docs_collector result" where
  "search_leaves [] c = Inr c"
| "search_leaves ((base, hits) # segs) c =
     rbind (tdc_leaf_collector base c) (\<lambda>leaf.
       rbind (collect_hits hits leaf) (\<lambda>leaf'.
         search_leaves segs (c\<lparr>tdc_channel := map_option (\<lambda>ch. snd (finish_leaf leaf' ch)) (tdc_channel c)\<rparr>)))"

definition search_parallel :: "segment list \<Rightarrow> top_docs_collector \<Rightarrow> top_docs_collector result" where
  "search_parallel segs c = rbind (search_leaves segs (tdc_init_parallel c)) tdc_finish_parallel"

definition hit_ok :: "int \<Rightarrow> int \<times> u32 \<Rightarrow> bool" where
  "hit_ok base h \<longleftrightarrow> 0 \<le> base + fst h \<and> base + fst h < 2147483648 \<and> \<not> f32_is_nan (snd h) \<and> snd h \<noteq> f32_neg_infinity"

definition segments_ok :: "segment list \<Rightarrow> bool" where
  "segments_ok segs \<longleftrightarrow> (\<forall>(base, hits) \<in> set segs. \<forall>h \<in> set hits. hit_ok base h)"

definition segment_docs :: "segment \<Rightarrow> score_doc multiset" where
  "segment_docs seg = mset (map (\<lambda>(doc, score). score_doc_new (doc + fst seg) score) (snd seg))"

definition all_docs_of :: "segment list \<Rightarrow> score_doc multiset" where
  "all_docs_of segs = sum_list (map segment_docs segs)"

definition hits_of :: "segment list \<Rightarrow> nat" where
  "hits_of segs = sum_list (map (\<lambda>seg. length (snd seg)) segs)"

text \<open>What the collecting keeps: the best documents, the count, and that no score is NaN.\<close>

definition tdb_state :: "nat \<Rightarrow> score_doc multiset \<Rightarrow> nat \<Rightarrow> top_docs_base \<Rightarrow> bool" where
  "tdb_state n M tot s \<longleftrightarrow> tdb_inv M s \<and> td_estimated_hits s = n \<and> td_total_hits s = tot \<and>
     (\<forall>d \<in># M. \<not> f32_is_nan (sd_score d))"

lemma tdb_new_state: "tdb_state n {#} 0 (tdb_new n)"
  by (simp add: tdb_state_def tdb_inv_def tdb_new_def bh_new_def best_def heap_inv_def)

lemma tdb_state_frame [simp]:
  "tdb_state n M tot (s\<lparr>td_cur_doc_base := b\<rparr>) = tdb_state n M tot s"
  "tdb_state n M t' (s\<lparr>td_total_hits := t\<rparr>) \<longleftrightarrow> t' = t \<and> tdb_state n M (td_total_hits s) s"
  by (auto simp: tdb_state_def tdb_inv_def)

lemma tdb_add_doc_base: "tdb_add_doc d sc s = Inr s' \<Longrightarrow> td_cur_doc_base s' = td_cur_doc_base s"
  by (auto simp: tdb_add_doc_def Let_def rbind_eq_Inr split: if_splits option.splits)

lemma collect_hits_ok:
  assumes "tdb_state n M tot s" "\<forall>h \<in> set hits. hit_ok (td_cur_doc_base s) h"
  shows "\<exists>s'. collect_hits hits s = Inr s' \<and> tdb_state n (M + segment_docs (td_cur_doc_base s, hits)) (tot + length hits) s'"
  using assms
proof (induction hits arbitrary: s M tot)
  case Nil
  then show ?case by (simp add: segment_docs_def)
next
  case (Cons h hits)
  obtain doc score where h: "h = (doc, score)" by fastforce
  let ?id = "doc + td_cur_doc_base s"
  have ok: "hit_ok (td_cur_doc_base s) (doc, score)" using Cons.prems(2) h by simp
  obtain s1 where s1: "tdb_add_doc ?id score s = Inr s1" "tdb_inv (add_mset (score_doc_new ?id score) M) s1"
      "td_total_hits s1 = td_total_hits s + 1" "td_estimated_hits s1 = td_estimated_hits s"
    using tdb_add_doc_ok [of M s score ?id] Cons.prems(1) ok by (auto simp: tdb_state_def hit_ok_def)
  have st: "tdb_state n (add_mset (score_doc_new ?id score) M) (tot + 1) s1"
    using s1 Cons.prems(1) ok by (auto simp: tdb_state_def hit_ok_def score_doc_new_def)
  have "tdb_collect doc (Inr score) s = Inr s1"
    using s1(1) ok by (simp add: tdb_collect_def hit_ok_def add_i32_def add.commute)
  with Cons.IH [OF st] Cons.prems(2) tdb_add_doc_base [OF s1(1)] show ?case
    by (simp add: h segment_docs_def)
qed

lemma search_segments_ok:
  assumes "tdb_state n M tot (tdc_base c)" "segments_ok segs"
  shows "\<exists>c'. search_segments segs c = Inr c' \<and> tdb_state n (M + all_docs_of segs) (tot + hits_of segs) (tdc_base c')"
  using assms
proof (induction segs arbitrary: c M tot)
  case Nil
  then show ?case by (simp add: all_docs_of_def hits_of_def)
next
  case (Cons seg segs)
  obtain base hits where seg: "seg = (base, hits)" by fastforce
  let ?b = "(tdc_base c)\<lparr>td_cur_doc_base := base\<rparr>"
  have "\<forall>h \<in> set hits. hit_ok (td_cur_doc_base ?b) h" using Cons.prems(2) seg by (simp add: segments_ok_def)
  then obtain b where b: "collect_hits hits ?b = Inr b" "tdb_state n (M + segment_docs seg) (tot + length hits) b"
    using collect_hits_ok [of n M tot ?b hits] Cons.prems(1) seg by auto
  have "segments_ok segs" using Cons.prems(2) by (simp add: segments_ok_def)
  with Cons.IH [of "M + segment_docs seg" "tot + length hits" "c\<lparr>tdc_base := b\<rparr>"] b show ?case
    by (simp add: seg tdc_set_next_reader_def all_docs_of_def hits_of_def add.assoc)
qed

lemma tdb_top_docs_ok:
  assumes "tdb_state n M tot s" "size M \<le> tot"
  shows "\<exists>docs s'. tdb_top_docs s = Inr ((tot, docs), s') \<and> best n M (mset docs) \<and>
    sorted_wrt (\<lambda>a b. f32_key (sd_score b) \<le> f32_key (sd_score a)) docs"
proof -
  have h: "bh_inv score_doc_le (td_pq s)" and b: "best n M (mset (td_pq s))" and t: "td_total_hits s = tot"
    using assms(1) by (auto simp: tdb_state_def tdb_inv_def)
  have len: "length (td_pq s) \<le> tot" using b assms(2) by (auto simp: best_def)
  obtain xs h' where xs: "pop_many (bh_pop score_doc_le) (length (td_pq s)) (td_pq s) = Inr (xs, h')"
      "mset (td_pq s) = mset xs + mset h'" "length xs = length (td_pq s)" "sorted_wrt (\<lambda>x y. score_doc_le y x) xs"
    using score_heap.pq.pop_many_sorts [OF h, of "length (td_pq s)"] by auto
  have "h' = []" using xs(2,3) by (metis add_cancel_left_right length_0_conv size_mset size_union)
  then show ?thesis
    using xs b len t by (simp add: tdb_top_docs_def Let_def bh_len_def min_absorb2 sorted_wrt_rev score_doc_le_def)
qed

lemma size_all_docs: "size (all_docs_of segs) = hits_of segs"
  by (induction segs) (simp_all add: all_docs_of_def hits_of_def segment_docs_def)

text \<open>
  C12: A sequential search with a collector for \<open>n\<close> hits over any segments, none of whose scores
  is NaN or minus infinity, returns the number of all hits, and \<open>n\<close> of the best scoring
  documents (all of them if there are fewer), with their global ids, best first: no document left
  out scores more than one returned.
\<close>

theorem top_docs_sequential:
  assumes "segments_ok segs"
  shows "\<exists>docs c. rbind (search_segments segs (tdc_new n)) tdc_top_docs = Inr ((hits_of segs, docs), c) \<and>
    best n (all_docs_of segs) (mset docs) \<and> sorted_wrt (\<lambda>a b. f32_key (sd_score b) \<le> f32_key (sd_score a)) docs"
proof -
  obtain c where c: "search_segments segs (tdc_new n) = Inr c" "tdb_state n (all_docs_of segs) (hits_of segs) (tdc_base c)"
    using search_segments_ok [of n "{#}" 0 "tdc_new n" segs] tdb_new_state assms by (auto simp: tdc_new_def)
  from tdb_top_docs_ok [OF c(2)] show ?thesis
    using c(1) by (auto simp: size_all_docs tdc_top_docs_def)
qed

theorem top_docs_sequential_witness:
  "\<exists>docs c. rbind (search_segments [(0, [(1, 0x3F800000), (4, 0x40000000)]), (10, [(2, 0x3F000000)])] (tdc_new 2)) tdc_top_docs =
      Inr ((3, docs), c) \<and>
    best 2 {#\<lparr>sd_doc = 1, sd_score = 0x3F800000\<rparr>, \<lparr>sd_doc = 4, sd_score = 0x40000000\<rparr>, \<lparr>sd_doc = 12, sd_score = 0x3F000000\<rparr>#} (mset docs)"
proof -
  let ?segs = "[(0, [(1, 0x3F800000), (4, 0x40000000)]), (10, [(2, 0x3F000000)])] :: segment list"
  have ok: "segments_ok ?segs"
    by (simp add: segments_ok_def hit_ok_def f32_is_nan_def f32_neg_infinity_def)
  have docs: "all_docs_of ?segs = {#\<lparr>sd_doc = 1, sd_score = 0x3F800000\<rparr>, \<lparr>sd_doc = 4, sd_score = 0x40000000\<rparr>,
      \<lparr>sd_doc = 12, sd_score = 0x3F000000\<rparr>#}"
    by (simp add: all_docs_of_def segment_docs_def score_doc_new_def)
  have hits: "hits_of ?segs = 3" by (simp add: hits_of_def)
  from top_docs_sequential [OF ok, of 2] show ?thesis unfolding docs hits by blast
qed

text \<open>The messages of the leaves, and their merge.\<close>

lemma add_docs_ok:
  assumes "tdb_state n M tot s" "\<forall>d \<in> set ds. \<not> f32_is_nan (sd_score d)"
  shows "\<exists>s'. add_docs ds s = Inr s' \<and> tdb_state n (M + mset ds) (tot + length ds) s'"
  using assms
proof (induction ds arbitrary: s M tot)
  case (Cons d ds)
  have d: "score_doc_new (sd_doc d) (sd_score d) = d" by (cases d) (simp add: score_doc_new_def)
  obtain s1 where s1: "tdb_add_doc (sd_doc d) (sd_score d) s = Inr s1" "tdb_inv (add_mset d M) s1"
      "td_total_hits s1 = td_total_hits s + 1" "td_estimated_hits s1 = td_estimated_hits s"
    using tdb_add_doc_ok [of M s "sd_score d" "sd_doc d"] Cons.prems d by (auto simp: tdb_state_def)
  then have "tdb_state n (add_mset d M) (tot + 1) s1" using Cons.prems by (auto simp: tdb_state_def)
  from Cons.IH [OF this] Cons.prems(2) s1(1) show ?case by simp
qed simp

definition leaf_sent :: "nat \<Rightarrow> segment \<Rightarrow> leaf_top_docs \<Rightarrow> bool" where
  "leaf_sent n seg m \<longleftrightarrow> best n (segment_docs seg) (mset (ltd_docs m)) \<and> ltd_total_hits m = length (snd seg) \<and>
     (\<forall>d \<in> set (ltd_docs m). \<not> f32_is_nan (sd_score d))"

lemma search_leaves_ok:
  assumes "tdc_channel c = Some ch" "segments_ok segs"
  shows "\<exists>ms. search_leaves segs c = Inr (c\<lparr>tdc_channel := Some (ch @ ms)\<rparr>) \<and>
    list_all2 (leaf_sent (td_estimated_hits (tdc_base c))) segs ms"
  using assms
proof (induction segs arbitrary: c ch)
  case Nil
  then show ?case by simp
next
  case (Cons seg segs)
  obtain base hits where seg: "seg = (base, hits)" by fastforce
  let ?n = "td_estimated_hits (tdc_base c)"
  let ?leaf = "(tdb_new ?n)\<lparr>td_cur_doc_base := base\<rparr>"
  have "\<forall>h \<in> set hits. hit_ok (td_cur_doc_base ?leaf) h" using Cons.prems(2) seg by (simp add: segments_ok_def)
  then obtain leaf where leaf: "collect_hits hits ?leaf = Inr leaf" "tdb_state ?n (segment_docs seg) (length hits) leaf"
    using collect_hits_ok [of ?n "{#}" 0 ?leaf hits] tdb_new_state seg by auto
  let ?m = "\<lparr>ltd_docs = td_pq leaf, ltd_total_hits = td_total_hits leaf\<rparr>"
  have sent: "leaf_sent ?n seg ?m"
    using leaf(2) seg by (auto simp: leaf_sent_def tdb_state_def tdb_inv_def best_def dest: mset_subset_eqD)
  have "segments_ok segs" using Cons.prems(2) by (simp add: segments_ok_def)
  with Cons.IH [of "c\<lparr>tdc_channel := Some (ch @ [?m])\<rparr>" "ch @ [?m]"] obtain ms where
    "search_leaves segs (c\<lparr>tdc_channel := Some (ch @ [?m])\<rparr>) = Inr (c\<lparr>tdc_channel := Some (ch @ ?m # ms)\<rparr>)"
    "list_all2 (leaf_sent ?n) segs ms" by auto
  then show ?case
    using leaf(1) Cons.prems(1) sent
    by (intro exI [of _ "?m # ms"]) (simp add: seg tdc_leaf_collector_def finish_leaf_def)
qed

lemma recv_all_ok:
  assumes "list_all2 (leaf_sent n) segs ms" "tdb_state n M tot s"
  shows "\<exists>s'. recv_all ms s = Inr s' \<and>
    tdb_state n (M + sum_list (map (mset \<circ> ltd_docs) ms)) (tot + hits_of segs + sum_list (map (length \<circ> ltd_docs) ms)) s'"
  using assms
proof (induction segs ms arbitrary: M tot s rule: list_all2_induct)
  case Nil
  then show ?case by (simp add: hits_of_def)
next
  case (Cons seg segs m ms)
  have st: "tdb_state n M (tot + ltd_total_hits m) (s\<lparr>td_total_hits := td_total_hits s + ltd_total_hits m\<rparr>)"
    using Cons.prems by (auto simp: tdb_state_def tdb_inv_def)
  obtain s1 where s1: "add_docs (ltd_docs m) (s\<lparr>td_total_hits := td_total_hits s + ltd_total_hits m\<rparr>) = Inr s1"
      "tdb_state n (M + mset (ltd_docs m)) (tot + ltd_total_hits m + length (ltd_docs m)) s1"
    using add_docs_ok [OF st, of "ltd_docs m"] Cons.hyps(1) by (auto simp: leaf_sent_def)
  from Cons.IH [OF s1(2)] s1(1) Cons.hyps(1) show ?case
    by (auto simp: hits_of_def leaf_sent_def algebra_simps)
qed

lemma best_of_leaves:
  assumes "list_all2 (leaf_sent n) segs ms" "best n (N + sum_list (map (mset \<circ> ltd_docs) ms)) K"
  shows "best n (N + all_docs_of segs) K"
  using assms
proof (induction segs ms arbitrary: N rule: list_all2_induct)
  case Nil
  then show ?case by (simp add: all_docs_of_def)
next
  case (Cons seg segs m ms)
  have "best n (N + mset (ltd_docs m) + all_docs_of segs) K"
    using Cons.IH [of "N + mset (ltd_docs m)"] Cons.prems by (simp add: add.assoc)
  then have "best n (mset (ltd_docs m) + (N + all_docs_of segs)) K" by (simp only: add.assoc add.commute add.left_commute)
  moreover have "best n (segment_docs seg) (mset (ltd_docs m))" using Cons.hyps(1) by (simp add: leaf_sent_def)
  ultimately have "best n (segment_docs seg + (N + all_docs_of segs)) K" by (rule best_trans [rotated])
  then show ?case by (simp add: all_docs_of_def add.left_commute)
qed

lemma kept_by_leaves:
  "list_all2 (leaf_sent n) segs ms \<Longrightarrow>
    sum_list (map (length \<circ> ltd_docs) ms) = sum_list (map (\<lambda>seg. min n (length (snd seg))) segs)"
proof (induction segs ms rule: list_all2_induct)
  case (Cons seg segs m ms)
  then show ?case
    by (auto simp: leaf_sent_def best_def segment_docs_def)
qed simp

text \<open>
  C38: A parallel search, where every segment has a collector of its own and the results are
  merged at the end, returns the same choice of best documents as a sequential one. The hit count
  it returns is too large: every document a segment has kept is counted a second time when it is
  merged.
\<close>

theorem top_docs_parallel:
  assumes "segments_ok segs"
  shows "\<exists>docs c. rbind (search_parallel segs (tdc_new n)) tdc_top_docs =
      Inr ((hits_of segs + sum_list (map (\<lambda>seg. min n (length (snd seg))) segs), docs), c) \<and>
    best n (all_docs_of segs) (mset docs) \<and> sorted_wrt (\<lambda>a b. f32_key (sd_score b) \<le> f32_key (sd_score a)) docs"
proof -
  let ?c = "tdc_init_parallel (tdc_new n)"
  have c: "tdc_channel ?c = Some []" "tdc_base ?c = tdb_new n" by (simp_all add: tdc_init_parallel_def tdc_new_def)
  obtain ms where ms: "search_leaves segs ?c = Inr (?c\<lparr>tdc_channel := Some ms\<rparr>)" "list_all2 (leaf_sent n) segs ms"
    using search_leaves_ok [OF c(1) assms] c(2) by (auto simp: tdb_new_def)
  obtain s where s: "recv_all ms (tdb_new n) = Inr s"
      "tdb_state n (sum_list (map (mset \<circ> ltd_docs) ms)) (hits_of segs + sum_list (map (length \<circ> ltd_docs) ms)) s"
    using recv_all_ok [OF ms(2) tdb_new_state] by auto
  have "size (sum_list (map (mset \<circ> ltd_docs) ms)) = sum_list (map (length \<circ> ltd_docs) ms)"
    by (induction ms) auto
  then obtain docs s' where docs: "tdb_top_docs s = Inr ((hits_of segs + sum_list (map (length \<circ> ltd_docs) ms), docs), s')"
      "best n (sum_list (map (mset \<circ> ltd_docs) ms)) (mset docs)"
      "sorted_wrt (\<lambda>a b. f32_key (sd_score b) \<le> f32_key (sd_score a)) docs"
    using tdb_top_docs_ok [OF s(2)] by auto
  have "best n (all_docs_of segs) (mset docs)" using best_of_leaves [OF ms(2), of "{#}"] docs(2) by simp
  then show ?thesis
    using docs ms(1) s(1) c(2) kept_by_leaves [OF ms(2)]
    by (auto simp: search_parallel_def tdc_finish_parallel_def tdc_top_docs_def)
qed

theorem top_docs_parallel_witness:
  "\<exists>docs c. rbind (search_parallel [(0, [(1, 0x3F800000), (4, 0x40000000)]), (10, [(2, 0x3F000000)])] (tdc_new 2)) tdc_top_docs =
      Inr ((6, docs), c) \<and>
    best 2 {#\<lparr>sd_doc = 1, sd_score = 0x3F800000\<rparr>, \<lparr>sd_doc = 4, sd_score = 0x40000000\<rparr>, \<lparr>sd_doc = 12, sd_score = 0x3F000000\<rparr>#} (mset docs)"
proof -
  let ?segs = "[(0, [(1, 0x3F800000), (4, 0x40000000)]), (10, [(2, 0x3F000000)])] :: segment list"
  have ok: "segments_ok ?segs"
    by (simp add: segments_ok_def hit_ok_def f32_is_nan_def f32_neg_infinity_def)
  have docs: "all_docs_of ?segs = {#\<lparr>sd_doc = 1, sd_score = 0x3F800000\<rparr>, \<lparr>sd_doc = 4, sd_score = 0x40000000\<rparr>,
      \<lparr>sd_doc = 12, sd_score = 0x3F000000\<rparr>#}"
    by (simp add: all_docs_of_def segment_docs_def score_doc_new_def)
  have hits: "hits_of ?segs + sum_list (map (\<lambda>seg. min 2 (length (snd seg))) ?segs) = 6" by (simp add: hits_of_def)
  from top_docs_parallel [OF ok, of 2] show ?thesis unfolding docs hits by blast
qed

end
