(* ===== verification/Disi.thy ===== *)
theory Disi
  imports Heap_Order Doc_Iterator
begin

text \<open>
  The priority queue of iterators by current document, \<^verbatim>\<open>util/disi.rs\<close>. The wrappers of the
  iterators live in a buffer; the heap holds raw pointers to them, here indices of the buffer,
  with \<open>None\<close> for the null pointer, and dereferencing null or an index outside the buffer is an
  error. \<open>top_list\<close> links the wrappers on the current document through their \<open>next\<close> pointers.
\<close>

section \<open>Wrappers\<close>

record 's disi_wrapper =
  dw_scorer :: 's
  dw_doc :: int
  dw_match :: "bool option"
  dw_next :: "nat option"
  dw_last_approx_match_doc :: int
  dw_last_approx_non_match_doc :: int

definition dw_new :: "'s \<Rightarrow> 's disi_wrapper" where
  "dw_new s = \<lparr>dw_scorer = s, dw_doc = - 1, dw_match = None, dw_next = None,
     dw_last_approx_match_doc = - 1, dw_last_approx_non_match_doc = - 1\<rparr>"

definition dw_set_doc :: "int \<Rightarrow> 's disi_wrapper \<Rightarrow> 's disi_wrapper" where
  "dw_set_doc d w = (if dw_doc w \<noteq> d then w\<lparr>dw_match := None, dw_doc := d\<rparr> else w\<lparr>dw_doc := d\<rparr>)"

definition dw_doc_id :: "('s, 'e) doc_iterator_scheme \<Rightarrow> 's disi_wrapper \<Rightarrow> int" where
  "dw_doc_id I w = doc_id I (dw_scorer w)"

definition dw_moved :: "(int \<times> 's) result \<Rightarrow> 's disi_wrapper \<Rightarrow> (int \<times> 's disi_wrapper) result" where
  "dw_moved r w = rbind r (\<lambda>(d, s). Inr (d, dw_set_doc d (w\<lparr>dw_scorer := s\<rparr>)))"

definition dw_next_doc :: "('s, 'e) doc_iterator_scheme \<Rightarrow> 's disi_wrapper \<Rightarrow> (int \<times> 's disi_wrapper) result" where
  "dw_next_doc I w = dw_moved (next_doc I (dw_scorer w)) w"

definition dw_advance :: "('s, 'e) doc_iterator_scheme \<Rightarrow> int \<Rightarrow> 's disi_wrapper \<Rightarrow> (int \<times> 's disi_wrapper) result" where
  "dw_advance I t w = dw_moved (advance I t (dw_scorer w)) w"

definition dw_approximate_next :: "('s, 'e) doc_iterator_scheme \<Rightarrow> 's disi_wrapper \<Rightarrow> (int \<times> 's disi_wrapper) result" where
  "dw_approximate_next I w = dw_moved (approximate_next I (dw_scorer w)) w"

definition dw_approximate_advance ::
  "('s, 'e) doc_iterator_scheme \<Rightarrow> int \<Rightarrow> 's disi_wrapper \<Rightarrow> (int \<times> 's disi_wrapper) result" where
  "dw_approximate_advance I t w = dw_moved (approximate_advance I t (dw_scorer w)) w"

definition dw_matches :: "('s, 'e) doc_iterator_scheme \<Rightarrow> 's disi_wrapper \<Rightarrow> (bool \<times> 's disi_wrapper) result" where
  "dw_matches I w =
     (case dw_match w of
        Some m \<Rightarrow> Inr (m, w)
      | None \<Rightarrow> rbind (matches I (dw_scorer w)) (\<lambda>(m, s). Inr (m, w\<lparr>dw_scorer := s, dw_match := Some m\<rparr>)))"

definition dw_cost :: "('s, 'e) doc_iterator_scheme \<Rightarrow> 's disi_wrapper \<Rightarrow> nat" where
  "dw_cost I w = cost I (dw_scorer w)"

section \<open>The queue\<close>

record 's disi_queue =
  dq_heap :: "nat option list"
  dq_size :: nat
  dq_buffer :: "'s disi_wrapper list"

definition left_node :: "nat \<Rightarrow> nat" where
  "left_node node = 2 * (node + 1) - 1"

definition right_node :: "nat \<Rightarrow> nat" where
  "right_node left = left + 1"

definition parent_node :: "nat \<Rightarrow> nat option" where
  "parent_node node = (if 0 < node then Some ((node + 1) div 2 - 1) else None)"

text \<open>Indexing the heap's vector, and reading the document of a pointer.\<close>

definition heap_at :: "nat option list \<Rightarrow> nat \<Rightarrow> nat option result" where
  "heap_at heap i = (if i < length heap then Inr (heap ! i) else Inl (Panic ''index out of bounds''))"

definition heap_put :: "nat option list \<Rightarrow> nat \<Rightarrow> nat option \<Rightarrow> nat option list result" where
  "heap_put heap i p = (if i < length heap then Inr (heap[i := p]) else Inl (Panic ''index out of bounds''))"

definition ptr_doc :: "('s, 'e) doc_iterator_scheme \<Rightarrow> 's disi_wrapper list \<Rightarrow> nat option \<Rightarrow> int result" where
  "ptr_doc I buf p =
     (case p of
        None \<Rightarrow> Inl (Panic ''null pointer'')
      | Some i \<Rightarrow> if i < length buf then Inr (dw_doc_id I (buf ! i)) else Inl (Panic ''dangling pointer''))"

definition heap_doc :: "('s, 'e) doc_iterator_scheme \<Rightarrow> 's disi_wrapper list \<Rightarrow> nat option list \<Rightarrow> nat \<Rightarrow> int result" where
  "heap_doc I buf heap i = rbind (heap_at heap i) (ptr_doc I buf)"

function up_loop ::
  "('s, 'e) doc_iterator_scheme \<Rightarrow> 's disi_wrapper list \<Rightarrow> int \<Rightarrow> nat \<Rightarrow> nat option list \<Rightarrow> (nat \<times> nat option list) result" where
  "up_loop I buf node_doc i heap =
     (case parent_node i of
        None \<Rightarrow> Inr (i, heap)
      | Some j \<Rightarrow>
          rbind (heap_doc I buf heap j) (\<lambda>d.
            if d \<le> node_doc then Inr (i, heap)
            else rbind (heap_at heap j) (\<lambda>p. rbind (heap_put heap i p) (up_loop I buf node_doc j))))"
  by pat_completeness auto
termination
  by (relation "measure (\<lambda>(I, buf, node_doc, i, heap). i)") (auto simp: parent_node_def split: if_splits)

declare up_loop.simps [simp del]

definition up_heap :: "('s, 'e) doc_iterator_scheme \<Rightarrow> nat \<Rightarrow> 's disi_queue \<Rightarrow> 's disi_queue result" where
  "up_heap I i q =
     rbind (heap_at (dq_heap q) i) (\<lambda>node.
     rbind (ptr_doc I (dq_buffer q) node) (\<lambda>node_doc.
     rbind (up_loop I (dq_buffer q) node_doc i (dq_heap q)) (\<lambda>(i', heap).
     rbind (heap_put heap i' node) (\<lambda>heap'. Inr (q\<lparr>dq_heap := heap'\<rparr>)))))"

text \<open>\<open>j\<close>, or its right sibling if that is on an earlier document.\<close>

definition smaller_child ::
  "('s, 'e) doc_iterator_scheme \<Rightarrow> 's disi_wrapper list \<Rightarrow> nat \<Rightarrow> nat option list \<Rightarrow> nat \<Rightarrow> nat result" where
  "smaller_child I buf sz heap j =
     (let k = right_node j
      in if k < sz
         then rbind (heap_doc I buf heap k) (\<lambda>dk. rbind (heap_doc I buf heap j) (\<lambda>dj. Inr (if dk < dj then k else j)))
         else Inr j)"

lemma smaller_child_ge: "smaller_child I buf sz heap j = Inr c \<Longrightarrow> j \<le> c"
  by (auto simp: smaller_child_def right_node_def Let_def rbind_eq_Inr split: if_splits)

function down_loop ::
  "('s, 'e) doc_iterator_scheme \<Rightarrow> 's disi_wrapper list \<Rightarrow> nat option \<Rightarrow> nat \<Rightarrow> nat \<Rightarrow> nat \<Rightarrow> nat option list \<Rightarrow>
   (nat \<times> nat option list) result" where
  "down_loop I buf node sz i j heap =
     rbind (heap_at heap j) (\<lambda>p.
     rbind (heap_put heap i p) (\<lambda>heap1.
     rbind (smaller_child I buf sz heap1 (left_node j)) (\<lambda>j1.
       if sz \<le> j1 then Inr (j, heap1)
       else rbind (heap_doc I buf heap1 j1) (\<lambda>dj.
            rbind (ptr_doc I buf node) (\<lambda>dn.
              if dn \<le> dj then Inr (j, heap1) else down_loop I buf node sz j j1 heap1)))))"
  by pat_completeness auto
termination
  by (relation "measure (\<lambda>(I, buf, node, sz, i, j, heap). sz - j)")
    (auto dest!: smaller_child_ge simp: left_node_def)

declare down_loop.simps [simp del]

definition down_heap :: "('s, 'e) doc_iterator_scheme \<Rightarrow> nat \<Rightarrow> 's disi_queue \<Rightarrow> 's disi_queue result" where
  "down_heap I sz q =
     rbind (heap_at (dq_heap q) 0) (\<lambda>node.
       let j0 = left_node 0
       in if \<not> j0 < dq_size q then Inr q
          else rbind (smaller_child I (dq_buffer q) sz (dq_heap q) j0) (\<lambda>j.
               rbind (heap_doc I (dq_buffer q) (dq_heap q) j) (\<lambda>dj.
               rbind (ptr_doc I (dq_buffer q) node) (\<lambda>dn.
                 if \<not> dj < dn then Inr q
                 else rbind (down_loop I (dq_buffer q) node sz 0 j (dq_heap q)) (\<lambda>(i, heap).
                      rbind (heap_put heap i node) (\<lambda>heap'. Inr (q\<lparr>dq_heap := heap'\<rparr>)))))))"

definition do_push :: "('s, 'e) doc_iterator_scheme \<Rightarrow> nat option \<Rightarrow> 's disi_queue \<Rightarrow> (nat option \<times> 's disi_queue) result" where
  "do_push I entry q =
     rbind (heap_put (dq_heap q) (dq_size q) entry) (\<lambda>heap.
     rbind (up_heap I (dq_size q) (q\<lparr>dq_heap := heap\<rparr>)) (\<lambda>q1.
       let q2 = q1\<lparr>dq_size := dq_size q1 + 1\<rparr>
       in rbind (heap_at (dq_heap q2) 0) (\<lambda>p. Inr (p, q2))))"

definition do_pop :: "('s, 'e) doc_iterator_scheme \<Rightarrow> 's disi_queue \<Rightarrow> (nat option \<times> 's disi_queue) result" where
  "do_pop I q =
     (if \<not> 0 < dq_size q then Inl (Panic ''self.size > 0'')
      else let sz = dq_size q - 1
           in rbind (heap_at (dq_heap q) 0) (\<lambda>r.
              rbind (heap_at (dq_heap q) sz) (\<lambda>p.
              rbind (heap_put (dq_heap q) 0 p) (\<lambda>heap1.
              rbind (heap_put heap1 sz None) (\<lambda>heap2.
              rbind (down_heap I sz (q\<lparr>dq_size := sz, dq_heap := heap2\<rparr>)) (\<lambda>q1.
                Inr (r, q1)))))))"

definition do_update_top :: "('s, 'e) doc_iterator_scheme \<Rightarrow> 's disi_queue \<Rightarrow> (nat option \<times> 's disi_queue) result" where
  "do_update_top I q =
     rbind (down_heap I (dq_size q) q) (\<lambda>q1. rbind (heap_at (dq_heap q1) 0) (\<lambda>p. Inr (p, q1)))"

definition do_update_top_with ::
  "('s, 'e) doc_iterator_scheme \<Rightarrow> nat option \<Rightarrow> 's disi_queue \<Rightarrow> (nat option \<times> 's disi_queue) result" where
  "do_update_top_with I replacement q = rbind (heap_put (dq_heap q) 0 replacement) (\<lambda>heap. do_update_top I (q\<lparr>dq_heap := heap\<rparr>))"

definition dq_peek :: "'s disi_queue \<Rightarrow> nat option result" where
  "dq_peek q = heap_at (dq_heap q) 0"

definition dq_is_empty :: "'s disi_queue \<Rightarrow> bool" where
  "dq_is_empty q \<longleftrightarrow> dq_size q = 0"

fun push_children :: "('s, 'e) doc_iterator_scheme \<Rightarrow> nat list \<Rightarrow> 's disi_queue \<Rightarrow> 's disi_queue result" where
  "push_children I [] q = Inr q"
| "push_children I (p # ps) q = rbind (do_push I (Some p) q) (\<lambda>(r, q'). push_children I ps q')"

definition dq_new :: "('s, 'e) doc_iterator_scheme \<Rightarrow> 's list \<Rightarrow> 's disi_queue result" where
  "dq_new I children =
     push_children I [0..<length children]
       \<lparr>dq_heap = replicate (length children) None, dq_size = 0, dq_buffer = map dw_new children\<rparr>"

text \<open>The guard of \<open>peek_mut\<close>, and the iterator over the buffer.\<close>

record 's disi_peek_mut =
  dpm_heap :: "'s disi_queue"
  dpm_sift :: bool

definition dq_peek_mut :: "'s disi_queue \<Rightarrow> 's disi_peek_mut result" where
  "dq_peek_mut q =
     (if dq_is_empty q then Inl (Panic ''!self.is_empty()'') else Inr \<lparr>dpm_heap = q, dpm_sift = True\<rparr>)"

definition dpm_drop :: "('s, 'e) doc_iterator_scheme \<Rightarrow> 's disi_peek_mut \<Rightarrow> 's disi_queue result" where
  "dpm_drop I g =
     (if dpm_sift g then rbind (do_update_top I (dpm_heap g)) (\<lambda>(p, q). Inr q) else Inr (dpm_heap g))"

definition dpm_deref :: "'s disi_peek_mut \<Rightarrow> nat option result" where
  "dpm_deref g = heap_at (dq_heap (dpm_heap g)) 0"

definition dpm_pop :: "('s, 'e) doc_iterator_scheme \<Rightarrow> 's disi_peek_mut \<Rightarrow> (nat option \<times> 's disi_queue) result" where
  "dpm_pop I g =
     rbind (do_pop I (dpm_heap g)) (\<lambda>(p, q).
     rbind (dpm_drop I \<lparr>dpm_heap = q, dpm_sift = False\<rparr>) (\<lambda>q'. Inr (p, q')))"

definition dqi_next :: "'s disi_queue \<Rightarrow> nat \<Rightarrow> 's option \<times> nat" where
  "dqi_next q index =
     (if index < length (dq_buffer q) then (Some (dw_scorer (dq_buffer q ! index)), index + 1) else (None, index))"

subsection \<open>The wrappers on the current document\<close>

definition prepend :: "nat option \<Rightarrow> nat option \<Rightarrow> 's disi_wrapper list \<Rightarrow> (nat option \<times> 's disi_wrapper list) result" where
  "prepend w1 w2 buf =
     (case w1 of
        None \<Rightarrow> Inl (Panic ''null pointer'')
      | Some i \<Rightarrow> if i < length buf then Inr (w1, buf[i := (buf ! i)\<lparr>dw_next := w2\<rparr>]) else Inl (Panic ''dangling pointer''))"

function top_list_to ::
  "('s, 'e) doc_iterator_scheme \<Rightarrow> nat option list \<Rightarrow> nat \<Rightarrow> nat \<Rightarrow> nat option \<Rightarrow> 's disi_wrapper list \<Rightarrow>
   (nat option \<times> 's disi_wrapper list) result" where
  "top_list_to I heap sz i list buf =
     rbind (heap_at heap i) (\<lambda>w.
     rbind (ptr_doc I buf w) (\<lambda>dw.
     rbind (ptr_doc I buf list) (\<lambda>dl.
       if dw \<noteq> dl then Inr (list, buf)
       else rbind (prepend w list buf) (\<lambda>(list1, buf1).
         let left = left_node i; right = left + 1
         in if right < sz
            then rbind (top_list_to I heap sz left list1 buf1) (\<lambda>(list2, buf2). top_list_to I heap sz right list2 buf2)
            else if left < sz
            then rbind (heap_doc I buf1 heap left) (\<lambda>d1.
                 rbind (ptr_doc I buf1 list1) (\<lambda>d2.
                 if d1 = d2 then rbind (heap_at heap left) (\<lambda>p. prepend p list1 buf1) else Inr (list1, buf1)))
            else Inr (list1, buf1)))))"
  by pat_completeness auto
termination
  by (relation "measure (\<lambda>(I, heap, sz, i, list, buf). sz - i)") (auto simp: left_node_def)

declare top_list_to.simps [simp del]

definition do_top_list :: "('s, 'e) doc_iterator_scheme \<Rightarrow> 's disi_queue \<Rightarrow> (nat option \<times> 's disi_queue) result" where
  "do_top_list I q =
     (let heap = dq_heap q; sz = dq_size q
      in rbind (heap_at heap 0) (\<lambda>list.
         rbind (prepend list None (dq_buffer q)) (\<lambda>(list1, buf1).
         rbind (if 3 \<le> sz
                then rbind (top_list_to I heap sz 1 list1 buf1) (\<lambda>(list2, buf2). top_list_to I heap sz 2 list2 buf2)
                else if sz = 2
                then rbind (heap_doc I buf1 heap 1) (\<lambda>d1.
                     rbind (ptr_doc I buf1 list1) (\<lambda>d2.
                     if d1 = d2 then rbind (heap_at heap 1) (\<lambda>p. prepend p list1 buf1) else Inr (list1, buf1)))
                else Inr (list1, buf1))
           (\<lambda>(list', buf'). Inr (list', q\<lparr>dq_buffer := buf'\<rparr>)))))"

section \<open>The heap order of the pointers\<close>

definition ptr_key :: "('s, 'e) doc_iterator_scheme \<Rightarrow> 's disi_wrapper list \<Rightarrow> nat option \<Rightarrow> int" where
  "ptr_key I buf p = (case p of None \<Rightarrow> 0 | Some i \<Rightarrow> dw_doc_id I (buf ! i))"

abbreviation earlier :: "('s, 'e) doc_iterator_scheme \<Rightarrow> 's disi_wrapper list \<Rightarrow> nat option \<Rightarrow> nat option \<Rightarrow> bool" where
  "earlier I buf \<equiv> (\<lambda>a b. ptr_key I buf a \<le> ptr_key I buf b)"

interpretation disi_heap: heap_order "earlier I buf" for I buf
  by unfold_locales auto

definition ptrs_ok :: "'s disi_wrapper list \<Rightarrow> nat option list \<Rightarrow> nat \<Rightarrow> bool" where
  "ptrs_ok buf heap n \<longleftrightarrow> n \<le> length heap \<and> (\<forall>x \<in> set (take n heap). \<exists>p. x = Some p \<and> p < length buf)"

lemma ptrs_ok_nth: "ptrs_ok buf heap n \<Longrightarrow> i < n \<Longrightarrow> \<exists>p. heap ! i = Some p \<and> p < length buf"
  unfolding ptrs_ok_def by (metis in_set_conv_nth length_take min.absorb2 nth_take)

lemma ptrs_ok_mset:
  "ptrs_ok buf heap n \<Longrightarrow> mset (take n heap') = mset (take n heap) \<Longrightarrow> length heap' = length heap \<Longrightarrow> ptrs_ok buf heap' n"
  unfolding ptrs_ok_def by (metis mset_eq_setD)

lemma ptrs_ok_put: "ptrs_ok buf heap n \<Longrightarrow> p < length buf \<Longrightarrow> ptrs_ok buf (heap[i := Some p]) n"
  unfolding ptrs_ok_def by (auto simp: take_update_swap dest!: set_update_subset_insert [THEN subsetD])

lemma heap_at_ok: "ptrs_ok buf heap n \<Longrightarrow> i < n \<Longrightarrow> heap_at heap i = Inr (heap ! i)"
  by (simp add: ptrs_ok_def heap_at_def)

lemma heap_put_ok: "ptrs_ok buf heap n \<Longrightarrow> i < n \<Longrightarrow> heap_put heap i x = Inr (heap[i := x])"
  by (simp add: ptrs_ok_def heap_put_def)

lemma ptr_doc_ok: "p < length buf \<Longrightarrow> ptr_doc I buf (Some p) = Inr (ptr_key I buf (Some p))"
  by (simp add: ptr_doc_def ptr_key_def)

lemma heap_doc_ok: "ptrs_ok buf heap n \<Longrightarrow> i < n \<Longrightarrow> heap_doc I buf heap i = Inr (ptr_key I buf (heap ! i))"
  using ptrs_ok_nth [of buf heap n i] by (auto simp: heap_doc_def heap_at_ok ptr_doc_ok)

lemma node_eqs: "left_node i = 2 * i + 1" "0 < i \<Longrightarrow> parent_node i = Some (parent i)"
  by (auto simp: left_node_def parent_node_def parent_def)

lemma mset_take_move_hole:
  assumes "p \<noteq> q" "p < n" "q < n" "n \<le> length xs"
  shows "mset (take n (xs[p := xs ! q, q := x])) = mset (take n (xs[p := x]))"
  using mset_move_hole [of p q "take n xs" x] assms by (simp add: take_update_swap)

lemma up_loop_ok:
  assumes "ptrs_ok buf heap n" "i < n" "hole_inv (earlier I buf) heap i n" "above_children (earlier I buf) heap i n x"
  shows "\<exists>i' heap'. up_loop I buf (ptr_key I buf x) i heap = Inr (i', heap') \<and> i' < n \<and> length heap' = length heap \<and>
    heap_inv (earlier I buf) (heap'[i' := x]) n \<and> mset (take n (heap'[i' := x])) = mset (take n (heap[i := x]))"
  using assms
proof (induction i arbitrary: heap rule: less_induct)
  case (less i)
  have n: "n \<le> length heap" using less.prems(1) by (simp add: ptrs_ok_def)
  have close: "below_parent (earlier I buf) heap i x \<Longrightarrow> heap_inv (earlier I buf) (heap[i := x]) n"
    using disi_heap.close_hole [OF less.prems(3) _ less.prems(4) n] by simp
  show ?case
  proof (cases "i = 0")
    case True
    then show ?thesis
      using close less.prems(2) by (subst up_loop.simps) (simp add: parent_node_def below_parent_def)
  next
    case False
    let ?j = "parent i"
    have j: "?j < i" using False by (simp add: parent_less)
    then have read: "heap_doc I buf heap ?j = Inr (ptr_key I buf (heap ! ?j))" "heap_at heap ?j = Inr (heap ! ?j)"
        "heap_put heap i (heap ! ?j) = Inr (heap[i := heap ! ?j])"
      using less.prems(1,2) heap_doc_ok [of buf heap n ?j I] heap_at_ok [of buf heap n ?j] heap_put_ok [of buf heap n i] by auto
    show ?thesis
    proof (cases "ptr_key I buf (heap ! ?j) \<le> ptr_key I buf x")
      case True
      then show ?thesis
        using close False less.prems(2) read by (subst up_loop.simps) (simp add: node_eqs below_parent_def)
    next
      case up: False
      let ?h = "heap[i := heap ! ?j]"
      obtain p where p: "heap ! ?j = Some p" "p < length buf" using ptrs_ok_nth [OF less.prems(1), of ?j] j less.prems(2) by auto
      have "ptrs_ok buf ?h n" using ptrs_ok_put [OF less.prems(1) p(2)] p(1) by simp
      moreover have "hole_inv (earlier I buf) ?h ?j n" "above_children (earlier I buf) ?h ?j n x"
        using disi_heap.move_up [OF less.prems(3) _ less.prems(2) n] disi_heap.move_up_children [OF less.prems(3) _ less.prems(2) n, of x] False up
        by auto
      ultimately obtain i' heap' where r: "up_loop I buf (ptr_key I buf x) ?j ?h = Inr (i', heap')" "i' < n" "length heap' = length heap"
          "heap_inv (earlier I buf) (heap'[i' := x]) n" "mset (take n (heap'[i' := x])) = mset (take n (?h[?j := x]))"
        using less.IH [OF j, of ?h] j less.prems(2) by auto
      have "mset (take n (?h[?j := x])) = mset (take n (heap[i := x]))"
        using j less.prems(2) n by (intro mset_take_move_hole) auto
      then show ?thesis
        using r read False up by (subst up_loop.simps) (simp add: node_eqs)
    qed
  qed
qed

lemma smaller_child_ok:
  assumes "ptrs_ok buf heap n" "2 * p + 1 < n"
  obtains c where "smaller_child I buf n heap (2 * p + 1) = Inr c" "c < n" "parent c = p" "0 < c"
    "above_children (earlier I buf) heap p n (heap ! c)"
proof -
  let ?l = "2 * p + 1"
  let ?c = "if ?l + 1 < n \<and> ptr_key I buf (heap ! (?l + 1)) < ptr_key I buf (heap ! ?l) then ?l + 1 else ?l"
  have "smaller_child I buf n heap ?l = Inr ?c"
    using assms heap_doc_ok [OF assms(1), of ?l I] heap_doc_ok [OF assms(1), of "?l + 1" I]
    by (simp add: smaller_child_def right_node_def Let_def)
  moreover have "above_children (earlier I buf) heap p n (heap ! ?c)"
    unfolding disi_heap.children_cases using assms(2) by auto
  moreover have "?c < n" "parent ?c = p" "0 < ?c" using assms(2) by auto
  ultimately show thesis using that by blast
qed

lemma smaller_child_none: "n \<le> 2 * p + 1 \<Longrightarrow> smaller_child I buf n heap (2 * p + 1) = Inr (2 * p + 1)"
  by (simp add: smaller_child_def right_node_def)

lemma down_loop_ok:
  assumes "ptrs_ok buf heap n" "hole_inv (earlier I buf) heap i n" "j < n" "parent j = i" "0 < j"
    "above_children (earlier I buf) heap i n (heap ! j)" "ptr_key I buf (heap ! j) \<le> ptr_key I buf (Some p)" "p < length buf"
  shows "\<exists>i' heap'. down_loop I buf (Some p) n i j heap = Inr (i', heap') \<and> i' < n \<and> length heap' = length heap \<and>
    heap_inv (earlier I buf) (heap'[i' := Some p]) n \<and> mset (take n (heap'[i' := Some p])) = mset (take n (heap[i := Some p]))"
  using assms(1-7)
proof (induction "n - j" arbitrary: i j heap rule: less_induct)
  case less
  let ?x = "Some p" and ?h = "heap[i := heap ! j]"
  have n: "n \<le> length heap" and ij: "i < j" using less.prems(1,4,5) parent_less [of j] by (auto simp: ptrs_ok_def)
  obtain r where r: "heap ! j = Some r" "r < length buf" using ptrs_ok_nth [OF less.prems(1,3)] by blast
  have ok: "ptrs_ok buf ?h n" using ptrs_ok_put [OF less.prems(1) r(2), of i] r(1) by simp
  have hole: "hole_inv (earlier I buf) ?h j n" and below: "below_parent (earlier I buf) ?h j ?x"
    using disi_heap.move_down(1) [OF less.prems(2,5,3,4) n less.prems(6)]
      disi_heap.move_down(2) [OF less.prems(2,5,3,4) n less.prems(6), of ?x] less.prems(7) by auto
  have perm: "mset (take n (?h[j := ?x])) = mset (take n (heap[i := ?x]))"
    using ij less.prems(3) n by (intro mset_take_move_hole) auto
  have read: "heap_at heap j = Inr (heap ! j)" "heap_put heap i (heap ! j) = Inr ?h"
    using heap_at_ok [OF less.prems(1,3)] heap_put_ok [OF less.prems(1), of i] ij less.prems(3) by auto
  have stop: "heap_inv (earlier I buf) (?h[j := ?x]) n" if "above_children (earlier I buf) ?h j n ?x"
    using disi_heap.close_hole [OF hole below that] n by simp
  show ?case
  proof (cases "2 * j + 1 < n")
    case False
    then show ?thesis
      using stop disi_heap.no_children [of n j I buf ?h ?x] perm read less.prems(3) smaller_child_none [of n j I buf ?h]
      by (subst down_loop.simps) (simp add: node_eqs)
  next
    case True
    obtain c where c: "smaller_child I buf n ?h (2 * j + 1) = Inr c" "c < n" "parent c = j" "0 < c"
        "above_children (earlier I buf) ?h j n (?h ! c)"
      by (rule smaller_child_ok [OF ok True])
    have docs: "heap_doc I buf ?h c = Inr (ptr_key I buf (?h ! c))" "ptr_doc I buf ?x = Inr (ptr_key I buf ?x)"
      using heap_doc_ok [OF ok c(2)] ptr_doc_ok [OF assms(8)] by auto
    show ?thesis
    proof (cases "ptr_key I buf ?x \<le> ptr_key I buf (?h ! c)")
      case halt: True
      then have "above_children (earlier I buf) ?h j n ?x" using c(5) order_trans [OF halt] unfolding above_children_def by blast
      then show ?thesis
        using stop perm read less.prems(3) c(1,2) docs halt by (subst down_loop.simps) (simp add: node_eqs)
    next
      case go: False
      have "n - c < n - j" using c parent_less [of c] by simp
      then obtain i' heap' where "down_loop I buf ?x n j c ?h = Inr (i', heap')" "i' < n" "length heap' = length heap"
          "heap_inv (earlier I buf) (heap'[i' := ?x]) n" "mset (take n (heap'[i' := ?x])) = mset (take n (?h[j := ?x]))"
        using less.hyps [of c ?h j] ok hole c go by auto
      then show ?thesis
        using perm read c(1,2) docs go by (subst down_loop.simps) (simp add: node_eqs)
    qed
  qed
qed

lemma down_heap_ok:
  assumes "ptrs_ok (dq_buffer q) (dq_heap q) n" "dq_size q = n" "0 < n"
    "hole_inv (earlier I (dq_buffer q)) (dq_heap q) 0 n"
  shows "\<exists>heap. down_heap I n q = Inr (q\<lparr>dq_heap := heap\<rparr>) \<and> length heap = length (dq_heap q) \<and>
    heap_inv (earlier I (dq_buffer q)) heap n \<and> mset (take n heap) = mset (take n (dq_heap q))"
proof -
  let ?h = "dq_heap q" and ?buf = "dq_buffer q"
  have n: "n \<le> length ?h" using assms(1) by (simp add: ptrs_ok_def)
  obtain p where p: "?h ! 0 = Some p" "p < length ?buf" using ptrs_ok_nth [OF assms(1,3)] by blast
  have at0: "heap_at ?h 0 = Inr (Some p)" using heap_at_ok [OF assms(1,3)] p by simp
  have self: "?h[0 := Some p] = ?h" using p(1) by (metis list_update_id)
  have top: "below_parent (earlier I ?buf) ?h 0 (Some p)" by (simp add: below_parent_def)
  have stay: "heap_inv (earlier I ?buf) ?h n" if "above_children (earlier I ?buf) ?h 0 n (Some p)"
    using disi_heap.close_hole [OF assms(4) top that n] self by simp
  show ?thesis
  proof (cases "1 < n")
    case False
    then have "heap_inv (earlier I ?buf) ?h n" using disi_heap.no_children [of n 0] by (intro stay) simp
    then show ?thesis
      using at0 assms(2) False by (intro exI [of _ ?h]) (simp add: down_heap_def node_eqs)
  next
    case True
    then have two: "2 * 0 + 1 < n" by simp
    obtain c where c: "smaller_child I ?buf n ?h (2 * 0 + 1) = Inr c" "c < n" "parent c = 0" "0 < c"
        "above_children (earlier I ?buf) ?h 0 n (?h ! c)"
      by (rule smaller_child_ok [OF assms(1) two])
    have docs: "heap_doc I ?buf ?h c = Inr (ptr_key I ?buf (?h ! c))" "ptr_doc I ?buf (Some p) = Inr (ptr_key I ?buf (Some p))"
      using heap_doc_ok [OF assms(1) c(2)] ptr_doc_ok [OF p(2)] by auto
    show ?thesis
    proof (cases "ptr_key I ?buf (?h ! c) < ptr_key I ?buf (Some p)")
      case False
      then have le: "ptr_key I ?buf (Some p) \<le> ptr_key I ?buf (?h ! c)" by simp
      have "above_children (earlier I ?buf) ?h 0 n (Some p)"
        using c(5) order_trans [OF le] unfolding above_children_def by blast
      then show ?thesis
        using stay at0 assms(2) True False c(1) docs by (intro exI [of _ ?h]) (simp add: down_heap_def node_eqs)
    next
      case move: True
      obtain i heap where r: "down_loop I ?buf (Some p) n 0 c ?h = Inr (i, heap)" "i < n" "length heap = length ?h"
          "heap_inv (earlier I ?buf) (heap[i := Some p]) n" "mset (take n (heap[i := Some p])) = mset (take n ?h)"
        using down_loop_ok [OF assms(1,4) c(2-5) _ p(2)] move self by auto
      have "heap_put heap i (Some p) = Inr (heap[i := Some p])" using r(2,3) n by (simp add: heap_put_def)
      then show ?thesis
        using r at0 assms(2) True move c(1) docs by (intro exI [of _ "heap[i := Some p]"]) (simp add: down_heap_def node_eqs)
    qed
  qed
qed

section \<open>The queue keeps its order\<close>

definition dq_inv :: "('s, 'e) doc_iterator_scheme \<Rightarrow> 's disi_queue \<Rightarrow> bool" where
  "dq_inv I q \<longleftrightarrow> ptrs_ok (dq_buffer q) (dq_heap q) (dq_size q) \<and> distinct (take (dq_size q) (dq_heap q)) \<and>
     heap_inv (earlier I (dq_buffer q)) (dq_heap q) (dq_size q)"

definition dq_members :: "'s disi_queue \<Rightarrow> nat set" where
  "dq_members q = {p. Some p \<in> set (take (dq_size q) (dq_heap q))}"

definition dq_doc :: "('s, 'e) doc_iterator_scheme \<Rightarrow> 's disi_queue \<Rightarrow> nat \<Rightarrow> int" where
  "dq_doc I q p = dw_doc_id I (dq_buffer q ! p)"

text \<open>What an operation that reorders the heap gives, from the permutation it does.\<close>

lemma dq_inv_perm:
  assumes "ptrs_ok buf h n" "distinct (take n h)" "length h' = length h" "mset (take n h') = mset (take n h)" "heap_inv (earlier I buf) h' n"
    and "q = \<lparr>dq_heap = h', dq_size = n, dq_buffer = buf\<rparr>"
  shows "dq_inv I q" "dq_members q = {p. Some p \<in> set (take n h)}"
proof -
  have "set (take n h') = set (take n h)" "distinct (take n h')"
    using assms(2,4) mset_eq_setD mset_eq_imp_distinct_iff by blast+
  then show "dq_inv I q" "dq_members q = {p. Some p \<in> set (take n h)}"
    using assms ptrs_ok_mset [OF assms(1,4,3)] by (simp_all add: dq_inv_def dq_members_def)
qed

lemma dq_top:
  assumes "dq_inv I q" "0 < dq_size q"
  obtains p where "dq_heap q ! 0 = Some p" "p \<in> dq_members q" "p < length (dq_buffer q)" "\<forall>r \<in> dq_members q. dq_doc I q p \<le> dq_doc I q r"
proof -
  let ?h = "dq_heap q" and ?n = "dq_size q"
  have ok: "ptrs_ok (dq_buffer q) ?h ?n" and hp: "heap_inv (earlier I (dq_buffer q)) ?h ?n" using assms(1) by (simp_all add: dq_inv_def)
  then have n: "?n \<le> length ?h" by (simp add: ptrs_ok_def)
  obtain p where p: "?h ! 0 = Some p" "p < length (dq_buffer q)" using ptrs_ok_nth [OF ok assms(2)] by blast
  have "?h ! 0 \<in> set (take ?n ?h)" using n assms(2) by (metis in_set_conv_nth length_take min.absorb2 nth_take)
  then have mem: "p \<in> dq_members q" using p(1) by (simp add: dq_members_def)
  have "dq_doc I q p \<le> dq_doc I q r" if "r \<in> dq_members q" for r
  proof -
    obtain i where "i < ?n" "?h ! i = Some r" using \<open>r \<in> dq_members q\<close> n by (auto simp: dq_members_def in_set_conv_nth)
    then show ?thesis using disi_heap.heap_top [OF hp, of i] p(1) by (simp add: ptr_key_def dq_doc_def)
  qed
  with p mem that show thesis by blast
qed

lemma do_push_ok:
  assumes q: "dq_inv I q" and p: "p < length (dq_buffer q)" "p \<notin> dq_members q" and room: "dq_size q < length (dq_heap q)"
  shows "\<exists>r q'. do_push I (Some p) q = Inr (r, q') \<and> dq_inv I q' \<and> dq_members q' = insert p (dq_members q) \<and>
    dq_size q' = dq_size q + 1 \<and> length (dq_heap q') = length (dq_heap q) \<and> dq_buffer q' = dq_buffer q"
proof -
  let ?n = "dq_size q" and ?buf = "dq_buffer q"
  let ?h = "(dq_heap q)[?n := Some p]"
  have tk: "take (?n + 1) ?h = take ?n (dq_heap q) @ [Some p]" using room by (simp add: take_Suc_conv_app_nth)
  have ok: "ptrs_ok ?buf ?h (?n + 1)"
    using q p(1) room unfolding ptrs_ok_def tk by (auto simp: dq_inv_def ptrs_ok_def)
  have dist: "distinct (take (?n + 1) ?h)" unfolding tk using q p(2) by (simp add: dq_inv_def dq_members_def)
  have "hole_inv (earlier I ?buf) ?h ?n (?n + 1)"
    unfolding hole_inv_def
  proof (intro conjI allI impI)
    fix i assume i: "0 < i" "i < ?n + 1" "i \<noteq> ?n" "parent i \<noteq> ?n"
    then show "ptr_key I ?buf (?h ! parent i) \<le> ptr_key I ?buf (?h ! i)"
      using q by (simp add: dq_inv_def heap_inv_def)
  next
    fix i assume "0 < i" "i < ?n + 1" "parent i = ?n"
    then show "ptr_key I ?buf (?h ! parent ?n) \<le> ptr_key I ?buf (?h ! i)" using parent_less [of i] by simp
  qed
  then obtain i heap where r: "up_loop I ?buf (ptr_key I ?buf (Some p)) ?n ?h = Inr (i, heap)" "i < ?n + 1" "length heap = length ?h"
      "heap_inv (earlier I ?buf) (heap[i := Some p]) (?n + 1)" "mset (take (?n + 1) (heap[i := Some p])) = mset (take (?n + 1) ?h)"
    using up_loop_ok [OF ok, of ?n I "Some p"] disi_heap.no_children [of "?n + 1" ?n I ?buf ?h "Some p"] by auto
  let ?q = "\<lparr>dq_heap = heap[i := Some p], dq_size = ?n + 1, dq_buffer = ?buf\<rparr>"
  have "do_push I (Some p) q = Inr (heap[i := Some p] ! 0, ?q)"
    using room r(1-3) ptr_doc_ok [OF p(1), of I]
    by (cases q) (auto simp: do_push_def up_heap_def heap_put_def heap_at_def Let_def)
  moreover have "dq_inv I ?q" "dq_members ?q = insert p (dq_members q)"
    using dq_inv_perm [OF ok dist _ r(5) r(4) refl] r(3) unfolding tk by (auto simp: dq_members_def)
  ultimately show ?thesis using r(3) by auto
qed

lemma do_pop_ok:
  assumes q: "dq_inv I q" and n: "0 < dq_size q"
  shows "\<exists>p q'. do_pop I q = Inr (Some p, q') \<and> p \<in> dq_members q \<and> (\<forall>r \<in> dq_members q. dq_doc I q p \<le> dq_doc I q r) \<and>
    dq_inv I q' \<and> dq_members q' = dq_members q - {p} \<and> dq_size q' + 1 = dq_size q \<and> dq_buffer q' = dq_buffer q"
proof -
  let ?buf = "dq_buffer q" and ?h = "dq_heap q"
  obtain m where m: "dq_size q = Suc m" using n by (cases "dq_size q") auto
  obtain p where p: "?h ! 0 = Some p" "p \<in> dq_members q" "p < length ?buf" "\<forall>r \<in> dq_members q. dq_doc I q p \<le> dq_doc I q r"
    by (rule dq_top [OF q n])
  have len: "Suc m \<le> length ?h" and ok: "ptrs_ok ?buf ?h (Suc m)" using q m by (simp_all add: dq_inv_def ptrs_ok_def)
  have tk: "take (Suc m) ?h = take m ?h @ [?h ! m]" using len by (simp add: take_Suc_conv_app_nth)
  have dist: "distinct (take m ?h @ [?h ! m])" using q m tk by (simp add: dq_inv_def)
  let ?h2 = "?h[0 := ?h ! m, m := None]"
  have pop: "do_pop I q = rbind (down_heap I m (q\<lparr>dq_size := m, dq_heap := ?h2\<rparr>)) (\<lambda>q1. Inr (Some p, q1))"
    using m len p(1) by (auto simp: do_pop_def heap_at_def heap_put_def)
  show ?thesis
  proof (cases "m = 0")
    case True
    have "down_heap I 0 (q\<lparr>dq_size := 0, dq_heap := ?h2\<rparr>) = Inr (q\<lparr>dq_size := 0, dq_heap := ?h2\<rparr>)"
      using len by (auto simp: down_heap_def heap_at_def Let_def)
    moreover have "dq_members q = {p}" using m True tk p(1) by (auto simp: dq_members_def)
    ultimately show ?thesis
      using pop True p m by (auto simp: dq_inv_def dq_members_def ptrs_ok_def heap_inv_def)
  next
    case False
    then obtain k where k: "m = Suc k" by (cases m) auto
    obtain t where t: "?h = Some p # t" using p(1) len by (cases ?h) auto
    obtain r where r: "?h ! m = Some r" "r < length ?buf" using ptrs_ok_nth [OF ok, of m] by auto
    have whole: "take (Suc m) ?h = Some p # take k t @ [Some r]" using tk t r(1) k by simp
    have part: "take m ?h2 = Some r # take k t" using t r(1) k by simp
    have members: "{x. Some x \<in> set (take m ?h2)} = dq_members q - {p}"
      unfolding part dq_members_def m whole using q m whole by (auto simp: dq_inv_def)
    have dist2: "distinct (take m ?h2)" unfolding part using q m whole by (simp add: dq_inv_def)
    have ok2: "ptrs_ok ?buf ?h2 m" using ok len unfolding ptrs_ok_def part whole by auto
    have "hole_inv (earlier I ?buf) ?h2 0 m"
      unfolding hole_inv_def
    proof (intro conjI allI impI)
      fix i assume i: "0 < i" "i < m" "parent i \<noteq> 0"
      then have "parent i \<noteq> m" using parent_less [of i] by simp
      then show "ptr_key I ?buf (?h2 ! parent i) \<le> ptr_key I ?buf (?h2 ! i)"
        using q m i by (simp add: dq_inv_def heap_inv_def)
    qed simp
    then obtain heap where heap: "down_heap I m (q\<lparr>dq_size := m, dq_heap := ?h2\<rparr>) = Inr (q\<lparr>dq_size := m, dq_heap := heap\<rparr>)"
        "length heap = length ?h2" "heap_inv (earlier I ?buf) heap m" "mset (take m heap) = mset (take m ?h2)"
      using down_heap_ok [of "q\<lparr>dq_size := m, dq_heap := ?h2\<rparr>" m I] ok2 False by auto
    have eq: "q\<lparr>dq_size := m, dq_heap := heap\<rparr> = \<lparr>dq_heap = heap, dq_size = m, dq_buffer = ?buf\<rparr>" by (cases q) simp
    have "dq_inv I (q\<lparr>dq_size := m, dq_heap := heap\<rparr>)" "dq_members (q\<lparr>dq_size := m, dq_heap := heap\<rparr>) = dq_members q - {p}"
      using dq_inv_perm [OF ok2 dist2 heap(2,4,3) eq] members by simp_all
    then show ?thesis using pop heap(1) p m by auto
  qed
qed

text \<open>After the iterator at the top has moved, to any document, \<open>update_top\<close> restores the order.\<close>

definition dq_set_top :: "'s disi_wrapper \<Rightarrow> 's disi_queue \<Rightarrow> 's disi_queue" where
  "dq_set_top w q = q\<lparr>dq_buffer := (dq_buffer q)[the (dq_heap q ! 0) := w]\<rparr>"

lemma do_update_top_ok:
  assumes q: "dq_inv I q" and n: "0 < dq_size q"
  shows "\<exists>p q'. do_update_top I (dq_set_top w q) = Inr (Some p, q') \<and> dq_inv I q' \<and> dq_members q' = dq_members q \<and>
    p \<in> dq_members q \<and> (\<forall>r \<in> dq_members q. dq_doc I q' p \<le> dq_doc I q' r) \<and> dq_buffer q' = dq_buffer (dq_set_top w q)"
proof -
  let ?h = "dq_heap q" and ?n = "dq_size q" and ?q = "dq_set_top w q"
  obtain p where p: "?h ! 0 = Some p" "p < length (dq_buffer q)" by (rule dq_top [OF q n])
  have ok: "ptrs_ok (dq_buffer q) ?h ?n" and dist: "distinct (take ?n ?h)" using q by (simp_all add: dq_inv_def)
  then have len: "?n \<le> length ?h" by (simp add: ptrs_ok_def)
  have ok': "ptrs_ok (dq_buffer ?q) ?h ?n" using ok by (simp add: ptrs_ok_def dq_set_top_def)
  have key: "ptr_key I (dq_buffer ?q) (?h ! i) = ptr_key I (dq_buffer q) (?h ! i)" if "0 < i" "i < ?n" for i
  proof -
    have "?h ! i \<noteq> ?h ! 0" using nth_eq_iff_index_eq [OF dist, of i 0] that len n by simp
    then show ?thesis using p(1) by (auto simp: ptr_key_def dq_set_top_def split: option.splits)
  qed
  have "hole_inv (earlier I (dq_buffer ?q)) ?h 0 ?n"
    unfolding hole_inv_def
  proof (intro conjI allI impI)
    fix i assume i: "0 < i" "i < ?n" "parent i \<noteq> 0"
    then show "ptr_key I (dq_buffer ?q) (?h ! parent i) \<le> ptr_key I (dq_buffer ?q) (?h ! i)"
      using key [of i] key [of "parent i"] parent_less [of i] q by (simp add: dq_inv_def heap_inv_def)
  qed simp
  then obtain heap where heap: "down_heap I ?n ?q = Inr (?q\<lparr>dq_heap := heap\<rparr>)" "length heap = length ?h"
      "heap_inv (earlier I (dq_buffer ?q)) heap ?n" "mset (take ?n heap) = mset (take ?n ?h)"
    using down_heap_ok [of ?q ?n I] ok' n by (auto simp: dq_set_top_def)
  let ?q' = "?q\<lparr>dq_heap := heap\<rparr>"
  have eq: "?q' = \<lparr>dq_heap = heap, dq_size = ?n, dq_buffer = dq_buffer ?q\<rparr>" by (cases q) (simp add: dq_set_top_def)
  have q': "dq_inv I ?q'" "dq_members ?q' = dq_members q"
    using dq_inv_perm [OF ok' dist heap(2,4,3) eq] by (simp_all add: dq_members_def [of q])
  have size': "0 < dq_size ?q'" using n by (simp add: dq_set_top_def)
  obtain r where "dq_heap ?q' ! 0 = Some r" "r \<in> dq_members ?q'" "\<forall>s \<in> dq_members ?q'. dq_doc I ?q' r \<le> dq_doc I ?q' s"
    by (rule dq_top [OF q'(1) size'])
  then show ?thesis
    using heap(1,2) q' len n by (intro exI [of _ r] exI [of _ ?q']) (auto simp: do_update_top_def heap_at_def dq_set_top_def)
qed

lemma push_children_ok:
  assumes "dq_inv I q" "dq_size q + length ps \<le> length (dq_heap q)" "distinct ps" "\<forall>p \<in> set ps. p < length (dq_buffer q) \<and> p \<notin> dq_members q"
  shows "\<exists>q'. push_children I ps q = Inr q' \<and> dq_inv I q' \<and> dq_members q' = dq_members q \<union> set ps \<and>
    dq_size q' = dq_size q + length ps \<and> dq_buffer q' = dq_buffer q"
  using assms
proof (induction ps arbitrary: q)
  case (Cons p ps)
  have room: "dq_size q < length (dq_heap q)" and p: "p < length (dq_buffer q)" "p \<notin> dq_members q" using Cons.prems by auto
  from do_push_ok [OF Cons.prems(1) p room] obtain r q1 where
    q1: "do_push I (Some p) q = Inr (r, q1)" "dq_inv I q1" "dq_members q1 = insert p (dq_members q)"
      "dq_size q1 = dq_size q + 1" "length (dq_heap q1) = length (dq_heap q)" "dq_buffer q1 = dq_buffer q" by blast
  from Cons.IH [OF q1(2)] q1 Cons.prems show ?case by auto
qed simp

section \<open>The list of the wrappers on the current document\<close>

subsection \<open>Subtrees\<close>

definition subtree :: "nat \<Rightarrow> nat \<Rightarrow> nat set" where
  "subtree n i = {j. j < n \<and> (\<exists>k. (parent ^^ k) j = i)}"

lemma parent_le: "parent i \<le> i"
  by (auto simp: parent_def)

lemma parents_le: "(parent ^^ k) j \<le> j"
  by (induction k) (auto intro: order_trans [OF parent_le])

lemma subtree_ge: "j \<in> subtree n i \<Longrightarrow> i \<le> j \<and> j < n"
  using parents_le by (auto simp: subtree_def)

lemma subtree_unfold:
  assumes "0 < i" "i < n"
  shows "subtree n i = insert i (subtree n (2 * i + 1) \<union> subtree n (2 * i + 2))"
proof -
  have down: "j = i \<or> j \<in> subtree n (2 * i + 1) \<or> j \<in> subtree n (2 * i + 2)" if "j < n" "(parent ^^ k) j = i" for j k
  proof (cases k)
    case (Suc k')
    then have m: "parent ((parent ^^ k') j) = i" using that by simp
    then have "0 < (parent ^^ k') j" using assms(1) by (cases "(parent ^^ k') j") (auto simp: parent_def)
    then have "(parent ^^ k') j = 2 * i + 1 \<or> (parent ^^ k') j = 2 * i + 2" using m parent_eq_iff by simp
    then show ?thesis using that(1) by (auto simp: subtree_def)
  qed (use that in simp)
  have up: "j \<in> subtree n i" if "j \<in> subtree n c" "parent c = i" for j c
  proof -
    from that(1) obtain k where "j < n" "(parent ^^ k) j = c" by (auto simp: subtree_def)
    then show ?thesis using that(2) by (auto simp: subtree_def intro!: exI [of _ "Suc k"])
  qed
  have self: "i \<in> subtree n i" using assms(2) by (auto simp: subtree_def intro!: exI [of _ 0])
  show ?thesis
  proof (intro equalityI subsetI)
    fix j assume "j \<in> subtree n i"
    then obtain k where "j < n" "(parent ^^ k) j = i" by (auto simp: subtree_def)
    from down [OF this] show "j \<in> insert i (subtree n (2 * i + 1) \<union> subtree n (2 * i + 2))" by blast
  next
    fix j assume "j \<in> insert i (subtree n (2 * i + 1) \<union> subtree n (2 * i + 2))"
    then show "j \<in> subtree n i" using self up [of j "2 * i + 1"] up [of j "2 * i + 2"] by auto
  qed
qed

lemma subtree_disjoint:
  assumes "j \<in> subtree n (2 * i + 1)" "j \<in> subtree n (2 * i + 2)"
  shows False
proof -
  obtain k l where k: "(parent ^^ k) j = 2 * i + 1" and l: "(parent ^^ l) j = 2 * i + 2" using assms by (auto simp: subtree_def)
  consider "k < l" | "k = l" | "l < k" by linarith
  then show False
  proof cases
    case 1
    then have "(parent ^^ (l - k)) (2 * i + 1) = 2 * i + 2"
      using k l by (metis add_diff_cancel_left' comp_apply funpow_add le_add_diff_inverse2 less_imp_le_nat)
    then show False using parents_le [of "l - k" "2 * i + 1"] by simp
  next
    case 2
    then show False using k l by simp
  next
    case 3
    then obtain m where m: "k - l = Suc m" by (metis Suc_diff_Suc)
    have "(parent ^^ (k - l)) (2 * i + 2) = 2 * i + 1"
      using 3 k l by (metis add_diff_cancel_left' comp_apply funpow_add le_add_diff_inverse2 less_imp_le_nat)
    then have "(parent ^^ m) i = 2 * i + 1" unfolding m by (simp only: funpow_Suc_right comp_apply parent_child(2))
    then show False using parents_le [of m i] by simp
  qed
qed

lemma subtree_root: "0 < j \<Longrightarrow> j < n \<Longrightarrow> j \<in> subtree n 1 \<union> subtree n 2"
proof (induction j rule: less_induct)
  case (less j)
  show ?case
  proof (cases "parent j = 0")
    case True
    then have "j = 1 \<or> j = 2" using parent_eq_iff [OF less.prems(1), of 0] by auto
    then show ?thesis using less.prems(2) by (auto simp: subtree_def intro: exI [of _ 0])
  next
    case False
    with less.IH [of "parent j"] parent_less [OF less.prems(1)] less.prems obtain k where
      "(parent ^^ k) (parent j) = 1 \<or> (parent ^^ k) (parent j) = 2" by (auto simp: subtree_def)
    then have "(parent ^^ Suc k) j = 1 \<or> (parent ^^ Suc k) j = 2" by (simp only: funpow_Suc_right comp_apply)
    then show ?thesis using less.prems(2) unfolding subtree_def by blast
  qed
qed

subsection \<open>Chains\<close>

fun chain :: "'s disi_wrapper list \<Rightarrow> nat option \<Rightarrow> nat list \<Rightarrow> bool" where
  "chain buf p [] \<longleftrightarrow> p = None"
| "chain buf p (x # xs) \<longleftrightarrow> p = Some x \<and> x < length buf \<and> chain buf (dw_next (buf ! x)) xs"

lemma chain_frame: "chain buf p xs \<Longrightarrow> y \<notin> set xs \<Longrightarrow> chain (buf[y := w]) p xs"
  by (induction xs arbitrary: p) auto

text \<open>
  \<open>linked buf0 D buf list xs\<close>: the buffer is \<open>buf0\<close> but for its \<open>next\<close> pointers, and the
  pointers from \<open>list\<close> on are \<open>xs\<close>, without repetition and all on document \<open>D\<close>.
\<close>

definition linked ::
  "('s, 'e) doc_iterator_scheme \<Rightarrow> 's disi_wrapper list \<Rightarrow> int \<Rightarrow> 's disi_wrapper list \<Rightarrow> nat option \<Rightarrow> nat list \<Rightarrow> bool" where
  "linked I buf0 D buf list xs \<longleftrightarrow>
     map (dw_next_update (\<lambda>_. None)) buf = map (dw_next_update (\<lambda>_. None)) buf0 \<and> chain buf list xs \<and> distinct xs \<and>
     xs \<noteq> [] \<and> (\<forall>p \<in> set xs. p < length buf0 \<and> ptr_key I buf0 (Some p) = D)"

lemma same_but_next:
  assumes "map (dw_next_update (\<lambda>_. None)) buf = map (dw_next_update (\<lambda>_. None)) buf0"
  shows "length buf = length buf0" "p < length buf0 \<Longrightarrow> ptr_doc I buf (Some p) = Inr (ptr_key I buf0 (Some p))"
proof -
  show len: "length buf = length buf0" using assms map_eq_imp_length_eq by blast
  assume p: "p < length buf0"
  then have "dw_next_update (\<lambda>_. None) (buf ! p) = dw_next_update (\<lambda>_. None) (buf0 ! p)"
    using assms len by (metis nth_map)
  then have "dw_scorer (buf ! p) = dw_scorer (buf0 ! p)"
    by (metis disi_wrapper.select_convs(1) disi_wrapper.surjective disi_wrapper.update_convs(4))
  then show "ptr_doc I buf (Some p) = Inr (ptr_key I buf0 (Some p))"
    using p len by (simp add: ptr_doc_def ptr_key_def dw_doc_id_def)
qed

lemma linked_head:
  assumes "linked I buf0 D buf list xs"
  shows "ptr_doc I buf list = Inr D"
proof -
  from assms obtain p ps where "xs = p # ps" "list = Some p" by (cases xs) (auto simp: linked_def)
  then show ?thesis using assms same_but_next(2) [of buf buf0 p I] by (simp add: linked_def)
qed

lemma linked_doc:
  "linked I buf0 D buf list xs \<Longrightarrow> p < length buf0 \<Longrightarrow> ptr_doc I buf (Some p) = Inr (ptr_key I buf0 (Some p))"
  using same_but_next(2) by (auto simp: linked_def)

lemma prepend_linked:
  assumes "linked I buf0 D buf list xs" "p < length buf0" "p \<notin> set xs" "ptr_key I buf0 (Some p) = D"
  shows "\<exists>buf'. prepend (Some p) list buf = Inr (Some p, buf') \<and> linked I buf0 D buf' (Some p) (p # xs)"
proof -
  let ?w = "(buf ! p)\<lparr>dw_next := list\<rparr>"
  have same: "map (dw_next_update (\<lambda>_. None)) buf = map (dw_next_update (\<lambda>_. None)) buf0" and ch: "chain buf list xs"
    using assms(1) by (simp_all add: linked_def)
  have len: "length buf = length buf0" by (rule same_but_next(1) [OF same])
  have "map (dw_next_update (\<lambda>_. None)) (buf[p := ?w]) = map (dw_next_update (\<lambda>_. None)) buf0"
    using same len assms(2) by (simp add: map_update) (metis list_update_id nth_map)
  then have "linked I buf0 D (buf[p := ?w]) (Some p) (p # xs)"
    using assms chain_frame [OF ch assms(3), of ?w] len by (simp add: linked_def)
  then show ?thesis using assms(2) len by (simp add: prepend_def)
qed

definition on_doc :: "('s, 'e) doc_iterator_scheme \<Rightarrow> 's disi_wrapper list \<Rightarrow> nat option list \<Rightarrow> int \<Rightarrow> nat set \<Rightarrow> nat set" where
  "on_doc I buf heap D J = {p. \<exists>j \<in> J. heap ! j = Some p \<and> ptr_key I buf (Some p) = D}"

lemma on_doc_Un: "on_doc I buf heap D (A \<union> B) = on_doc I buf heap D A \<union> on_doc I buf heap D B"
  by (auto simp: on_doc_def)

lemma on_doc_insert:
  "heap ! i = Some p \<Longrightarrow> on_doc I buf heap D (insert i J) = (if ptr_key I buf (Some p) = D then insert p (on_doc I buf heap D J) else on_doc I buf heap D J)"
  by (auto simp: on_doc_def)

lemma on_doc_empty [simp]: "on_doc I buf heap D {} = {}"
  by (simp add: on_doc_def)

lemma subtree_empty: "n \<le> i \<Longrightarrow> subtree n i = {}"
  using subtree_ge by fastforce

lemma subtree_after:
  assumes "heap_inv (earlier I buf) heap n" "0 < i" "j \<in> subtree n i"
  shows "ptr_key I buf (heap ! i) \<le> ptr_key I buf (heap ! j)"
proof -
  have "ptr_key I buf (heap ! i) \<le> ptr_key I buf (heap ! j)" if "(parent ^^ k) j = i" "j < n" for k j
    using that
  proof (induction k arbitrary: j)
    case (Suc k)
    then have step: "(parent ^^ k) (parent j) = i" by (simp only: funpow_Suc_right comp_apply)
    have j: "0 < j" using Suc.prems(1) assms(2) parents_le [of "Suc k" j] by simp
    then have "parent j < n" using parent_less Suc.prems(2) order_less_trans by blast
    moreover have "ptr_key I buf (heap ! parent j) \<le> ptr_key I buf (heap ! j)" using assms(1) j Suc.prems(2) by (simp add: heap_inv_def)
    ultimately show ?case using Suc.IH [OF step] by simp
  qed simp
  then show ?thesis using assms(3) by (auto simp: subtree_def)
qed

text \<open>Two places of the heap never hold the same pointer.\<close>

lemma ptr_place: "distinct (take n heap) \<Longrightarrow> n \<le> length heap \<Longrightarrow> j < n \<Longrightarrow> k < n \<Longrightarrow> heap ! j = heap ! k \<Longrightarrow> j = k"
  using nth_eq_iff_index_eq [of "take n heap" j k] by simp

definition fresh :: "nat option list \<Rightarrow> nat set \<Rightarrow> nat list \<Rightarrow> bool" where
  "fresh heap J xs \<longleftrightarrow> (\<forall>j \<in> J. \<forall>p. heap ! j = Some p \<longrightarrow> p \<notin> set xs)"

text \<open>What is linked while walking the left subtree is not below the right child.\<close>

lemma fresh_right:
  assumes dist: "distinct (take n heap)" and len: "n \<le> length heap" and new: "fresh heap (subtree n (2 * i + 2)) xs"
    and ys: "set ys = set xs \<union> on_doc I buf heap D (subtree n (2 * i + 1))"
  shows "fresh heap (subtree n (2 * i + 2)) ys"
  unfolding fresh_def
proof (intro ballI allI impI)
  fix j p assume j: "j \<in> subtree n (2 * i + 2)" "heap ! j = Some p"
  have "heap ! k \<noteq> Some p" if "k \<in> subtree n (2 * i + 1)" for k
    using ptr_place [OF dist len, of j k] subtree_ge [OF j(1)] subtree_ge [OF that] subtree_disjoint [of j n i] j that by auto
  then show "p \<notin> set ys" unfolding ys using new j by (auto simp: fresh_def on_doc_def)
qed

text \<open>An only child is linked when it is on the document.\<close>

lemma only_child_linked:
  assumes ok: "ptrs_ok buf0 heap n" and c: "c < n" and l: "linked I buf0 D buf list xs" and new: "fresh heap {c} xs"
  shows "\<exists>list' buf' ys. rbind (heap_doc I buf heap c) (\<lambda>d1. rbind (ptr_doc I buf list) (\<lambda>d2.
        if d1 = d2 then rbind (heap_at heap c) (\<lambda>p. prepend p list buf) else Inr (list, buf))) = Inr (list', buf') \<and>
      linked I buf0 D buf' list' ys \<and> set ys = set xs \<union> on_doc I buf0 heap D {c}"
proof -
  obtain v where v: "heap ! c = Some v" "v < length buf0" using ptrs_ok_nth [OF ok c] by blast
  have docs: "heap_doc I buf heap c = Inr (ptr_key I buf0 (Some v))" "ptr_doc I buf list = Inr D" "heap_at heap c = Inr (Some v)"
    using heap_at_ok [OF ok c] v linked_doc [OF l] linked_head [OF l] by (auto simp: heap_doc_def)
  note on = on_doc_insert [of heap c v I buf0 D "{}", OF v(1)]
  show ?thesis
  proof (cases "ptr_key I buf0 (Some v) = D")
    case True
    have "v \<notin> set xs" using new v(1) by (simp add: fresh_def)
    then obtain buf' where "prepend (Some v) list buf = Inr (Some v, buf')" "linked I buf0 D buf' (Some v) (v # xs)"
      using prepend_linked [OF l v(2) _ True] by blast
    then show ?thesis using docs True on by (intro exI [of _ "Some v"] exI [of _ buf'] exI [of _ "v # xs"]) simp
  next
    case False
    then show ?thesis using docs on l by (intro exI [of _ list] exI [of _ buf] exI [of _ xs]) simp
  qed
qed

lemma top_list_to_ok:
  assumes ok: "ptrs_ok buf0 heap n" and hp: "heap_inv (earlier I buf0) heap n" and dist: "distinct (take n heap)"
    and first: "\<And>j. j < n \<Longrightarrow> D \<le> ptr_key I buf0 (heap ! j)"
  shows "0 < i \<Longrightarrow> i < n \<Longrightarrow> linked I buf0 D buf list xs \<Longrightarrow> fresh heap (subtree n i) xs \<Longrightarrow>
    \<exists>list' buf' ys. top_list_to I heap n i list buf = Inr (list', buf') \<and> linked I buf0 D buf' list' ys \<and>
      set ys = set xs \<union> on_doc I buf0 heap D (subtree n i)"
proof (induction "n - i" arbitrary: i buf list xs rule: less_induct)
  case less
  have len: "n \<le> length heap" using ok by (simp add: ptrs_ok_def)
  obtain w where w: "heap ! i = Some w" "w < length buf0" using ptrs_ok_nth [OF ok less.prems(2)] by blast
  have at: "heap_at heap i = Inr (Some w)" "ptr_doc I buf (Some w) = Inr (ptr_key I buf0 (Some w))" "ptr_doc I buf list = Inr D"
    using heap_at_ok [OF ok less.prems(2)] w linked_doc [OF less.prems(3)] linked_head [OF less.prems(3)] by auto
  show ?case
  proof (cases "ptr_key I buf0 (Some w) = D")
    case False
    then have "D < ptr_key I buf0 (heap ! j)" if "j \<in> subtree n i" for j
      using subtree_after [OF hp less.prems(1) that] first [OF less.prems(2)] w(1) by simp
    then have "on_doc I buf0 heap D (subtree n i) = {}" by (fastforce simp: on_doc_def)
    then show ?thesis
      using less.prems(3) at False by (subst top_list_to.simps) auto
  next
    case True
    let ?l = "2 * i + 1" and ?r = "2 * i + 2"
    note sub = subtree_unfold [OF less.prems(1,2)]
    have "w \<notin> set xs" using less.prems(4) w(1) by (auto simp: fresh_def sub)
    then obtain buf1 where buf1: "prepend (Some w) list buf = Inr (Some w, buf1)" "linked I buf0 D buf1 (Some w) (w # xs)"
      using prepend_linked [OF less.prems(3) w(2) _ True] by blast
    have fresh1: "fresh heap (subtree n c) (w # xs)" if "c = ?l \<or> c = ?r" for c
    proof -
      have "heap ! j \<noteq> Some w" if "j \<in> subtree n c" for j
        using ptr_place [OF dist len _ less.prems(2), of j] subtree_ge [OF that] w(1) \<open>c = ?l \<or> c = ?r\<close> by auto
      then show ?thesis using less.prems(4) that by (auto simp: fresh_def sub)
    qed
    have total: "set xs \<union> on_doc I buf0 heap D (subtree n i) =
        set (w # xs) \<union> on_doc I buf0 heap D (subtree n ?l) \<union> on_doc I buf0 heap D (subtree n ?r)"
      unfolding sub on_doc_insert [of heap i w, OF w(1)] on_doc_Un using True by auto
    consider (both) "?r < n" | (left) "?l < n" "\<not> ?r < n" | (none) "\<not> ?l < n" by linarith
    then show ?thesis
    proof cases
      case both
      then have dec: "n - ?l < n - i" "n - ?r < n - i" "0 < ?l" "0 < ?r" "?l < n" by arith+
      obtain list2 buf2 ys where y: "top_list_to I heap n ?l (Some w) buf1 = Inr (list2, buf2)" "linked I buf0 D buf2 list2 ys"
          "set ys = set (w # xs) \<union> on_doc I buf0 heap D (subtree n ?l)"
        using less.hyps [OF dec(1,3,5) buf1(2) fresh1] by auto
      have "fresh heap (subtree n ?r) ys" using fresh_right [OF dist len fresh1 y(3)] by simp
      then obtain list3 buf3 zs where "top_list_to I heap n ?r list2 buf2 = Inr (list3, buf3)" "linked I buf0 D buf3 list3 zs"
          "set zs = set ys \<union> on_doc I buf0 heap D (subtree n ?r)"
        using less.hyps [OF dec(2,4) both y(2)] by auto
      then show ?thesis
        unfolding total using y at True buf1(1) both by (subst top_list_to.simps) (auto simp: node_eqs)
    next
      case left
      have sl: "subtree n ?l = {?l}" "subtree n ?r = {}"
        using subtree_unfold [of ?l n] left subtree_empty by auto
      have "fresh heap {Suc (2 * i)} (w # xs)" using fresh1 [of ?l] sl by simp
      from only_child_linked [OF ok _ buf1(2) this] left(1)
      show ?thesis
        unfolding total sl using at True buf1(1) left by (subst top_list_to.simps) (simp add: node_eqs Let_def)
    next
      case none
      then have "set xs \<union> on_doc I buf0 heap D (subtree n i) = set (w # xs)" unfolding total using subtree_empty [of n ?l] subtree_empty [of n ?r] by simp
      then show ?thesis
        using at True buf1 none by (subst top_list_to.simps) (auto simp: node_eqs)
    qed
  qed
qed

lemma linked_start:
  assumes "p < length buf"
  shows "\<exists>buf1. prepend (Some p) None buf = Inr (Some p, buf1) \<and> linked I buf (ptr_key I buf (Some p)) buf1 (Some p) [p]"
proof -
  let ?w = "(buf ! p)\<lparr>dw_next := None\<rparr>"
  have "map (dw_next_update (\<lambda>_. None)) (buf[p := ?w]) = map (dw_next_update (\<lambda>_. None)) buf"
    using assms by (simp add: map_update) (metis list_update_id nth_map)
  then show ?thesis using assms by (simp add: prepend_def linked_def)
qed

lemma places:
  assumes "1 < n"
  shows "{..<n} = insert 0 (subtree n 1 \<union> subtree n 2)" "0 \<notin> subtree n 1" "0 \<notin> subtree n 2"
proof -
  show "{..<n} = insert 0 (subtree n 1 \<union> subtree n 2)"
  proof (intro equalityI subsetI)
    fix j assume "j \<in> {..<n}"
    then show "j \<in> insert 0 (subtree n 1 \<union> subtree n 2)" using subtree_root [of j n] by (cases "j = 0") auto
  next
    fix j assume "j \<in> insert 0 (subtree n 1 \<union> subtree n 2)"
    then show "j \<in> {..<n}" using assms by (auto dest: subtree_ge)
  qed
qed (auto dest: subtree_ge)

lemma do_top_list_linked:
  assumes q: "dq_inv I q" and n: "0 < dq_size q" and p: "dq_heap q ! 0 = Some p" "p < length (dq_buffer q)"
  shows "\<exists>list buf ys. do_top_list I q = Inr (list, q\<lparr>dq_buffer := buf\<rparr>) \<and>
    linked I (dq_buffer q) (ptr_key I (dq_buffer q) (Some p)) buf list ys \<and>
    set ys = on_doc I (dq_buffer q) (dq_heap q) (ptr_key I (dq_buffer q) (Some p)) {..<dq_size q}"
proof -
  let ?h = "dq_heap q" and ?n = "dq_size q" and ?buf = "dq_buffer q"
  let ?D = "ptr_key I ?buf (Some p)"
  have ok: "ptrs_ok ?buf ?h ?n" and dist: "distinct (take ?n ?h)" and hp: "heap_inv (earlier I ?buf) ?h ?n"
    using q by (simp_all add: dq_inv_def)
  have len: "?n \<le> length ?h" using ok by (simp add: ptrs_ok_def)
  have at: "heap_at ?h 0 = Inr (Some p)" using heap_at_ok [OF ok n] p by simp
  obtain buf1 where buf1: "prepend (Some p) None ?buf = Inr (Some p, buf1)" "linked I ?buf ?D buf1 (Some p) [p]"
    using linked_start [OF p(2)] by blast
  have first: "?D \<le> ptr_key I ?buf (?h ! j)" if "j < ?n" for j
    using disi_heap.heap_top [OF hp that] p(1) by simp
  note walk = top_list_to_ok [OF ok hp dist first]
  have other: "?h ! j \<noteq> Some p" if "0 < j" "j < ?n" for j
    using ptr_place [OF dist len that(2) n] that(1) p(1) by auto
  have new: "fresh ?h (subtree ?n c) [p]" if "0 < c" for c
    unfolding fresh_def
  proof (intro ballI allI impI)
    fix j r assume "j \<in> subtree ?n c" "?h ! j = Some r"
    then show "r \<notin> set [p]" using subtree_ge [of j ?n c] other [of j] that by auto
  qed
  consider (many) "3 \<le> ?n" | (two) "?n = 2" | (one) "?n = 1" using n by linarith
  then show ?thesis
  proof cases
    case many
    obtain list2 buf2 ys where y: "top_list_to I ?h ?n 1 (Some p) buf1 = Inr (list2, buf2)" "linked I ?buf ?D buf2 list2 ys"
        "set ys = set [p] \<union> on_doc I ?buf ?h ?D (subtree ?n 1)"
      using walk [of 1 buf1 "Some p" "[p]"] many buf1(2) new [of 1] by auto
    have "fresh ?h (subtree ?n 2) ys"
      using fresh_right [OF dist len, of 0 "[p]" ys I ?buf ?D] new [of 2] y(3) by (simp add: numeral_2_eq_2)
    then obtain list3 buf3 zs where "top_list_to I ?h ?n 2 list2 buf2 = Inr (list3, buf3)" "linked I ?buf ?D buf3 list3 zs"
        "set zs = set ys \<union> on_doc I ?buf ?h ?D (subtree ?n 2)"
      using walk [of 2 buf2 list2 ys] many y(2) by auto
    moreover have "on_doc I ?buf ?h ?D {..<?n} = set ys \<union> on_doc I ?buf ?h ?D (subtree ?n 2)"
      using places(1) [of ?n] many by (simp add: on_doc_insert [of ?h 0 p, OF p(1)] on_doc_Un y(3))
    ultimately show ?thesis
      using at buf1(1) y(1) many by (intro exI [of _ list3] exI [of _ buf3] exI [of _ zs]) (simp add: do_top_list_def Let_def)
  next
    case two
    have lt: "{..<2} = insert 0 {1 :: nat}" by auto
    have all: "on_doc I ?buf ?h ?D {..<?n} = set [p] \<union> on_doc I ?buf ?h ?D {1}"
      unfolding two lt on_doc_insert [of ?h 0 p, OF p(1)] by simp
    have "fresh ?h {1} [p]" using other [of 1] two by (auto simp: fresh_def)
    then obtain list buf ys where "rbind (heap_doc I buf1 ?h 1) (\<lambda>d1. rbind (ptr_doc I buf1 (Some p)) (\<lambda>d2.
          if d1 = d2 then rbind (heap_at ?h 1) (\<lambda>q. prepend q (Some p) buf1) else Inr (Some p, buf1))) = Inr (list, buf)"
        "linked I ?buf ?D buf list ys" "set ys = set [p] \<union> on_doc I ?buf ?h ?D {1}"
      using only_child_linked [OF ok _ buf1(2), of 1] two by auto
    then show ?thesis
      unfolding all using at buf1 two by (intro exI [of _ list] exI [of _ buf] exI [of _ ys]) (simp add: do_top_list_def Let_def)
  next
    case one
    have "on_doc I ?buf ?h ?D {..<?n} = set [p]"
      unfolding one using on_doc_insert [of ?h 0 p I ?buf ?D "{}", OF p(1)] by (simp add: lessThan_Suc)
    then show ?thesis
      using at buf1 one by (intro exI [of _ "Some p"] exI [of _ buf1] exI [of _ "[p]"]) (simp add: do_top_list_def Let_def)
  qed
qed

section \<open>Properties of the queue\<close>

text \<open>
  C3: The iterator queue. A new queue holds every child. On a queue in order, pushing a wrapper
  that is not in it adds it; popping removes and returns a wrapper whose document is the smallest;
  and after the iterator at the top has moved, to whatever document, \<open>update_top\<close> brings the queue
  back in order with the same wrappers and returns one with the smallest document. No operation
  reads outside the heap or through a null pointer.
\<close>

theorem disi_queue_operations:
  assumes "dq_inv I q"
  shows "(\<exists>q0. dq_new I children = Inr q0 \<and> dq_inv I q0 \<and> dq_members q0 = {..<length children} \<and>
        dq_buffer q0 = map dw_new children) \<and>
    (\<forall>p. p < length (dq_buffer q) \<longrightarrow> p \<notin> dq_members q \<longrightarrow> dq_size q < length (dq_heap q) \<longrightarrow>
        (\<exists>r q'. do_push I (Some p) q = Inr (r, q') \<and> dq_inv I q' \<and> dq_members q' = insert p (dq_members q))) \<and>
    (0 < dq_size q \<longrightarrow>
        (\<exists>p q'. do_pop I q = Inr (Some p, q') \<and> p \<in> dq_members q \<and> (\<forall>r \<in> dq_members q. dq_doc I q p \<le> dq_doc I q r) \<and>
          dq_inv I q' \<and> dq_members q' = dq_members q - {p} \<and> dq_buffer q' = dq_buffer q)) \<and>
    (0 < dq_size q \<longrightarrow>
        (\<exists>p q'. do_update_top I (dq_set_top w q) = Inr (Some p, q') \<and> dq_inv I q' \<and> dq_members q' = dq_members q \<and>
          p \<in> dq_members q \<and> (\<forall>r \<in> dq_members q. dq_doc I q' p \<le> dq_doc I q' r)))"
proof (intro conjI allI impI)
  let ?q = "\<lparr>dq_heap = replicate (length children) None, dq_size = 0, dq_buffer = map dw_new children\<rparr>"
  have "dq_inv I ?q" "dq_members ?q = {}" by (simp_all add: dq_inv_def ptrs_ok_def heap_inv_def dq_members_def)
  then show "\<exists>q0. dq_new I children = Inr q0 \<and> dq_inv I q0 \<and> dq_members q0 = {..<length children} \<and> dq_buffer q0 = map dw_new children"
    using push_children_ok [of I ?q "[0..<length children]"] by (auto simp: dq_new_def atLeast0LessThan)
next
  fix p assume "p < length (dq_buffer q)" "p \<notin> dq_members q" "dq_size q < length (dq_heap q)"
  from do_push_ok [OF assms this] show "\<exists>r q'. do_push I (Some p) q = Inr (r, q') \<and> dq_inv I q' \<and> dq_members q' = insert p (dq_members q)"
    by blast
next
  assume "0 < dq_size q"
  from do_pop_ok [OF assms this] show "\<exists>p q'. do_pop I q = Inr (Some p, q') \<and> p \<in> dq_members q \<and>
      (\<forall>r \<in> dq_members q. dq_doc I q p \<le> dq_doc I q r) \<and> dq_inv I q' \<and> dq_members q' = dq_members q - {p} \<and> dq_buffer q' = dq_buffer q"
    by blast
next
  assume "0 < dq_size q"
  from do_update_top_ok [OF assms this, of w] show "\<exists>p q'. do_update_top I (dq_set_top w q) = Inr (Some p, q') \<and> dq_inv I q' \<and>
      dq_members q' = dq_members q \<and> p \<in> dq_members q \<and> (\<forall>r \<in> dq_members q. dq_doc I q' p \<le> dq_doc I q' r)"
    by blast
qed

text \<open>Three iterators, on documents 5, 3 and 3.\<close>

definition example_queue :: "int disi_queue" where
  "example_queue = \<lparr>dq_heap = [Some 1, Some 0, Some 2], dq_size = 3, dq_buffer = map dw_new [5, 3, 3]\<rparr>"

lemma example_queue_inv: "dq_inv empty_iter example_queue" "dq_members example_queue = {0, 1, 2}"
  by (auto simp: dq_inv_def example_queue_def ptrs_ok_def heap_inv_def less_Suc_eq parent_def ptr_key_def dw_doc_id_def
      dw_new_def empty_iter_def numeral_3_eq_3 dq_members_def)

theorem disi_queue_operations_witness:
  "\<exists>p q'. do_pop empty_iter example_queue = Inr (Some p, q') \<and> p \<in> {1, 2} \<and> dq_inv empty_iter q'"
proof -
  have n: "0 < dq_size example_queue" by (simp add: example_queue_def)
  note ops = disi_queue_operations [OF example_queue_inv(1), THEN conjunct2, THEN conjunct2, THEN conjunct1, rule_format, OF n]
  from ops obtain p q' where
    p: "do_pop empty_iter example_queue = Inr (Some p, q')" "p \<in> {0, 1, 2}" "dq_inv empty_iter q'"
      "\<forall>r \<in> {0, 1, 2}. dq_doc empty_iter example_queue p \<le> dq_doc empty_iter example_queue r"
    unfolding example_queue_inv(2) by (elim exE conjE)
  have "dq_doc empty_iter example_queue 0 = 5" "dq_doc empty_iter example_queue 1 = 3"
    by (simp_all add: dq_doc_def example_queue_def dw_doc_id_def dw_new_def empty_iter_def)
  then have "p \<noteq> 0" using bspec [OF p(4), of 1] by (intro notI) simp
  then show ?thesis using p by blast
qed

text \<open>
  C17: \<open>top_list\<close> of a non-empty queue in order links exactly the wrappers on the current document:
  following the \<open>next\<close> pointers from the wrapper it returns visits, each once, all the wrappers
  whose document is the smallest in the queue, and no others. Apart from these pointers nothing
  changes.
\<close>

theorem disi_top_list:
  assumes "dq_inv I q" "0 < dq_size q"
  shows "\<exists>list buf ys. do_top_list I q = Inr (list, q\<lparr>dq_buffer := buf\<rparr>) \<and> chain buf list ys \<and> distinct ys \<and>
    set ys = {p \<in> dq_members q. \<forall>r \<in> dq_members q. dq_doc I q p \<le> dq_doc I q r} \<and>
    map (dw_next_update (\<lambda>_. None)) buf = map (dw_next_update (\<lambda>_. None)) (dq_buffer q)"
proof -
  let ?h = "dq_heap q" and ?n = "dq_size q" and ?buf = "dq_buffer q"
  obtain p where p: "?h ! 0 = Some p" "p \<in> dq_members q" "p < length ?buf" "\<forall>r \<in> dq_members q. dq_doc I q p \<le> dq_doc I q r"
    by (rule dq_top [OF assms])
  obtain list buf ys where y: "do_top_list I q = Inr (list, q\<lparr>dq_buffer := buf\<rparr>)"
      "linked I ?buf (ptr_key I ?buf (Some p)) buf list ys" "set ys = on_doc I ?buf ?h (ptr_key I ?buf (Some p)) {..<?n}"
    using do_top_list_linked [OF assms p(1,3)] by blast
  have "?n \<le> length ?h" using assms(1) by (simp add: dq_inv_def ptrs_ok_def)
  then have mem: "r \<in> dq_members q \<longleftrightarrow> (\<exists>j<?n. ?h ! j = Some r)" for r
    by (auto simp: dq_members_def in_set_conv_nth)
  have "set ys = {r \<in> dq_members q. dq_doc I q r = dq_doc I q p}"
    unfolding y(3) mem by (auto simp: on_doc_def ptr_key_def dq_doc_def)
  also have "\<dots> = {r \<in> dq_members q. \<forall>s \<in> dq_members q. dq_doc I q r \<le> dq_doc I q s}"
    using p(2,4) by (auto intro: antisym)
  finally show ?thesis using y(1,2) by (auto simp: linked_def)
qed

theorem disi_top_list_witness:
  "\<exists>list buf ys. do_top_list empty_iter example_queue = Inr (list, example_queue\<lparr>dq_buffer := buf\<rparr>) \<and> chain buf list ys \<and>
    distinct ys \<and> set ys = {1, 2}"
proof -
  have n: "0 < dq_size example_queue" by (simp add: example_queue_def)
  have "dq_doc empty_iter example_queue 0 = 5" "dq_doc empty_iter example_queue 1 = 3" "dq_doc empty_iter example_queue 2 = 3"
    by (simp_all add: dq_doc_def example_queue_def dw_doc_id_def dw_new_def empty_iter_def)
  then have "{p \<in> {0, 1, 2}. \<forall>r \<in> {0, 1, 2}. dq_doc empty_iter example_queue p \<le> dq_doc empty_iter example_queue r} = {1, 2}"
    by auto
  note members = this
  from disi_top_list [OF example_queue_inv(1) n] show ?thesis unfolding example_queue_inv(2) members by blast
qed

end
