(* ===== verification/Roaring.thy ===== *)
theory Roaring
  imports Doc_Id_Set
begin

text \<open>
  The document id set of the query cache, \<open>RoaringDocIdSet\<close> of \<^verbatim>\<open>search/cache/query_cache.rs\<close>:
  its builder, which encodes each block of 65536 ids as a 16-bit array, a bit set or the
  complement of a 16-bit array, and its iterator; and the enum of the cached sets. Assertions
  and overflow checks are those of a debug build.
\<close>

definition BLOCK_SIZE :: nat where
  "BLOCK_SIZE = 65536"

definition MAX_ARRAY_LENGTH :: nat where
  "MAX_ARRAY_LENGTH = 4096"

text \<open>\<open>unsigned_shift(16)\<close> of an \<open>i32\<close>, and a block's document from its offset.\<close>

definition block_of :: "int \<Rightarrow> int" where
  "block_of i = (i mod 4294967296) div 65536"

definition block_doc :: "int \<Rightarrow> int \<Rightarrow> int" where
  "block_doc block sub = as_i32 (block * 65536) OR sub"

record roaring_set =
  rs_sets :: "doc_id_set_enum option list"
  rs_cardinality :: nat

definition roaring_set_new :: "doc_id_set_enum option list \<Rightarrow> nat \<Rightarrow> roaring_set" where
  "roaring_set_new sets n = \<lparr>rs_sets = sets, rs_cardinality = n\<rparr>"

section \<open>The builder\<close>

record roaring_builder =
  rb_sets :: "doc_id_set_enum option list"
  rb_cardinality :: nat
  rb_max_doc :: int
  rb_last_doc_id :: int
  rb_block :: int
  rb_block_cardinality :: nat
  rb_buffer :: "u16 list"
  rb_dense :: "fixed_bit_set option"

definition rb_new :: "int \<Rightarrow> roaring_builder result" where
  "rb_new max_doc =
     (if max_doc + 65536 > 2147483647 then Inl (Panic ''attempt to add with overflow'')
      else Inr \<lparr>rb_sets = replicate (nat (block_of (max_doc + 65536 - 1))) None, rb_cardinality = 0, rb_max_doc = max_doc,
           rb_last_doc_id = - 1, rb_block = - 1, rb_block_cardinality = 0,
           rb_buffer = replicate MAX_ARRAY_LENGTH 0, rb_dense = None\<rparr>)"

definition put_set :: "int \<Rightarrow> doc_id_set_enum \<Rightarrow> roaring_builder \<Rightarrow> roaring_builder result" where
  "put_set block d b =
     (if as_usize block < length (rb_sets b) then Inr (b\<lparr>rb_sets := (rb_sets b)[as_usize block := Some d]\<rparr>)
      else Inl (Panic ''index out of bounds''))"

text \<open>The loop that collects the ids to exclude, and the assertion after it.\<close>

fun exclude_loop :: "fixed_bit_set \<Rightarrow> nat \<Rightarrow> int \<Rightarrow> (int \<times> u16 list) result" where
  "exclude_loop bits 0 doc = Inr (doc, [])"
| "exclude_loop bits (Suc n) doc =
     rbind (inc_i32 doc) (\<lambda>t.
     rbind (fbs_next_set_bit (as_usize t) bits) (\<lambda>d.
       if d = NO_MORE_DOCS then Inl (Panic ''exclude_doc != NO_MORE_DOCS'')
       else rbind (exclude_loop bits n d) (\<lambda>(e, ds). Inr (e, word_of_int d # ds))))"

definition exclude_done :: "fixed_bit_set \<Rightarrow> int \<Rightarrow> unit result" where
  "exclude_done bits doc =
     (if 2 ^ 64 \<le> as_usize doc + 1 then Inl (Panic ''attempt to add with overflow'')
      else if as_usize doc + 1 = fbs_len bits then Inr ()
      else rbind (inc_i32 doc) (\<lambda>t.
           rbind (fbs_next_set_bit (as_usize t) bits) (\<lambda>d.
             if d = NO_MORE_DOCS then Inr () else Inl (Panic ''assertion failed''))))"

definition encode_block :: "roaring_builder \<Rightarrow> roaring_builder result" where
  "encode_block b =
     (let card = rb_block_cardinality b
      in if card \<le> MAX_ARRAY_LENGTH
         then if rb_dense b \<noteq> None then Inl (Panic ''dense_buffer.is_none()'')
              else if 0 < card
              then if \<not> card \<le> length (rb_buffer b) then Inl (Panic ''slice index out of bounds'')
                   else put_set (rb_block b) (ShortArray (short_array_set_new (take card (rb_buffer b)) card)) b
              else Inr b
         else case rb_dense b of
           None \<Rightarrow> Inl (Panic ''dense_buffer.is_some()'')
         | Some dense \<Rightarrow>
             if fbs_cardinality dense \<noteq> card then Inl (Panic ''dense_buffer.cardinality() == current_block_cardinality'')
             else if fbs_len dense = BLOCK_SIZE \<and> BLOCK_SIZE - card < MAX_ARRAY_LENGTH
             then rbind (fbs_flip 0 (fbs_num_bits dense) dense) (\<lambda>flipped.
                  rbind (exclude_loop flipped (BLOCK_SIZE - card) (- 1)) (\<lambda>(e, docs).
                  rbind (exclude_done flipped e) (\<lambda>_.
                    put_set (rb_block b)
                      (NotDocId (not_doc_id_set_new (short_array_set_new docs (length docs)) (int BLOCK_SIZE))) b)))
             else put_set (rb_block b) (BitDocId (bit_doc_id_set_new dense card)) b)"

definition rb_flush :: "roaring_builder \<Rightarrow> roaring_builder result" where
  "rb_flush b =
     (if \<not> rb_block_cardinality b \<le> BLOCK_SIZE then Inl (Panic ''current_block_cardinality <= BLOCK_SIZE'')
      else rbind (encode_block b) (\<lambda>b1.
           Inr (b1\<lparr>rb_cardinality := rb_cardinality b1 + rb_block_cardinality b1, rb_dense := None, rb_block_cardinality := 0\<rparr>)))"

fun set_all :: "u16 list \<Rightarrow> fixed_bit_set \<Rightarrow> fixed_bit_set result" where
  "set_all [] s = Inr s"
| "set_all (d # ds) s = rbind (fbs_set (unat d) s) (set_all ds)"

text \<open>Putting one document in the current block: in the buffer, or in the bit set that replaces it.\<close>

definition put_doc :: "int \<Rightarrow> int \<Rightarrow> roaring_builder \<Rightarrow> roaring_builder result" where
  "put_doc block doc b =
     (if rb_block_cardinality b < MAX_ARRAY_LENGTH
      then if rb_block_cardinality b < length (rb_buffer b)
           then Inr (b\<lparr>rb_buffer := (rb_buffer b)[rb_block_cardinality b := word_of_int doc]\<rparr>)
           else Inl (Panic ''write out of bounds'')
      else rbind (case rb_dense b of
                    Some dense \<Rightarrow> Inr dense
                  | None \<Rightarrow>
                      let num_bits = min 65536 (rb_max_doc b - as_i32 (block * 65536))
                      in rbind (fbs_new (as_usize num_bits)) (set_all (rb_buffer b)))
             (\<lambda>dense. rbind (fbs_set (as_usize (doc mod 65536)) dense) (\<lambda>dense'. Inr (b\<lparr>rb_dense := Some dense'\<rparr>))))"

definition rb_add_doc :: "int \<Rightarrow> roaring_builder \<Rightarrow> roaring_builder result" where
  "rb_add_doc doc b =
     (if doc < rb_last_doc_id b then Inl (RuntimeError ''Doc ids must be added in-order'')
      else let block = block_of doc
           in rbind (if block \<noteq> rb_block b then rbind (rb_flush b) (\<lambda>b1. Inr (b1\<lparr>rb_block := block\<rparr>)) else Inr b) (\<lambda>b1.
              rbind (put_doc block doc b1) (\<lambda>b2.
                Inr (b2\<lparr>rb_last_doc_id := doc, rb_block_cardinality := rb_block_cardinality b2 + 1\<rparr>))))"

definition rb_build :: "roaring_builder \<Rightarrow> roaring_set result" where
  "rb_build b = rbind (rb_flush b) (\<lambda>b1. Inr (roaring_set_new (rb_sets b1) (rb_cardinality b1)))"

section \<open>The iterator\<close>

record roaring_iterator =
  ri_sets :: "doc_id_set_enum option list"
  ri_doc :: int
  ri_block :: int
  ri_cardinality :: nat
  ri_sub :: "doc_iter_enum option"

definition ri_new :: "doc_id_set_enum option list \<Rightarrow> nat \<Rightarrow> roaring_iterator" where
  "ri_new sets n = \<lparr>ri_sets = sets, ri_doc = - 1, ri_block = - 1, ri_cardinality = n, ri_sub = Some doc_iter_enum_default\<rparr>"

definition roaring_set_iterator :: "roaring_set \<Rightarrow> roaring_iterator option result" where
  "roaring_set_iterator r =
     (if rs_cardinality r = 0 then Inr None else Inr (Some (ri_new (rs_sets r) (rs_cardinality r))))"

text \<open>A call on the iterator of the block, and the document it stands for.\<close>

definition sub_call ::
  "(doc_iter_enum \<Rightarrow> (int \<times> doc_iter_enum) result) \<Rightarrow> roaring_iterator \<Rightarrow> (int \<times> roaring_iterator) result" where
  "sub_call f s =
     (case ri_sub s of
        None \<Rightarrow> Inl (Panic ''unwrap on None'')
      | Some e \<Rightarrow> rbind (f e) (\<lambda>(d, e'). Inr (d, s\<lparr>ri_sub := Some e'\<rparr>)))"

definition at_block_doc :: "int \<Rightarrow> roaring_iterator \<Rightarrow> (int \<times> roaring_iterator) result" where
  "at_block_doc sub s = (let d = block_doc (ri_block s) sub in Inr (d, s\<lparr>ri_doc := d\<rparr>))"

function first_doc_from_next_block :: "roaring_iterator \<Rightarrow> (int \<times> roaring_iterator) result" where
  "first_doc_from_next_block s0 =
     (if 2147483647 \<le> ri_block s0 then Inl (Panic ''attempt to add with overflow'')
      else let s = s0\<lparr>ri_block := ri_block s0 + 1\<rparr>
           in if length (ri_sets s) \<le> as_usize (ri_block s) then Inr (NO_MORE_DOCS, s\<lparr>ri_sub := None, ri_doc := NO_MORE_DOCS\<rparr>)
              else case ri_sets s ! as_usize (ri_block s) of
                None \<Rightarrow> first_doc_from_next_block s
              | Some d \<Rightarrow>
                  rbind (doc_id_set_enum_iterator d) (\<lambda>it.
                  rbind (sub_call doc_iter_enum_next (s\<lparr>ri_sub := it\<rparr>)) (\<lambda>(sub_next, s1).
                    if sub_next = NO_MORE_DOCS then Inl (Panic ''sub_next != NO_MORE_DOCS'') else at_block_doc sub_next s1)))"
  by pat_completeness auto
termination
proof (relation "measure (\<lambda>s. nat (int (length (ri_sets s)) - ri_block s))")
  fix s0 s :: roaring_iterator
  assume a: "\<not> 2147483647 \<le> ri_block s0" "s = s0\<lparr>ri_block := ri_block s0 + 1\<rparr>" "\<not> length (ri_sets s) \<le> as_usize (ri_block s)"
  have "ri_block s0 + 1 \<le> int (length (ri_sets s0))"
  proof (cases "0 \<le> ri_block s0 + 1")
    case True
    then show ?thesis using a by (simp add: as_usize_nonneg)
  qed simp
  then show "(s, s0) \<in> measure (\<lambda>s. nat (int (length (ri_sets s)) - ri_block s))" using a(2) by simp
qed simp

declare first_doc_from_next_block.simps [simp del]

definition ri_next :: "roaring_iterator \<Rightarrow> (int \<times> roaring_iterator) result" where
  "ri_next s =
     rbind (sub_call doc_iter_enum_next s) (\<lambda>(sub_next, s1).
       if sub_next = NO_MORE_DOCS then first_doc_from_next_block s1 else at_block_doc sub_next s1)"

text \<open>\<open>advance\<close> after the iterator of the target's block is in place.\<close>

definition advance_in_block :: "int \<Rightarrow> roaring_iterator \<Rightarrow> (int \<times> roaring_iterator) result" where
  "advance_in_block target s =
     rbind (sub_call (doc_iter_enum_advance (target mod 65536)) s) (\<lambda>(sub_next, s1).
       if sub_next = NO_MORE_DOCS then first_doc_from_next_block s1 else at_block_doc sub_next s1)"

definition ri_advance :: "int \<Rightarrow> roaring_iterator \<Rightarrow> (int \<times> roaring_iterator) result" where
  "ri_advance target s0 =
     (let target_block = block_of target
      in if target_block = ri_block s0 then advance_in_block target s0
         else let s = s0\<lparr>ri_block := target_block\<rparr>
              in if length (ri_sets s) < as_usize target_block then Inr (NO_MORE_DOCS, s\<lparr>ri_sub := None, ri_doc := NO_MORE_DOCS\<rparr>)
                 else if length (ri_sets s) = as_usize target_block then Inl (Panic ''index out of bounds'')
                 else case ri_sets s ! as_usize target_block of
                   None \<Rightarrow> first_doc_from_next_block s
                 | Some d \<Rightarrow> rbind (doc_id_set_enum_iterator d) (\<lambda>it. advance_in_block target (s\<lparr>ri_sub := it\<rparr>)))"

definition roaring_iter :: "roaring_iterator doc_iterator" where
  "roaring_iter = one_phase ri_doc ri_next ri_advance ri_cardinality"

section \<open>The enum of cached sets\<close>

datatype cache_set = CacheBit "fixed_bit_set bit_doc_id_set" | CacheRoaring roaring_set

datatype cache_iter = CacheBitIter "fixed_bit_set bit_set_doc" | CacheRoaringIter roaring_iterator

definition cache_set_iterator :: "cache_set \<Rightarrow> cache_iter option result" where
  "cache_set_iterator c =
     (case c of
        CacheBit i \<Rightarrow> rbind (bit_doc_id_set_iterator fbs_len i) (\<lambda>r. Inr (map_option CacheBitIter r))
      | CacheRoaring i \<Rightarrow> rbind (roaring_set_iterator i) (\<lambda>r. Inr (map_option CacheRoaringIter r)))"

definition cache_dispatch ::
  "(fixed_bit_set bit_set_doc \<Rightarrow> ('a \<times> fixed_bit_set bit_set_doc) result) \<Rightarrow>
   (roaring_iterator \<Rightarrow> ('a \<times> roaring_iterator) result) \<Rightarrow> cache_iter \<Rightarrow> ('a \<times> cache_iter) result" where
  "cache_dispatch f g c =
     (case c of
        CacheBitIter i \<Rightarrow> rbind (f i) (\<lambda>(x, s). Inr (x, CacheBitIter s))
      | CacheRoaringIter i \<Rightarrow> rbind (g i) (\<lambda>(x, s). Inr (x, CacheRoaringIter s)))"

definition cache_iter_doc_id :: "cache_iter \<Rightarrow> int" where
  "cache_iter_doc_id c =
     (case c of CacheBitIter i \<Rightarrow> doc_id fbs_doc_iter i | CacheRoaringIter i \<Rightarrow> doc_id roaring_iter i)"

definition cache_iter_cost :: "cache_iter \<Rightarrow> nat" where
  "cache_iter_cost c =
     (case c of CacheBitIter i \<Rightarrow> cost fbs_doc_iter i | CacheRoaringIter i \<Rightarrow> cost roaring_iter i)"

definition cache_iter_next :: "cache_iter \<Rightarrow> (int \<times> cache_iter) result" where
  "cache_iter_next = cache_dispatch (next_doc fbs_doc_iter) (next_doc roaring_iter)"

definition cache_iter_advance :: "int \<Rightarrow> cache_iter \<Rightarrow> (int \<times> cache_iter) result" where
  "cache_iter_advance t = cache_dispatch (advance fbs_doc_iter t) (advance roaring_iter t)"

definition cache_iter_matches :: "cache_iter \<Rightarrow> (bool \<times> cache_iter) result" where
  "cache_iter_matches = cache_dispatch (matches fbs_doc_iter) (matches roaring_iter)"

definition cache_iter_approximate_next :: "cache_iter \<Rightarrow> (int \<times> cache_iter) result" where
  "cache_iter_approximate_next = cache_dispatch (approximate_next fbs_doc_iter) (approximate_next roaring_iter)"

definition cache_iter_approximate_advance :: "int \<Rightarrow> cache_iter \<Rightarrow> (int \<times> cache_iter) result" where
  "cache_iter_approximate_advance t =
     cache_dispatch (approximate_advance fbs_doc_iter t) (approximate_advance roaring_iter t)"

definition cache_iter_iter :: "cache_iter doc_iterator" where
  "cache_iter_iter =
     \<lparr>doc_id = cache_iter_doc_id, next_doc = cache_iter_next, advance = cache_iter_advance, cost = cache_iter_cost,
      matches = cache_iter_matches, support_two_phase = (\<lambda>e. False),
      approximate_next = cache_iter_approximate_next, approximate_advance = cache_iter_approximate_advance\<rparr>"

section \<open>The documents of the blocks\<close>

definition block_docs :: "doc_id_set_enum option list \<Rightarrow> int \<Rightarrow> int set" where
  "block_docs sets b =
     (if 0 \<le> b \<and> nat b < length sets then (case sets ! nat b of None \<Rightarrow> {} | Some d \<Rightarrow> doc_id_set_docs d) else {})"

definition roaring_docs :: "doc_id_set_enum option list \<Rightarrow> int set" where
  "roaring_docs sets = {x. 0 \<le> x \<and> x mod 65536 \<in> block_docs sets (x div 65536)}"

definition sets_ok :: "doc_id_set_enum option list \<Rightarrow> bool" where
  "sets_ok sets \<longleftrightarrow> length sets \<le> 32768 \<and> doc_set (roaring_docs sets) \<and>
     (\<forall>d. Some d \<in> set sets \<longrightarrow> doc_id_set_ok d \<and> doc_id_set_docs d \<subseteq> {0..<65536} \<and> doc_id_set_docs d \<noteq> {})"

lemma block_docs_range: "sets_ok sets \<Longrightarrow> block_docs sets b \<subseteq> {0..<65536}"
proof -
  assume s: "sets_ok sets"
  have "block_docs sets b = {} \<or> (\<exists>d. Some d \<in> set sets \<and> block_docs sets b = doc_id_set_docs d)"
  proof (cases "0 \<le> b \<and> nat b < length sets")
    case True
    then have mem: "sets ! nat b \<in> set sets" by simp
    show ?thesis
    proof (cases "sets ! nat b")
      case (Some d)
      then show ?thesis using True mem by (auto simp: block_docs_def)
    qed (use True in \<open>simp add: block_docs_def\<close>)
  qed (auto simp: block_docs_def)
  then show ?thesis using s unfolding sets_ok_def by auto
qed

lemma block_docs_set: "sets_ok sets \<Longrightarrow> doc_set (block_docs sets b)"
  using block_docs_range [of sets b] by auto

lemma block_div_mod: "0 \<le> o' \<Longrightarrow> o' < 65536 \<Longrightarrow> (65536 * b + o') div 65536 = b" "0 \<le> o' \<Longrightarrow> o' < 65536 \<Longrightarrow> (65536 * b + o') mod 65536 = o'"
  for b o' :: int
  by (simp_all add: div_add1_eq)

lemma roaring_docs_mem: "0 \<le> b \<Longrightarrow> 0 \<le> o' \<Longrightarrow> o' < 65536 \<Longrightarrow> 65536 * b + o' \<in> roaring_docs sets \<longleftrightarrow> o' \<in> block_docs sets b"
  by (simp add: roaring_docs_def block_div_mod)

lemma block_split: "x = 65536 * (x div 65536) + x mod 65536" "0 \<le> x mod 65536" "x mod 65536 < 65536" for x :: int
  by simp_all

lemma split_order:
  fixes b o' x q r :: int
  assumes "x = 65536 * q + r" "0 \<le> r" "r < 65536"
  shows "b < q \<Longrightarrow> 65536 * (b + 1) \<le> x" "65536 * b + o' \<le> x \<Longrightarrow> 0 \<le> o' \<Longrightarrow> b < q \<or> q = b \<and> o' \<le> r"
    "q < b \<Longrightarrow> x < 65536 * b"
  using assms by auto

lemmas block_order = split_order [OF block_split]

text \<open>The first document from an offset of a block on: in the block, or from the next block on.\<close>

lemma roaring_first_ge:
  assumes s: "sets_ok sets" and b: "0 \<le> b" "0 \<le> o'" "o' \<le> 65536"
  shows "first_ge (roaring_docs sets) (65536 * b + o') =
    (let d = first_ge (block_docs sets b) o' in
     if d = NO_MORE_DOCS then first_ge (roaring_docs sets) (65536 * (b + 1)) else 65536 * b + d)"
proof -
  let ?R = "roaring_docs sets" and ?B = "block_docs sets b"
  have R: "doc_set ?R" using s by (simp add: sets_ok_def)
  note B = block_docs_set [OF s, of b]
  note later = block_order(2) [OF _ b(2)]
  show ?thesis
  proof (rule first_ge_cases [OF B, of o'])
    let ?d = "first_ge ?B o'"
    assume d: "?d \<in> ?B" "o' \<le> ?d"
    then have r: "0 \<le> ?d" "?d < 65536" using block_docs_range [OF s, of b] by auto
    have "first_ge ?R (65536 * b + o') = 65536 * b + ?d"
    proof (rule first_ge_eqI [OF R])
      show "65536 * b + ?d \<in> ?R \<or> 65536 * b + ?d = NO_MORE_DOCS" using roaring_docs_mem [OF b(1) r] d by simp
      fix x assume x: "x \<in> ?R" "65536 * b + o' \<le> x"
      from later [OF x(2)] show "65536 * b + ?d \<le> x"
      proof
        assume "b < x div 65536"
        then show ?thesis using r block_order(1) [of b x] by simp
      next
        assume "x div 65536 = b \<and> o' \<le> x mod 65536"
        then have "?d \<le> x mod 65536" "x = 65536 * b + x mod 65536"
          using x(1) first_ge_le [OF B, of "x mod 65536" o'] block_split(1) [of x] by (auto simp: roaring_docs_def)
        then show ?thesis by linarith
      qed
    qed (use d in simp)
    then show ?thesis using r by simp
  next
    assume d: "first_ge ?B o' = NO_MORE_DOCS" "\<And>d. d \<in> ?B \<Longrightarrow> d < o'"
    have "65536 * (b + 1) \<le> x" if "x \<in> ?R" "65536 * b + o' \<le> x" for x
    proof -
      have "b < x div 65536" using later [OF that(2)] d(2) [of "x mod 65536"] that(1) by (auto simp: roaring_docs_def)
      then show ?thesis by (rule block_order(1))
    qed
    then have "{x \<in> ?R. 65536 * b + o' \<le> x} = {x \<in> ?R. 65536 * (b + 1) \<le> x}" using b(3) by force
    then show ?thesis using d(1) by (simp add: first_ge_def)
  qed
qed

lemma roaring_past_end:
  assumes "sets_ok sets" "int (length sets) \<le> b"
  shows "first_ge (roaring_docs sets) (65536 * b) = NO_MORE_DOCS"
proof -
  have "x < 65536 * b" if x: "x \<in> roaring_docs sets" for x
  proof -
    have "x div 65536 < b" using x assms(2) by (auto simp: roaring_docs_def block_docs_def split: if_splits)
    then show ?thesis by (rule block_order(3))
  qed
  then have "{x \<in> roaring_docs sets. 65536 * b \<le> x} = {}" by force
  then show ?thesis by (simp only: first_ge_def Min_singleton)
qed

lemma block_doc_eq:
  assumes "0 \<le> b" "b < 32768" "0 \<le> d" "d < 65536"
  shows "block_doc b d = 65536 * b + d"
proof -
  have "b * 65536 OR d = push_bit 16 b OR take_bit 16 d"
    using assms by (simp add: push_bit_eq_mult take_bit_int_eq_self)
  also have "\<dots> = take_bit 16 d + push_bit 16 b"
    using concat_bit_eq [of 16 d b] by (simp add: concat_bit_def or.commute)
  also have "\<dots> = 65536 * b + d" using assms by (simp add: push_bit_eq_mult take_bit_int_eq_self)
  finally show ?thesis using assms by (simp add: block_doc_def as_i32_id)
qed

lemma block_of_eq: "0 \<le> t \<Longrightarrow> t \<le> NO_MORE_DOCS \<Longrightarrow> block_of t = t div 65536"
  by (simp add: block_of_def)

section \<open>The iterator visits the documents of the blocks\<close>

definition ri_inv :: "doc_id_set_enum option list \<Rightarrow> roaring_iterator \<Rightarrow> bool" where
  "ri_inv sets s \<longleftrightarrow> ri_sets s = sets \<and> sets_ok sets \<and>
     (ri_doc s = NO_MORE_DOCS \<or>
      ri_doc s = - 1 \<and> ri_block s = - 1 \<and> ri_sub s = Some doc_iter_enum_default \<or>
      ri_doc s \<in> roaring_docs sets \<and> ri_block s = ri_doc s div 65536 \<and>
        (\<exists>e. ri_sub s = Some e \<and> doc_iter_enum_inv e \<and> doc_iter_enum_docs e = block_docs sets (ri_block s) \<and>
             doc_iter_enum_pos e = ri_doc s mod 65536))"

abbreviation roaring_moves :: "doc_id_set_enum option list \<Rightarrow> roaring_iterator \<Rightarrow> (int \<times> roaring_iterator) result \<Rightarrow> int \<Rightarrow> bool" where
  "roaring_moves sets \<equiv> moves ri_doc (\<lambda>s. roaring_docs (ri_sets s)) (ri_inv sets)"

lemma block_of_sets:
  assumes "sets_ok sets" "0 \<le> b" "block_docs sets b \<noteq> {}"
  shows "b < 32768" "nat b < length sets"
  using assms by (auto simp: block_docs_def sets_ok_def split: if_splits)

text \<open>Landing on offset \<open>d\<close> of the current block.\<close>

lemma at_block_doc_moves:
  assumes "sets_ok sets" "ri_sets s = sets" "ri_sub s = Some e" "doc_iter_enum_inv e" "doc_iter_enum_docs e = block_docs sets (ri_block s)"
    "doc_iter_enum_pos e = d" "d \<in> block_docs sets (ri_block s)" "0 \<le> ri_block s" "ri_sets s0 = sets"
  shows "roaring_moves sets s0 (at_block_doc d s) (65536 * ri_block s + d)"
proof -
  have d: "0 \<le> d" "d < 65536" using block_docs_range [OF assms(1), of "ri_block s"] assms(7) by auto
  have b: "ri_block s < 32768" using block_of_sets [OF assms(1,8)] assms(7) by auto
  let ?x = "65536 * ri_block s + d"
  have eq: "block_doc (ri_block s) d = ?x" using block_doc_eq [OF assms(8) b d] .
  have "?x \<in> roaring_docs sets" using roaring_docs_mem [OF assms(8) d] assms(7) by simp
  then have "ri_inv sets (s\<lparr>ri_doc := ?x\<rparr>)"
    using assms d by (simp add: ri_inv_def block_div_mod)
  then show ?thesis using eq assms by (simp add: at_block_doc_def moves_def Let_def)
qed

lemma enum_next:
  assumes "doc_iter_enum_inv e" "doc_iter_enum_pos e < NO_MORE_DOCS"
  obtains e' where "doc_iter_enum_next e = Inr (first_ge (doc_iter_enum_docs e) (doc_iter_enum_pos e + 1), e')" "doc_iter_enum_inv e'"
    "doc_iter_enum_docs e' = doc_iter_enum_docs e" "doc_iter_enum_pos e' = first_ge (doc_iter_enum_docs e) (doc_iter_enum_pos e + 1)"
  using doc_iter_enum_next_moves [OF assms] by (auto elim: movesE)

lemma first_doc_from_next_block_moves:
  assumes "sets_ok sets" "ri_sets s = sets" "- 1 \<le> ri_block s" "ri_block s \<le> 32768" "ri_sets s0 = sets"
  shows "roaring_moves sets s0 (first_doc_from_next_block s) (first_ge (roaring_docs sets) (65536 * (ri_block s + 1)))"
  using assms(2-4)
proof (induction "nat (int (length sets) - ri_block s)" arbitrary: s rule: less_induct)
  case less
  let ?b = "ri_block s + 1"
  let ?s = "s\<lparr>ri_block := ?b\<rparr>"
  have u: "as_usize ?b = nat ?b" using less.prems by (intro as_usize_nonneg) auto
  show ?case
  proof (cases "length sets \<le> nat ?b")
    case True
    have "first_doc_from_next_block s = Inr (NO_MORE_DOCS, ?s\<lparr>ri_sub := None, ri_doc := NO_MORE_DOCS\<rparr>)"
      using True less.prems u by (subst first_doc_from_next_block.simps) (simp add: Let_def)
    moreover have "first_ge (roaring_docs sets) (65536 * ?b) = NO_MORE_DOCS"
      using True less.prems by (intro roaring_past_end [OF assms(1)]) simp
    ultimately show ?thesis using assms(1,5) less.prems by (simp add: moves_def ri_inv_def)
  next
    case False
    then have lt: "nat ?b < length sets" "?b < 32768" using assms(1) less.prems by (auto simp: sets_ok_def)
    have skip: "first_ge (roaring_docs sets) (65536 * ?b) =
        (let d = first_ge (block_docs sets ?b) 0 in
         if d = NO_MORE_DOCS then first_ge (roaring_docs sets) (65536 * (?b + 1)) else 65536 * ?b + d)"
      using roaring_first_ge [OF assms(1), of ?b 0] less.prems by simp
    show ?thesis
    proof (cases "sets ! nat ?b")
      case None
      then have "block_docs sets ?b = {}" using lt by (simp add: block_docs_def)
      then have "first_ge (roaring_docs sets) (65536 * ?b) = first_ge (roaring_docs sets) (65536 * (?b + 1))"
        using skip by (simp add: first_ge_def)
      moreover have "first_doc_from_next_block s = first_doc_from_next_block ?s"
        using None lt less.prems u by (subst first_doc_from_next_block.simps) (simp add: Let_def)
      moreover have "roaring_moves sets s0 (first_doc_from_next_block ?s) (first_ge (roaring_docs sets) (65536 * (ri_block ?s + 1)))"
        using less.hyps [of ?s] less.prems lt by simp
      ultimately show ?thesis by simp
    next
      case (Some d)
      then have ok: "doc_id_set_ok d" "doc_id_set_docs d \<noteq> {}" and bd: "block_docs sets ?b = doc_id_set_docs d"
        using assms(1) lt less.prems nth_mem [OF lt(1)] by (auto simp: sets_ok_def block_docs_def)
      obtain it where it: "doc_id_set_enum_iterator d = Inr (Some it)" "doc_iter_enum_inv it" "doc_iter_enum_pos it = - 1"
          "doc_iter_enum_docs it = block_docs sets ?b"
        using doc_id_set_enum_iterator_ok [OF ok(1)] bd by auto
      let ?d = "first_ge (block_docs sets ?b) 0"
      obtain x where "x \<in> block_docs sets ?b" using ok(2) bd by auto
      then have "?d \<le> x" "x < 65536"
        using block_docs_range [OF assms(1), of ?b] first_ge_le [OF block_docs_set [OF assms(1)], of x ?b 0] by auto
      then have mem: "?d \<in> block_docs sets ?b" by (intro first_ge_mem block_docs_set [OF assms(1)]) simp
      then have nd: "?d \<noteq> NO_MORE_DOCS" using block_docs_range [OF assms(1), of ?b] by auto
      obtain e where e: "doc_iter_enum_next it = Inr (?d, e)" "doc_iter_enum_inv e" "doc_iter_enum_docs e = block_docs sets ?b" "doc_iter_enum_pos e = ?d"
        using enum_next [OF it(2)] it(3,4) by auto
      let ?s1 = "?s\<lparr>ri_sub := Some e\<rparr>"
      have "first_doc_from_next_block s = at_block_doc ?d ?s1"
        using Some lt less.prems u it(1) e(1) nd by (subst first_doc_from_next_block.simps) (simp add: Let_def sub_call_def)
      moreover have "roaring_moves sets s0 (at_block_doc ?d ?s1) (65536 * ri_block ?s1 + ?d)"
        using assms(1,5) e mem less.prems by (intro at_block_doc_moves) auto
      ultimately show ?thesis using skip nd by simp
    qed
  qed
qed

text \<open>A call on the iterator of a block that returns the first document from an offset of it on.\<close>

definition in_block :: "(int \<times> roaring_iterator) result \<Rightarrow> (int \<times> roaring_iterator) result" where
  "in_block r = rbind r (\<lambda>(sub_next, s1).
     if sub_next = NO_MORE_DOCS then first_doc_from_next_block s1 else at_block_doc sub_next s1)"

lemma in_block_eqs:
  "ri_next s = in_block (sub_call doc_iter_enum_next s)"
  "advance_in_block t s = in_block (sub_call (doc_iter_enum_advance (t mod 65536)) s)"
  by (simp_all add: ri_next_def advance_in_block_def in_block_def)

lemma in_block_moves:
  assumes "sets_ok sets" "ri_sets s = sets" "ri_sub s = Some e" "0 \<le> ri_block s" "ri_block s < 32768" "ri_sets s0 = sets"
    and e: "moves doc_iter_enum_pos doc_iter_enum_docs doc_iter_enum_inv e (f e) (first_ge (block_docs sets (ri_block s)) o')"
      "doc_iter_enum_docs e = block_docs sets (ri_block s)" "0 \<le> o'" "o' \<le> 65536"
  shows "roaring_moves sets s0 (in_block (sub_call f s)) (first_ge (roaring_docs sets) (65536 * ri_block s + o'))"
proof -
  let ?B = "block_docs sets (ri_block s)"
  let ?d = "first_ge ?B o'"
  obtain e' where e': "f e = Inr (?d, e')" "doc_iter_enum_inv e'" "doc_iter_enum_docs e' = ?B" "doc_iter_enum_pos e' = ?d"
    using e(1,2) by (auto elim: movesE)
  let ?s = "s\<lparr>ri_sub := Some e'\<rparr>"
  note split = roaring_first_ge [OF assms(1,4) e(3,4)]
  show ?thesis
  proof (cases "?d = NO_MORE_DOCS")
    case True
    have "in_block (sub_call f s) = first_doc_from_next_block ?s"
      using True e'(1) assms(3) by (simp add: in_block_def sub_call_def)
    moreover have "roaring_moves sets s0 (first_doc_from_next_block ?s) (first_ge (roaring_docs sets) (65536 * (ri_block ?s + 1)))"
      using assms by (intro first_doc_from_next_block_moves) auto
    ultimately show ?thesis using split True by simp
  next
    case False
    then have mem: "?d \<in> ?B" using first_ge_cases [OF block_docs_set [OF assms(1)], of "ri_block s" o'] by blast
    have "in_block (sub_call f s) = at_block_doc ?d ?s"
      using False e'(1) assms(3) by (simp add: in_block_def sub_call_def)
    moreover have "roaring_moves sets s0 (at_block_doc ?d ?s) (65536 * ri_block ?s + ?d)"
      using assms e' mem by (intro at_block_doc_moves) auto
    ultimately show ?thesis using split False by simp
  qed
qed

lemma ri_running:
  assumes "ri_inv sets s" "ri_doc s < NO_MORE_DOCS"
  obtains (start) "ri_doc s = - 1" "ri_block s = - 1" "ri_sub s = Some doc_iter_enum_default"
  | (block) e where "ri_doc s \<in> roaring_docs sets" "ri_block s = ri_doc s div 65536" "0 \<le> ri_block s" "ri_block s < 32768"
      "ri_sub s = Some e" "doc_iter_enum_inv e" "doc_iter_enum_docs e = block_docs sets (ri_block s)"
      "doc_iter_enum_pos e = ri_doc s mod 65536"
proof (cases "ri_doc s = - 1 \<and> ri_block s = - 1 \<and> ri_sub s = Some doc_iter_enum_default")
  case False
  then obtain e where e: "ri_doc s \<in> roaring_docs sets" "ri_block s = ri_doc s div 65536"
      "ri_sub s = Some e" "doc_iter_enum_inv e" "doc_iter_enum_docs e = block_docs sets (ri_block s)"
      "doc_iter_enum_pos e = ri_doc s mod 65536" "sets_ok sets"
    using assms unfolding ri_inv_def by auto
  have "0 \<le> ri_block s" "block_docs sets (ri_block s) \<noteq> {}" using e(1,2) by (auto simp: roaring_docs_def)
  then show thesis using block [OF e(1,2) _ _ e(3-6)] block_of_sets [OF e(7)] by blast
qed (use start in blast)

lemma ri_next_moves:
  assumes s: "ri_inv sets s" "ri_doc s < NO_MORE_DOCS"
  shows "roaring_moves sets s (ri_next s) (first_ge (roaring_docs sets) (ri_doc s + 1))"
proof -
  have ok: "sets_ok sets" "ri_sets s = sets" using s(1) by (simp_all add: ri_inv_def)
  from s show ?thesis
  proof (cases rule: ri_running)
    case start
    obtain e where "doc_iter_enum_next doc_iter_enum_default = Inr (NO_MORE_DOCS, e)"
      by (auto simp: doc_iter_enum_next_def doc_iter_enum_default_def dispatch_def rewrap_def int_array_iter_def int_array_next_def
        int_array_empty_def int_array_new_def int_array_move_def Let_def)
    then have "ri_next s = first_doc_from_next_block (s\<lparr>ri_sub := Some e\<rparr>)"
      using start by (simp add: ri_next_def sub_call_def)
    then show ?thesis
      using first_doc_from_next_block_moves [OF ok(1), of "s\<lparr>ri_sub := Some e\<rparr>" s] ok start by simp
  next
    case (block e)
    have r: "ri_doc s mod 65536 < 65536" "0 \<le> ri_doc s mod 65536" by simp_all
    have "moves doc_iter_enum_pos doc_iter_enum_docs doc_iter_enum_inv e (doc_iter_enum_next e)
        (first_ge (block_docs sets (ri_block s)) (ri_doc s mod 65536 + 1))"
      using doc_iter_enum_next_moves [OF block(6)] block(7,8) r by simp
    from in_block_moves [where f = doc_iter_enum_next, OF ok block(5,3,4) ok(2) this block(7)] r
    have "roaring_moves sets s (in_block (sub_call doc_iter_enum_next s))
        (first_ge (roaring_docs sets) (65536 * ri_block s + (ri_doc s mod 65536 + 1)))" by simp
    moreover have "65536 * ri_block s + (ri_doc s mod 65536 + 1) = ri_doc s + 1" using block(2) by simp
    ultimately show ?thesis by (simp only: in_block_eqs)
  qed
qed

lemma div_bound: "t < 65536 * n \<Longrightarrow> t div 65536 < n" for t n :: int
  using block_split [of t] by linarith

lemma advance_in_block_moves:
  assumes ok: "sets_ok sets" "ri_sets s = sets" and t: "0 \<le> t" "t div 65536 < int (length sets)" "t div 65536 < 32768"
    and s': "ri_sets s' = sets" "ri_sub s' = Some e" "ri_block s' = t div 65536"
    and e: "doc_iter_enum_inv e" "doc_iter_enum_docs e = block_docs sets (t div 65536)" "doc_iter_enum_pos e < t mod 65536"
  shows "roaring_moves sets s (advance_in_block t s') (first_ge (roaring_docs sets) t)"
proof -
  let ?b = "t div 65536" and ?o = "t mod 65536"
  have o: "0 \<le> ?o" "?o < 65536" "65536 * ?b + ?o = t" by simp_all
  have b: "0 \<le> ?b" using t(1) by simp
  have "moves doc_iter_enum_pos doc_iter_enum_docs doc_iter_enum_inv e (doc_iter_enum_advance ?o e)
      (first_ge (block_docs sets (ri_block s')) ?o)"
    using doc_iter_enum_advance_moves [OF e(1,3)] s'(3) e(2) o by simp
  from in_block_moves [where f = "doc_iter_enum_advance ?o", OF ok(1) s'(1,2) _ _ ok(2) this _ o(1)] s' e b t o(2)
  have "roaring_moves sets s (advance_in_block t s') (first_ge (roaring_docs sets) (65536 * ?b + ?o))"
    by (simp only: in_block_eqs)
  then show ?thesis by (simp only: o(3))
qed

lemma ri_advance_moves:
  assumes s: "ri_inv sets s" "ri_doc s < t" and t: "t \<le> NO_MORE_DOCS" "t < 65536 * int (length sets)"
  shows "roaring_moves sets s (ri_advance t s) (first_ge (roaring_docs sets) t)"
proof -
  have ok: "sets_ok sets" "ri_sets s = sets" using s(1) by (simp_all add: ri_inv_def)
  then have pos: "- 1 \<le> ri_doc s" using s(1) by (auto simp: ri_inv_def roaring_docs_def)
  then have t0: "0 \<le> t" using s(2) by simp
  let ?b = "t div 65536" and ?o = "t mod 65536"
  have bo: "block_of t = ?b" using block_of_eq [OF t0 t(1)] .
  have b: "0 \<le> ?b" "?b < int (length sets)" "?b < 32768"
    using t0 div_bound [OF t(2)] ok(1) by (auto simp: sets_ok_def)
  then have u: "as_usize ?b = nat ?b" "nat ?b < length sets" by (auto intro!: as_usize_nonneg)
  have o: "0 \<le> ?o" "?o < 65536" "65536 * ?b + ?o = t" by simp_all
  note adv = advance_in_block_moves [OF ok t0 b(2,3)]
  show ?thesis
  proof (cases "?b = ri_block s")
    case True
    have "ri_doc s < NO_MORE_DOCS" using s(2) t(1) by simp
    with s(1) show ?thesis
    proof (cases rule: ri_running)
      case start
      then show ?thesis using True b(1) by simp
    next
      case (block e)
      have "ri_doc s mod 65536 < ?o" using s(2) True block(2) block_split(1) [of t] block_split(1) [of "ri_doc s"] by linarith
      then show ?thesis using adv [of s e] ok(2) block True bo by (simp add: ri_advance_def)
    qed
  next
    case False
    let ?s = "s\<lparr>ri_block := ?b\<rparr>"
    show ?thesis
    proof (cases "sets ! nat ?b")
      case None
      then have "block_docs sets ?b = {}" by (simp add: block_docs_def)
      then have "first_ge (roaring_docs sets) t = first_ge (roaring_docs sets) (65536 * (?b + 1))"
        using roaring_first_ge [OF ok(1) b(1) o(1)] o by (simp add: first_ge_def)
      moreover have "ri_advance t s = first_doc_from_next_block ?s"
        using False None u ok(2) bo by (simp add: ri_advance_def Let_def)
      moreover have "roaring_moves sets s (first_doc_from_next_block ?s) (first_ge (roaring_docs sets) (65536 * (ri_block ?s + 1)))"
        using ok b by (intro first_doc_from_next_block_moves) auto
      ultimately show ?thesis by simp
    next
      case (Some d)
      then have "doc_id_set_ok d" "block_docs sets ?b = doc_id_set_docs d"
        using ok(1) u(2) b(1) nth_mem [OF u(2)] by (auto simp: sets_ok_def block_docs_def)
      then obtain it where it: "doc_id_set_enum_iterator d = Inr (Some it)" "doc_iter_enum_inv it" "doc_iter_enum_pos it = - 1"
          "doc_iter_enum_docs it = block_docs sets ?b"
        using doc_id_set_enum_iterator_ok [of d] by auto
      have "ri_advance t s = advance_in_block t (?s\<lparr>ri_sub := Some it\<rparr>)"
        using False Some u ok(2) bo it(1) by (simp add: ri_advance_def Let_def)
      then show ?thesis using adv [of "?s\<lparr>ri_sub := Some it\<rparr>" it] it ok(2) o(1) by simp
    qed
  qed
qed

text \<open>
  The iterator contract, for targets in the blocks of the set. (A target in the block after the
  last one is not refused but read out of bounds: \<open>roaring_advance_past_last\<close> below.)
\<close>

interpretation roaring: bounded_iterator roaring_iter ri_doc "\<lambda>s. roaring_docs (ri_sets s)" "65536 * int (length sets)" "ri_inv sets"
  for sets
proof
  fix s assume s: "ri_inv sets s"
  then have eq: "ri_sets s = sets" by (simp add: ri_inv_def)
  show "doc_set (roaring_docs (ri_sets s))" using s by (simp add: ri_inv_def sets_ok_def)
  show "ri_doc s = - 1 \<or> ri_doc s \<in> roaring_docs (ri_sets s) \<or> ri_doc s = NO_MORE_DOCS" using s by (auto simp: ri_inv_def)
  show "roaring_moves sets s (next_doc roaring_iter s) (first_ge (roaring_docs (ri_sets s)) (ri_doc s + 1))" if "ri_doc s < NO_MORE_DOCS"
    using ri_next_moves [OF s that] eq by (simp add: roaring_iter_def)
  show "roaring_moves sets s (advance roaring_iter t s) (first_ge (roaring_docs (ri_sets s)) t)"
    if "ri_doc s < t" "t \<le> NO_MORE_DOCS" "t < 65536 * int (length sets)" for t
    using ri_advance_moves [OF s that] eq by (simp add: roaring_iter_def)
qed

text \<open>The cached iterators keep the contract of the set they were made from.\<close>

definition cache_iter_docs :: "cache_iter \<Rightarrow> int set" where
  "cache_iter_docs c =
     (case c of CacheBitIter i \<Rightarrow> bit_set_doc_docs fbs_abs i | CacheRoaringIter i \<Rightarrow> roaring_docs (ri_sets i))"

definition cache_iter_inv :: "doc_id_set_enum option list \<Rightarrow> cache_iter \<Rightarrow> bool" where
  "cache_iter_inv sets c =
     (case c of CacheBitIter i \<Rightarrow> bit_set_doc_inv fbs_len fbs_abs fbs_inv i | CacheRoaringIter i \<Rightarrow> ri_inv sets i)"

lemmas cache_iter_views = cache_iter_docs_def cache_iter_inv_def cache_iter_doc_id_def

lemma cache_dispatch_moves:
  assumes "\<And>i. c = CacheBitIter i \<Longrightarrow> moves bsd_doc (bit_set_doc_docs fbs_abs) (bit_set_doc_inv fbs_len fbs_abs fbs_inv) i (f i) d"
    and "\<And>i. c = CacheRoaringIter i \<Longrightarrow> roaring_moves sets i (g i) d"
  shows "moves cache_iter_doc_id cache_iter_docs (cache_iter_inv sets) c (cache_dispatch f g c) d"
proof (cases c)
  case (CacheBitIter i)
  with assms(1) [OF CacheBitIter] show ?thesis
    by (auto simp: moves_def cache_dispatch_def cache_iter_views bit_set_doc_iter_def)
next
  case (CacheRoaringIter i)
  with assms(2) [OF CacheRoaringIter] show ?thesis
    by (auto simp: moves_def cache_dispatch_def cache_iter_views roaring_iter_def)
qed

interpretation cached: bounded_iterator cache_iter_iter cache_iter_doc_id cache_iter_docs "65536 * int (length sets)" "cache_iter_inv sets"
  for sets
proof
  fix c assume c: "cache_iter_inv sets c"
  have bit: "bit_set_doc_inv fbs_len fbs_abs fbs_inv i" if "c = CacheBitIter i" for i
    using c that by (simp add: cache_iter_inv_def)
  have roar: "ri_inv sets i" if "c = CacheRoaringIter i" for i
    using c that by (simp add: cache_iter_inv_def)
  show "doc_set (cache_iter_docs c)"
    using fbs_docs.docs_range [OF bit] roaring.docs_range [OF roar] by (cases c) (simp_all add: cache_iter_docs_def)
  show "cache_iter_doc_id c = - 1 \<or> cache_iter_doc_id c \<in> cache_iter_docs c \<or> cache_iter_doc_id c = NO_MORE_DOCS"
    using fbs_docs.doc_cases [OF bit] roaring.pos_cases [OF roar]
    by (cases c) (simp_all add: cache_iter_views roaring_iter_def)
  show "moves cache_iter_doc_id cache_iter_docs (cache_iter_inv sets) c (next_doc cache_iter_iter c)
      (first_ge (cache_iter_docs c) (cache_iter_doc_id c + 1))" if "cache_iter_doc_id c < NO_MORE_DOCS"
    using that fbs_docs.next_moves [OF bit] roaring.next_moves [OF roar] unfolding cache_iter_iter_def
    by (simp add: cache_iter_next_def) (rule cache_dispatch_moves; simp add: cache_iter_views bit_set_doc_iter_def roaring_iter_def)
  show "moves cache_iter_doc_id cache_iter_docs (cache_iter_inv sets) c (advance cache_iter_iter t c)
      (first_ge (cache_iter_docs c) t)" if "cache_iter_doc_id c < t" "t \<le> NO_MORE_DOCS" "t < 65536 * int (length sets)" for t
    using that fbs_docs.adv_moves [OF bit] roaring.adv_moves [OF roar] unfolding cache_iter_iter_def
    by (simp add: cache_iter_advance_def) (rule cache_dispatch_moves; simp add: cache_iter_views bit_set_doc_iter_def roaring_iter_def)
qed

section \<open>What the builder builds\<close>

text \<open>The offsets, in their block, of the documents added to it; \<open>last_block\<close> is the block being filled.\<close>

definition offsets :: "int list \<Rightarrow> int \<Rightarrow> int list" where
  "offsets ds k = map (\<lambda>d. d mod 65536) (filter (\<lambda>d. d div 65536 = k) ds)"

definition last_block :: "int list \<Rightarrow> int" where
  "last_block ds = (if ds = [] then - 1 else last ds div 65536)"

definition added_docs :: "int \<Rightarrow> int list \<Rightarrow> bool" where
  "added_docs m ds \<longleftrightarrow> 0 \<le> m \<and> m + 65536 \<le> 2147483647 \<and> sorted_wrt (<) ds \<and> set ds \<subseteq> {0..<m}"

text \<open>A block of full size that is to be stored by its complement.\<close>

definition super_dense :: "int \<Rightarrow> int list \<Rightarrow> int \<Rightarrow> bool" where
  "super_dense m ds k \<longleftrightarrow> 65536 * (k + 1) \<le> m \<and> 61440 < length (offsets ds k)"

definition encodes :: "doc_id_set_enum option \<Rightarrow> int list \<Rightarrow> bool" where
  "encodes od offs = (case od of None \<Rightarrow> offs = [] | Some d \<Rightarrow> offs \<noteq> [] \<and> doc_id_set_ok d \<and> doc_id_set_docs d = set offs)"

text \<open>The buffer and the bit set hold the offsets of the current block.\<close>

definition buffered :: "int \<Rightarrow> int \<Rightarrow> int list \<Rightarrow> roaring_builder \<Rightarrow> bool" where
  "buffered m k offs b \<longleftrightarrow> rb_max_doc b = m \<and> rb_block b = k \<and> rb_block_cardinality b = length offs \<and>
     length (rb_buffer b) = 4096 \<and> take (length offs) (rb_buffer b) = map word_of_int (take 4096 offs) \<and>
     (if length offs \<le> 4096 then rb_dense b = None
      else \<exists>dense. rb_dense b = Some dense \<and> fbs_inv dense \<and> fbs_num_bits dense = nat (min 65536 (m - 65536 * k)) \<and>
             fbs_abs dense = nat ` set offs)"

lemma unat_offset: "0 \<le> o' \<Longrightarrow> o' < 65536 \<Longrightarrow> unat (word_of_int o' :: u16) = nat o'"
  by (simp add: unsigned_of_int take_bit_int_eq_self)

lemma uint_offset: "0 \<le> o' \<Longrightarrow> o' < 65536 \<Longrightarrow> uint (word_of_int o' :: u16) = o'"
  by (simp add: uint_word_of_int_eq take_bit_int_eq_self)

lemma set_all_eq:
  assumes "fbs_inv s" "\<And>d. d \<in> set ds \<Longrightarrow> unat d < fbs_num_bits s"
  obtains s' where "set_all ds s = Inr s'" "fbs_inv s'" "fbs_abs s' = fbs_abs s \<union> unat ` set ds" "fbs_num_bits s' = fbs_num_bits s"
  using assms
proof (induction ds arbitrary: s thesis)
  case (Cons d ds)
  obtain s1 where s1: "fbs_set (unat d) s = Inr s1" "fbs_inv s1" "fbs_abs s1 = insert (unat d) (fbs_abs s)" "fbs_num_bits s1 = fbs_num_bits s"
    using fbs_set_eq [OF Cons.prems(2), of "unat d"] Cons.prems(3) by auto
  show ?case
    by (rule Cons.IH [of s1]) (use Cons.prems s1 in auto)
qed auto

text \<open>The bit set that replaces the buffer, or the one in place.\<close>

lemma dense_ready:
  assumes "buffered m k offs b" "4096 \<le> length offs" "0 \<le> k" "65536 * k + n \<le> m" "m \<le> 2147483647" "0 \<le> n" "n \<le> 65536"
    and offs: "\<And>o'. o' \<in> set offs \<Longrightarrow> 0 \<le> o' \<and> o' < n"
  obtains dense where
    "(case rb_dense b of Some dense \<Rightarrow> Inr dense
      | None \<Rightarrow> let num_bits = min 65536 (rb_max_doc b - as_i32 (k * 65536)) in rbind (fbs_new (as_usize num_bits)) (set_all (rb_buffer b)))
     = Inr dense" "fbs_inv dense" "fbs_num_bits dense = nat (min 65536 (m - 65536 * k))" "fbs_abs dense = nat ` set offs"
proof (cases "length offs = 4096")
  case False
  then show thesis using assms(1,2) that by (auto simp: buffered_def)
next
  case True
  let ?n = "nat (min 65536 (m - 65536 * k))"
  have buf: "rb_buffer b = map word_of_int offs" "rb_dense b = None" "rb_max_doc b = m"
    using assms(1) True by (auto simp: buffered_def)
  have "as_i32 (k * 65536) = k * 65536" using assms by (intro as_i32_id) auto
  then have nb: "as_usize (min 65536 (rb_max_doc b - as_i32 (k * 65536))) = ?n"
    using assms buf by (subst as_usize_nonneg) (auto simp: mult.commute)
  obtain s where s: "fbs_new ?n = Inr s" "fbs_inv s" "fbs_abs s = {}" "fbs_num_bits s = ?n"
    using fbs_new_eq [of ?n] nat_mono [of "min 65536 (m - 65536 * k)" 65536] by fastforce
  have un: "unat (word_of_int o' :: u16) = nat o'" if "o' \<in> set offs" for o'
    using offs [OF that] assms by (intro unat_offset) auto
  have "unat d < fbs_num_bits s" if d: "d \<in> set (rb_buffer b)" for d
  proof -
    obtain o' where o: "o' \<in> set offs" "d = word_of_int o'" using d buf(1) by auto
    then show ?thesis using un [OF o(1)] offs [OF o(1)] s(4) assms(3-7) by auto
  qed
  then obtain s' where "set_all (rb_buffer b) s = Inr s'" "fbs_inv s'" "fbs_abs s' = fbs_abs s \<union> unat ` set (rb_buffer b)" "fbs_num_bits s' = fbs_num_bits s"
    by (rule set_all_eq [OF s(2)])
  moreover have "unat ` set (rb_buffer b) = nat ` set offs" using un by (auto simp: buf(1) image_image)
  ultimately show thesis using that [of s'] s buf nb by simp
qed

lemma put_doc_buffered:
  assumes b: "buffered m k offs b" and x: "x div 65536 = k" "0 \<le> x" "x < m" "m \<le> 2147483647"
    and sorted: "sorted_wrt (<) (offs @ [x mod 65536])" "\<And>o'. o' \<in> set offs \<Longrightarrow> 0 \<le> o'"
  obtains b' where "put_doc k x b = Inr b'" "rb_sets b' = rb_sets b" "rb_cardinality b' = rb_cardinality b"
    "buffered m k (offs @ [x mod 65536]) (b'\<lparr>rb_last_doc_id := x, rb_block_cardinality := rb_block_cardinality b' + 1\<rparr>)"
proof -
  let ?o = "x mod 65536"
  have o: "0 \<le> ?o" "?o < 65536" "x = 65536 * k + ?o" "0 \<le> k" using x(1,2) by auto
  have w: "(word_of_int x :: u16) = word_of_int ?o" by (simp add: word_of_int_eq_iff take_bit_eq_mod)
  show thesis
  proof (cases "length offs < 4096")
    case True
    let ?b = "b\<lparr>rb_buffer := (rb_buffer b)[length offs := word_of_int x]\<rparr>"
    have put: "put_doc k x b = Inr ?b"
      using True b by (simp add: put_doc_def buffered_def MAX_ARRAY_LENGTH_def)
    have "take (length offs + 1) ((rb_buffer b)[length offs := word_of_int x]) = take (length offs) (rb_buffer b) @ [word_of_int ?o]"
      using True b w by (simp add: buffered_def take_Suc_conv_app_nth)
    then show thesis using True b by (intro that [OF put]) (auto simp: buffered_def)
  next
    case False
    have n: "65536 * k + (?o + 1) \<le> m" "?o + 1 \<le> 65536" "0 \<le> ?o + 1" using o x by auto
    have r: "0 \<le> o' \<and> o' < ?o + 1" if "o' \<in> set offs" for o' using sorted that by (force simp: sorted_wrt_append)
    obtain dense where dense:
        "(case rb_dense b of Some dense \<Rightarrow> Inr dense
          | None \<Rightarrow> let num_bits = min 65536 (rb_max_doc b - as_i32 (k * 65536)) in rbind (fbs_new (as_usize num_bits)) (set_all (rb_buffer b)))
         = Inr dense" "fbs_inv dense" "fbs_num_bits dense = nat (min 65536 (m - 65536 * k))" "fbs_abs dense = nat ` set offs"
      using dense_ready [OF b _ o(4) n(1) x(4) n(3,2) r] False by auto
    have "nat ?o < fbs_num_bits dense" using dense(3) n o by simp
    then obtain d where d: "fbs_set (nat ?o) dense = Inr d" "fbs_inv d" "fbs_abs d = insert (nat ?o) (fbs_abs dense)" "fbs_num_bits d = fbs_num_bits dense"
      using fbs_set_eq [OF dense(2)] by blast
    have u: "as_usize ?o = nat ?o" using o by (intro as_usize_nonneg) auto
    have put: "put_doc k x b = Inr (b\<lparr>rb_dense := Some d\<rparr>)"
      using False b dense(1) d(1) u by (simp add: put_doc_def buffered_def MAX_ARRAY_LENGTH_def)
    show thesis using False b dense d by (intro that [OF put]) (auto simp: buffered_def)
  qed
qed

text \<open>Flushing a block stores a set with its offsets, unless the block is to be stored by its complement.\<close>

lemma sorted_offsets_length:
  fixes offs :: "int list"
  assumes "sorted_wrt (<) offs" "set offs \<subseteq> {0..<n}"
  shows "length offs = card (nat ` set offs)" "int (length offs) \<le> max 0 n"
proof -
  have "distinct offs" using assms(1) by (simp add: strict_sorted_iff)
  moreover have "inj_on nat (set offs)"
  proof (rule inj_onI)
    fix x y assume "x \<in> set offs" "y \<in> set offs" "nat x = nat y"
    moreover have "0 \<le> x" "0 \<le> y" using calculation(1,2) assms(2) by auto
    ultimately show "x = y" by simp
  qed
  ultimately show "length offs = card (nat ` set offs)" by (simp add: card_image distinct_card)
  have "card (set offs) \<le> card {0..<n}" using assms(2) by (intro card_mono) auto
  then show "int (length offs) \<le> max 0 n" using \<open>distinct offs\<close> by (simp add: distinct_card)
qed

lemma short_array_encodes:
  assumes "sorted_wrt (<) offs" "set offs \<subseteq> {0..<65536}" "offs \<noteq> []" "length offs \<le> 4096"
  shows "encodes (Some (ShortArray (short_array_set_new (map word_of_int offs) (length offs)))) offs"
proof -
  have "map (uint \<circ> (word_of_int :: int \<Rightarrow> u16)) offs = offs"
    using assms(2) by (intro map_idI) (auto simp: uint_offset)
  then show ?thesis using assms
    by (simp add: encodes_def doc_id_set_ok_def doc_id_set_docs_def short_array_set_ok_def short_array_set_new_def del: set_map)
qed

lemma bit_set_encodes:
  assumes "fbs_inv dense" "fbs_abs dense = nat ` set offs" "set offs \<subseteq> {0..<65536}" "offs \<noteq> []"
  shows "encodes (Some (BitDocId (bit_doc_id_set_new dense n))) offs"
proof -
  have "int ` nat ` set offs = set offs" using assms(3) by (force simp: image_image)
  then show ?thesis using assms by (simp add: encodes_def doc_id_set_ok_def doc_id_set_docs_def bit_doc_id_set_new_def)
qed

definition flushed :: "doc_id_set_enum option \<Rightarrow> int list \<Rightarrow> roaring_builder \<Rightarrow> roaring_builder" where
  "flushed od offs b =
     b\<lparr>rb_sets := (if offs = [] then rb_sets b else (rb_sets b)[nat (rb_block b) := od]),
       rb_cardinality := rb_cardinality b + length offs, rb_dense := None, rb_block_cardinality := 0\<rparr>"

lemma rb_flush_encodes:
  assumes b: "buffered m k offs b" and offs: "sorted_wrt (<) offs" "set offs \<subseteq> {0..<65536}"
    and k: "offs \<noteq> [] \<Longrightarrow> 0 \<le> k \<and> k < 32768 \<and> nat k < length (rb_sets b)"
    and sd: "\<not> (65536 * (k + 1) \<le> m \<and> 61440 < length offs)"
  obtains od where "rb_flush b = Inr (flushed od offs b)" "encodes od offs"
proof -
  have card: "length offs = card (nat ` set offs)" "length offs \<le> 65536" using sorted_offsets_length [OF offs] by auto
  have put: "put_set k d b = Inr (b\<lparr>rb_sets := (rb_sets b)[nat k := Some d]\<rparr>)" if "offs \<noteq> []" for d
    using k [OF that] as_usize_nonneg [of k] by (simp add: put_set_def)
  have flush: "rb_flush b = Inr (flushed (Some d) offs b)" if "encode_block b = put_set k d b" "offs \<noteq> []" for d
    using that put [of d] b card(2) by (simp add: rb_flush_def flushed_def BLOCK_SIZE_def buffered_def)
  consider "offs = []" | "offs \<noteq> []" "length offs \<le> 4096" | "4096 < length offs" by linarith
  then show thesis
  proof cases
    case 1
    then have "rb_flush b = Inr (flushed None offs b)"
      using b by (simp add: rb_flush_def encode_block_def buffered_def flushed_def Let_def)
    then show thesis using 1 by (intro that [of None]) (simp_all add: encodes_def)
  next
    case 2
    have "encode_block b = put_set k (ShortArray (short_array_set_new (map word_of_int offs) (length offs))) b"
      using 2 b by (simp add: encode_block_def buffered_def MAX_ARRAY_LENGTH_def Let_def)
    from flush [OF this 2(1)] show thesis using short_array_encodes [OF offs 2] by (rule that)
  next
    case 3
    then obtain dense where dense: "rb_dense b = Some dense" "fbs_inv dense" "fbs_num_bits dense = nat (min 65536 (m - 65536 * k))"
        "fbs_abs dense = nat ` set offs"
      using b by (auto simp: buffered_def)
    have ne: "offs \<noteq> []" using 3 by auto
    have bc: "rb_block_cardinality b = length offs" "rb_block b = k" using b by (auto simp: buffered_def)
    have c: "fbs_cardinality dense = length offs" using fbs_cardinality_eq [OF dense(2)] dense(4) card(1) by simp
    have nsd: "\<not> (fbs_len dense = 65536 \<and> 65536 - length offs < 4096)"
      using sd card(2) dense(3) by (cases "65536 \<le> m - 65536 * k") (auto simp: fbs_len_def)
    have "encode_block b = put_set k (BitDocId (bit_doc_id_set_new dense (length offs))) b"
      using 3 bc dense(1) c nsd unfolding encode_block_def BLOCK_SIZE_def MAX_ARRAY_LENGTH_def Let_def by auto
    from flush [OF this ne] show thesis using bit_set_encodes [OF dense(2,4) offs(2) ne] by (rule that)
  qed
qed

section \<open>The builder's invariant\<close>

definition rb_inv :: "int \<Rightarrow> int list \<Rightarrow> roaring_builder \<Rightarrow> bool" where
  "rb_inv m ds b \<longleftrightarrow> length (rb_sets b) = nat ((m + 65535) div 65536) \<and>
     rb_last_doc_id b = (if ds = [] then - 1 else last ds) \<and>
     buffered m (last_block ds) (offsets ds (last_block ds)) b \<and>
     (\<forall>j<length (rb_sets b). if int j < last_block ds then encodes (rb_sets b ! j) (offsets ds (int j)) else rb_sets b ! j = None) \<and>
     rb_cardinality b + rb_block_cardinality b = length ds"

lemma offsets_snoc: "offsets (ds @ [x]) k = offsets ds k @ (if x div 65536 = k then [x mod 65536] else [])"
  by (simp add: offsets_def)

lemma offsets_range: "set (offsets ds k) \<subseteq> {0..<65536}"
  by (auto simp: offsets_def)

lemma offsets_sorted:
  assumes "sorted_wrt (<) ds"
  shows "sorted_wrt (<) (offsets ds k)"
proof -
  have "sorted_wrt (<) (filter (\<lambda>d. d div 65536 = k) ds)" using assms by (rule sorted_wrt_filter)
  moreover have "x mod 65536 < y mod 65536" if "x div 65536 = k" "y div 65536 = k" "x < y" for x y :: int
    using that block_split(1) [of x] block_split(1) [of y] by linarith
  ultimately show ?thesis
    unfolding offsets_def sorted_wrt_map by (rule sorted_wrt_mono_rel [rotated]) auto
qed

lemma added_docs_div:
  assumes "added_docs m ds" "d \<in> set ds"
  shows "0 \<le> d div 65536" "d div 65536 \<le> last_block ds" "last_block ds < (m + 65535) div 65536" "last_block ds < 32768"
proof -
  have ne: "ds \<noteq> []" using assms(2) by auto
  then have l: "last ds \<in> set ds" by simp
  then have m: "0 \<le> last ds" "last ds < m" "m \<le> 2147418111" using assms(1) by (auto simp: added_docs_def)
  have "0 \<le> d" using assms by (auto simp: added_docs_def)
  then show "0 \<le> d div 65536" by simp
  have "d \<le> last ds"
    using assms ne by (cases ds rule: rev_cases) (auto simp: added_docs_def sorted_wrt_append)
  then show "d div 65536 \<le> last_block ds" using ne by (simp add: last_block_def zdiv_mono1)
  have "last ds div 65536 < (m + 65535) div 65536" "last ds div 65536 < 32768" using m by linarith+
  then show "last_block ds < (m + 65535) div 65536" "last_block ds < 32768" using ne by (simp_all add: last_block_def)
qed

lemma offsets_later:
  assumes "added_docs m ds" "last_block ds < k"
  shows "offsets ds k = []"
  using added_docs_div(2) [OF assms(1)] assms(2) by (fastforce simp: offsets_def filter_empty_conv)

lemma added_docs_snocD:
  assumes "added_docs m (ds @ [x])"
  shows "added_docs m ds" "0 \<le> x" "x < m" "last_block ds \<le> x div 65536" "m \<le> 2147483647" "\<not> x < (if ds = [] then - 1 else last ds)"
    "x div 65536 < 32768" "sorted_wrt (<) (offsets ds (x div 65536) @ [x mod 65536])"
proof -
  show ds: "added_docs m ds" and x: "0 \<le> x" "x < m" and m: "m \<le> 2147483647"
    using assms by (auto simp: added_docs_def sorted_wrt_append)
  show l: "\<not> x < (if ds = [] then - 1 else last ds)"
    using assms by (cases ds rule: rev_cases) (auto simp: added_docs_def sorted_wrt_append)
  then show "last_block ds \<le> x div 65536" using x by (auto simp: last_block_def zdiv_mono1 intro: order_trans [of _ 0])
  show "x div 65536 < 32768" using x m by linarith
  have "sorted_wrt (<) (offsets (ds @ [x]) (x div 65536))" using assms by (intro offsets_sorted) (simp add: added_docs_def)
  then show "sorted_wrt (<) (offsets ds (x div 65536) @ [x mod 65536])" by (simp add: offsets_snoc)
qed

text \<open>Making \<open>k\<close> the current block: after a flush when it is a new one.\<close>

definition enter_block :: "int \<Rightarrow> roaring_builder \<Rightarrow> roaring_builder result" where
  "enter_block k b = (if k \<noteq> rb_block b then rbind (rb_flush b) (\<lambda>b1. Inr (b1\<lparr>rb_block := k\<rparr>)) else Inr b)"

lemma rb_inv_flush:
  assumes "rb_inv m ds b" "added_docs m ds" "\<not> super_dense m ds (last_block ds)"
  obtains b' where "rb_flush b = Inr b'" "rb_last_doc_id b' = rb_last_doc_id b" "length (rb_sets b') = length (rb_sets b)"
    "\<And>j. j < length (rb_sets b) \<Longrightarrow> encodes (rb_sets b' ! j) (offsets ds (int j))"
    "\<And>j. j < length (rb_sets b) \<Longrightarrow> last_block ds < int j \<Longrightarrow> rb_sets b' ! j = None"
    "rb_cardinality b' = length ds" "\<And>k. buffered m k [] (b'\<lparr>rb_block := k\<rparr>)"
proof -
  let ?k = "last_block ds"
  let ?offs = "offsets ds ?k"
  have b: "buffered m ?k ?offs b" "length (rb_sets b) = nat ((m + 65535) div 65536)"
      "\<And>j. j < length (rb_sets b) \<Longrightarrow> int j < ?k \<Longrightarrow> encodes (rb_sets b ! j) (offsets ds (int j))"
      "\<And>j. j < length (rb_sets b) \<Longrightarrow> \<not> int j < ?k \<Longrightarrow> rb_sets b ! j = None"
      "rb_cardinality b + rb_block_cardinality b = length ds"
    using assms(1) by (auto simp: rb_inv_def)
  have srt: "sorted_wrt (<) ?offs" using assms(2) by (intro offsets_sorted) (simp add: added_docs_def)
  have k: "0 \<le> ?k \<and> ?k < 32768 \<and> nat ?k < length (rb_sets b)" if "?offs \<noteq> []"
  proof -
    obtain d where "d \<in> set ds" using \<open>?offs \<noteq> []\<close> by (cases ds) (auto simp: offsets_def)
    from added_docs_div [OF assms(2) this] show ?thesis using b(2) by auto
  qed
  from assms(3) have "\<not> (65536 * (?k + 1) \<le> m \<and> 61440 < length ?offs)" by (simp add: super_dense_def)
  from rb_flush_encodes [OF b(1) srt offsets_range k this]
  obtain od where od: "rb_flush b = Inr (flushed od ?offs b)" "encodes od ?offs" by blast
  have none: "offsets ds (int j) = []" if "?k < int j" for j using offsets_later [OF assms(2) that] .
  show thesis
  proof (rule that [OF od(1)])
    fix j assume j: "j < length (rb_sets b)"
    show "encodes (rb_sets (flushed od ?offs b) ! j) (offsets ds (int j))"
    proof (cases "int j = ?k")
      case True
      then have "nat ?k = j" by simp
      then show ?thesis
        using True od(2) j b(1) b(4) [OF j] by (auto simp: flushed_def buffered_def encodes_def)
    next
      case False
      have "rb_sets (flushed od ?offs b) ! j = rb_sets b ! j"
        using False b(1) k by (auto simp: flushed_def buffered_def nth_list_update)
      then show ?thesis using b(3,4) [OF j] none [of j] False by (cases "int j < ?k") (auto simp: encodes_def)
    qed
    assume "?k < int j"
    then show "rb_sets (flushed od ?offs b) ! j = None" using b(1) b(4) [OF j] k by (auto simp: flushed_def buffered_def nth_list_update)
  qed (use b in \<open>auto simp: flushed_def buffered_def\<close>)
qed

lemma enter_block_inv:
  assumes "rb_inv m ds b" "added_docs m (ds @ [x])" "last_block ds \<noteq> x div 65536 \<Longrightarrow> \<not> super_dense m ds (last_block ds)"
  obtains b' where "enter_block (x div 65536) b = Inr b'" "length (rb_sets b') = length (rb_sets b)"
    "\<And>j. j < length (rb_sets b) \<Longrightarrow> if int j < x div 65536 then encodes (rb_sets b' ! j) (offsets ds (int j)) else rb_sets b' ! j = None"
    "rb_cardinality b' + rb_block_cardinality b' = length ds" "buffered m (x div 65536) (offsets ds (x div 65536)) b'"
proof (cases "last_block ds = x div 65536")
  case True
  then show thesis using assms(1) by (intro that [of b]) (auto simp: rb_inv_def enter_block_def buffered_def)
next
  case False
  note ds = added_docs_snocD [OF assms(2)]
  obtain b' where b': "rb_flush b = Inr b'" "length (rb_sets b') = length (rb_sets b)"
      "\<And>j. j < length (rb_sets b) \<Longrightarrow> encodes (rb_sets b' ! j) (offsets ds (int j))"
      "\<And>j. j < length (rb_sets b) \<Longrightarrow> last_block ds < int j \<Longrightarrow> rb_sets b' ! j = None"
      "rb_cardinality b' = length ds" "\<And>k. buffered m k [] (b'\<lparr>rb_block := k\<rparr>)"
    by (rule rb_inv_flush [OF assms(1) ds(1) assms(3) [OF False]]) blast
  have later: "last_block ds < x div 65536" using False ds(4) by simp
  have e: "enter_block (x div 65536) b = Inr (b'\<lparr>rb_block := x div 65536\<rparr>)"
    using b'(1) False assms(1) by (simp add: enter_block_def rb_inv_def buffered_def)
  show thesis
    using b' later offsets_later [OF ds(1) later] b'(6) [of "x div 65536"]
    by (intro that [OF e]) (auto simp: buffered_def)
qed

lemma rb_add_doc_inv:
  assumes "rb_inv m ds b" "added_docs m (ds @ [x])" "last_block ds \<noteq> x div 65536 \<Longrightarrow> \<not> super_dense m ds (last_block ds)"
  obtains b' where "rb_add_doc x b = Inr b'" "rb_inv m (ds @ [x]) b'"
proof -
  let ?k = "x div 65536"
  note ds = added_docs_snocD [OF assms(2)]
  obtain b1 where b1: "enter_block ?k b = Inr b1" "length (rb_sets b1) = length (rb_sets b)"
      "\<And>j. j < length (rb_sets b) \<Longrightarrow> if int j < ?k then encodes (rb_sets b1 ! j) (offsets ds (int j)) else rb_sets b1 ! j = None"
      "rb_cardinality b1 + rb_block_cardinality b1 = length ds" "buffered m ?k (offsets ds ?k) b1"
    using enter_block_inv [OF assms] by metis
  obtain b2 where b2: "put_doc ?k x b1 = Inr b2" "rb_sets b2 = rb_sets b1" "rb_cardinality b2 = rb_cardinality b1"
      "buffered m ?k (offsets ds ?k @ [x mod 65536]) (b2\<lparr>rb_last_doc_id := x, rb_block_cardinality := rb_block_cardinality b2 + 1\<rparr>)"
    by (rule put_doc_buffered [OF b1(5) refl ds(2,3,5,8)]) (use offsets_range [of ds ?k] in auto)
  let ?b = "b2\<lparr>rb_last_doc_id := x, rb_block_cardinality := rb_block_cardinality b2 + 1\<rparr>"
  have "\<not> x < rb_last_doc_id b" using assms(1) ds(6) by (simp add: rb_inv_def)
  moreover have "block_of x = ?k" using ds(2,3,5) by (intro block_of_eq) auto
  ultimately have add: "rb_add_doc x b = Inr ?b"
    using b1(1) b2(1) by (simp add: rb_add_doc_def enter_block_def Let_def)
  have "rb_block_cardinality b2 = rb_block_cardinality b1" using b1(5) b2(4) by (simp add: buffered_def)
  then have "rb_inv m (ds @ [x]) ?b"
    using assms(1) b1 b2 by (simp add: rb_inv_def last_block_def offsets_snoc)
  with add show thesis by (rule that)
qed

fun rb_add_docs :: "int list \<Rightarrow> roaring_builder \<Rightarrow> roaring_builder result" where
  "rb_add_docs [] b = Inr b"
| "rb_add_docs (d # ds) b = rbind (rb_add_doc d b) (rb_add_docs ds)"

lemma rb_new_inv:
  assumes "added_docs m []"
  obtains b where "rb_new m = Inr b" "rb_inv m [] b"
proof -
  have m: "0 \<le> m" "m + 65536 \<le> 2147483647" using assms by (auto simp: added_docs_def)
  then have "block_of (m + 65536 - 1) = (m + 65535) div 65536" by (subst block_of_eq) (simp_all add: algebra_simps)
  then show thesis
    using m by (intro that [of "projr (rb_new m)"])
      (simp_all add: rb_new_def rb_inv_def buffered_def last_block_def offsets_def MAX_ARRAY_LENGTH_def)
qed

lemma super_dense_append: "super_dense m ds k \<Longrightarrow> super_dense m (ds @ es) k"
  by (auto simp: super_dense_def offsets_def)

lemma rb_add_docs_inv:
  assumes "rb_inv m ds b" "added_docs m (ds @ es)" "\<And>k. k < last_block (ds @ es) \<Longrightarrow> \<not> super_dense m (ds @ es) k"
  obtains b' where "rb_add_docs es b = Inr b'" "rb_inv m (ds @ es) b'"
  using assms
proof (induction es arbitrary: ds b thesis)
  case (Cons x es)
  have x: "added_docs m (ds @ [x])"
    using Cons.prems(3) by (auto simp: added_docs_def sorted_wrt_append)
  have sd: "\<not> super_dense m ds (last_block ds)" if "last_block ds \<noteq> x div 65536"
  proof -
    have "last_block ds < x div 65536" using added_docs_snocD(4) [OF x] that by simp
    also have "\<dots> \<le> last_block (ds @ x # es)" using added_docs_div(2) [OF Cons.prems(3), of x] by simp
    finally show ?thesis using Cons.prems(4) super_dense_append by blast
  qed
  obtain b1 where b1: "rb_add_doc x b = Inr b1" "rb_inv m (ds @ [x]) b1"
    using rb_add_doc_inv [OF Cons.prems(2) x] sd by metis
  obtain b2 where "rb_add_docs es b1 = Inr b2" "rb_inv m ((ds @ [x]) @ es) b2"
    using Cons.IH [OF _ b1(2)] Cons.prems(3,4) by auto
  then show ?case using b1(1) by (intro Cons.prems(1) [of b2]) simp_all
qed auto

lemma rb_new_add_docs:
  assumes "added_docs m ds" "\<And>k. k < last_block ds \<Longrightarrow> \<not> super_dense m ds k"
  obtains b where "rbind (rb_new m) (rb_add_docs ds) = Inr b" "rb_inv m ds b"
proof -
  have "added_docs m []" using assms(1) by (simp add: added_docs_def)
  then obtain b0 where b0: "rb_new m = Inr b0" "rb_inv m [] b0" by (rule rb_new_inv)
  obtain b where "rb_add_docs ds b0 = Inr b" "rb_inv m ds b"
    by (rule rb_add_docs_inv [OF b0(2), of ds]) (use assms in auto)
  then show thesis using b0(1) by (intro that) simp_all
qed

text \<open>Blocks that encode the offsets of a list of documents hold exactly these documents.\<close>

lemma encoded_sets:
  assumes "added_docs m ds" "length sets = nat ((m + 65535) div 65536)"
    and enc: "\<And>j. j < length sets \<Longrightarrow> encodes (sets ! j) (offsets ds (int j))"
  shows "roaring_docs sets = set ds" "sets_ok sets"
proof -
  have bd: "block_docs sets k = set (offsets ds k)" if "0 \<le> k" for k
  proof (cases "nat k < length sets")
    case True
    then show ?thesis
      using enc [OF True] that by (cases "sets ! nat k") (simp_all add: block_docs_def encodes_def)
  next
    case False
    have "offsets ds k = []"
    proof (rule ccontr)
      assume "offsets ds k \<noteq> []"
      then obtain d where "d \<in> set ds" "d div 65536 = k" by (auto simp: offsets_def filter_empty_conv)
      then show False using added_docs_div(2,3) [OF assms(1), of d] False assms(2) that by simp
    qed
    then show ?thesis using False by (simp add: block_docs_def)
  qed
  have mem: "x mod 65536 \<in> set (offsets ds (x div 65536)) \<longleftrightarrow> x \<in> set ds" for x
  proof
    assume "x mod 65536 \<in> set (offsets ds (x div 65536))"
    then obtain d where "d \<in> set ds" "d div 65536 = x div 65536" "d mod 65536 = x mod 65536" by (auto simp: offsets_def)
    then have "d = x" by (metis mult_div_mod_eq)
    with \<open>d \<in> set ds\<close> show "x \<in> set ds" by simp
  qed (auto simp: offsets_def)
  have ds: "set ds \<subseteq> {0..<m}" "m + 65536 \<le> 2147483647" "0 \<le> m" using assms(1) by (auto simp: added_docs_def)
  have "x \<in> roaring_docs sets \<longleftrightarrow> x \<in> set ds" for x
  proof (cases "0 \<le> x")
    case True
    then show ?thesis using bd [of "x div 65536"] mem [of x] by (simp add: roaring_docs_def)
  qed (use ds in \<open>auto simp: roaring_docs_def\<close>)
  then show docs: "roaring_docs sets = set ds" by blast
  have "doc_id_set_ok d \<and> doc_id_set_docs d \<subseteq> {0..<65536} \<and> doc_id_set_docs d \<noteq> {}" if d: "Some d \<in> set sets" for d
  proof -
    obtain j where "j < length sets" "sets ! j = Some d" using d by (auto simp: in_set_conv_nth)
    then show ?thesis using enc [of j] offsets_range [of ds "int j"] by (simp add: encodes_def)
  qed
  moreover have "length sets \<le> 32768" unfolding assms(2) using ds by linarith
  moreover have "doc_set (roaring_docs sets)" unfolding docs using ds by auto
  ultimately show "sets_ok sets" by (simp add: sets_ok_def)
qed

lemma ri_new_inv: "sets_ok sets \<Longrightarrow> ri_inv sets (ri_new sets n)"
  by (simp add: ri_inv_def ri_new_def)

lemma roaring_builds:
  assumes "added_docs m ds" "\<And>k. \<not> super_dense m ds k"
  obtains b r where "rbind (rb_new m) (rb_add_docs ds) = Inr b" "rb_build b = Inr r" "rs_cardinality r = length ds"
    "ds = [] \<Longrightarrow> cache_set_iterator (CacheRoaring r) = Inr None"
    "ds \<noteq> [] \<Longrightarrow> \<exists>it. cache_set_iterator (CacheRoaring r) = Inr (Some it) \<and>
       (\<forall>ms. forward_moves (set ds) (65536 * ((m + 65535) div 65536)) (- 1) ms \<longrightarrow>
          run_moves cache_iter_iter ms it = Inr (move_results (set ds) (- 1) ms))"
proof -
  obtain b where b: "rbind (rb_new m) (rb_add_docs ds) = Inr b" "rb_inv m ds b"
    using rb_new_add_docs [OF assms(1)] assms(2) by blast
  obtain b' where b': "rb_flush b = Inr b'" "length (rb_sets b') = length (rb_sets b)"
      "\<And>j. j < length (rb_sets b) \<Longrightarrow> encodes (rb_sets b' ! j) (offsets ds (int j))" "rb_cardinality b' = length ds"
    using rb_inv_flush [OF b(2) assms] by metis
  let ?sets = "rb_sets b'"
  let ?r = "roaring_set_new ?sets (length ds)" and ?it = "CacheRoaringIter (ri_new ?sets (length ds))"
  have len: "length ?sets = nat ((m + 65535) div 65536)" using b(2) b'(2) by (simp add: rb_inv_def)
  note sets = encoded_sets [OF assms(1) len b'(3) [folded b'(2)]]
  have lim: "65536 * int (length ?sets) = 65536 * ((m + 65535) div 65536)"
    using len assms(1) by (simp add: added_docs_def)
  have inv: "cache_iter_inv ?sets ?it" using ri_new_inv [OF sets(2)] by (simp add: cache_iter_inv_def)
  have start: "cache_iter_docs ?it = set ds" "cache_iter_doc_id ?it = - 1"
    using sets(1) by (simp_all add: cache_iter_views ri_new_def roaring_iter_def)
  have run: "run_moves cache_iter_iter ms ?it = Inr (move_results (set ds) (- 1) ms)"
    if "forward_moves (set ds) (65536 * ((m + 65535) div 65536)) (- 1) ms" for ms
    using cached.run_moves_ok [OF inv, of ms] that lim start by simp
  have "rb_build b = Inr ?r" using b'(1,4) by (simp add: rb_build_def)
  moreover have "ds \<noteq> [] \<Longrightarrow> cache_set_iterator (CacheRoaring ?r) = Inr (Some ?it)"
    "ds = [] \<Longrightarrow> cache_set_iterator (CacheRoaring ?r) = Inr None"
    by (simp_all add: roaring_set_new_def cache_set_iterator_def roaring_set_iterator_def)
  ultimately show thesis using run by (intro that [OF b(1), of ?r]) (auto simp: roaring_set_new_def)
qed



text \<open>
  C39: A full block cannot be stored. When every id of a block has been added, building (and so
  also adding the first document of a later block, which flushes in the same way) panics: there is
  nothing to exclude, so the loop over the excluded ids leaves \<open>exclude_doc\<close> at \<open>-1\<close>, and
  \<open>exclude_doc as usize + 1\<close> in the assertion after it overflows.
\<close>

theorem roaring_full_block:
  assumes "added_docs m ds" "\<forall>k<last_block ds. \<not> super_dense m ds k" "length (offsets ds (last_block ds)) = 65536"
  shows "\<exists>b. rbind (rb_new m) (rb_add_docs ds) = Inr b \<and>
    rb_build b = Inl (Panic ''attempt to add with overflow'') \<and>
    (\<forall>d. last ds < d \<and> block_of d \<noteq> last_block ds \<longrightarrow> rb_add_doc d b = Inl (Panic ''attempt to add with overflow''))"
proof -
  let ?k = "last_block ds" and ?p = "Panic ''attempt to add with overflow''"
  let ?offs = "offsets ds ?k"
  obtain b where b: "rbind (rb_new m) (rb_add_docs ds) = Inr b" "rb_inv m ds b"
    using rb_new_add_docs [OF assms(1)] assms(2) by blast
  obtain dense where dense: "rb_dense b = Some dense" "fbs_inv dense" "fbs_num_bits dense = nat (min 65536 (m - 65536 * ?k))"
      "fbs_abs dense = nat ` set ?offs" and bc: "rb_block_cardinality b = 65536" "rb_block b = ?k"
    using b(2) assms(3) by (auto simp: rb_inv_def buffered_def)
  have "sorted_wrt (<) ?offs" using assms(1) by (intro offsets_sorted) (simp add: added_docs_def)
  then have card: "card (fbs_abs dense) = 65536"
    using sorted_offsets_length(1) [OF _ offsets_range] dense(4) assms(3) by metis
  have "fbs_abs dense \<subseteq> {..<fbs_num_bits dense}" using dense(2) by (simp add: fbs_inv_def)
  then have "65536 \<le> fbs_num_bits dense" using card card_mono [of "{..<fbs_num_bits dense}" "fbs_abs dense"] by simp
  then have nb: "fbs_num_bits dense = 65536" using dense(3) by linarith
  obtain flipped where fl: "fbs_flip 0 65536 dense = Inr flipped"
    using update_range_spec [of 0 65536 dense] dense(2) nb unfolding fbs_flip_def Let_def fbs_inv_def by fastforce
  have "exclude_done flipped (- 1) = Inl ?p" by (simp add: exclude_done_def as_usize_def)
  then have flush: "rb_flush b = Inl ?p"
    using dense(1) bc nb fl card fbs_cardinality_eq [OF dense(2)]
    by (simp add: rb_flush_def encode_block_def BLOCK_SIZE_def MAX_ARRAY_LENGTH_def fbs_len_def Let_def)
  have "rb_add_doc d b = Inl ?p" if "last ds < d" "block_of d \<noteq> ?k" for d
  proof -
    have "ds \<noteq> []" using assms(3) by (auto simp: offsets_def)
    then have "\<not> d < rb_last_doc_id b" using b(2) that(1) by (simp add: rb_inv_def)
    then show ?thesis using flush bc(2) that(2) by (simp add: rb_add_doc_def Let_def)
  qed
  then show ?thesis using b(1) flush by (auto simp: rb_build_def)
qed

theorem roaring_full_block_witness:
  "\<exists>b. rbind (rb_new 65536) (rb_add_docs [0..65535]) = Inr b \<and> rb_build b = Inl (Panic ''attempt to add with overflow'')"
proof -
  let ?ds = "[0..65535] :: int list"
  have ne: "?ds \<noteq> []" by simp
  have "last ?ds = 65535" by (subst upto_rec2) simp_all
  then have k: "last_block ?ds = 0" using ne by (simp add: last_block_def)
  have a: "added_docs 65536 ?ds" by (auto simp: added_docs_def sorted_wrt_upto)
  have none: "offsets ?ds k = []" if "k < 0" for k
    using that by (auto simp: offsets_def filter_empty_conv)
  then have "\<forall>k<last_block ?ds. \<not> super_dense 65536 ?ds k" unfolding k by (simp add: super_dense_def)
  moreover have "filter (\<lambda>d. d div 65536 = 0) ?ds = ?ds" by (rule filter_True) auto
  then have "length (offsets ?ds (last_block ?ds)) = 65536" unfolding k offsets_def by (simp only: length_map) simp
  ultimately show ?thesis using roaring_full_block [OF a] by blast
qed

text \<open>
  C40: Advancing an iterator to a document of the block after the last one panics. The guard of
  \<open>advance\<close> compares the block with \<open>>\<close> where the number of blocks is the first block that does not
  exist, so the block is looked up out of bounds instead of ending the iteration, as a target one
  block later does.
\<close>

theorem roaring_advance_past_last:
  assumes "ri_inv sets s" "doc_id roaring_iter s < t" "t \<le> NO_MORE_DOCS" "t div 65536 = int (length sets)"
  shows "advance roaring_iter t s = Inl (Panic ''index out of bounds'') \<and>
    (t + 65536 \<le> NO_MORE_DOCS \<longrightarrow> advance roaring_iter (t + 65536) s =
      Inr (NO_MORE_DOCS, s\<lparr>ri_block := t div 65536 + 1, ri_sub := None, ri_doc := NO_MORE_DOCS\<rparr>))"
proof -
  have s: "ri_sets s = sets" "ri_doc s < t" "- 1 \<le> ri_doc s" using assms(1,2) by (auto simp: ri_inv_def roaring_docs_def roaring_iter_def)
  have blk: "ri_block s < int (length sets)"
  proof -
    from assms(1) have "ri_doc s < NO_MORE_DOCS" using s(2) assms(3) by simp
    with assms(1) show ?thesis
    proof (cases rule: ri_running)
      case (block e)
      then show ?thesis by (auto simp: roaring_docs_def block_docs_def split: if_splits)
    qed simp
  qed
  have t: "0 \<le> t" using s by simp
  then have "block_of t = int (length sets)" using block_of_eq [OF _ assms(3)] assms(4) by simp
  moreover have "t div 65536 \<le> 32767" using assms(3) by linarith
  then have "as_usize (int (length sets)) = length sets" using assms(4) by (subst as_usize_nonneg) auto
  ultimately have "ri_advance t s = Inl (Panic ''index out of bounds'')"
    using blk s(1) by (simp add: ri_advance_def Let_def)
  moreover have "ri_advance (t + 65536) s = Inr (NO_MORE_DOCS, s\<lparr>ri_block := t div 65536 + 1, ri_sub := None, ri_doc := NO_MORE_DOCS\<rparr>)"
    if "t + 65536 \<le> NO_MORE_DOCS"
  proof -
    have "block_of (t + 65536) = t div 65536 + 1" using block_of_eq [OF _ that] t by simp
    moreover have "as_usize (t div 65536 + 1) = length sets + 1"
      using assms(4) \<open>t div 65536 \<le> 32767\<close> t by (subst as_usize_nonneg) auto
    ultimately show ?thesis using blk s(1) assms(4) by (simp add: ri_advance_def Let_def)
  qed
  ultimately show ?thesis by (simp add: roaring_iter_def)
qed

theorem roaring_advance_past_last_witness:
  "advance roaring_iter 65536 (ri_new [Some (ShortArray (short_array_set_new [1] 1))] 1) = Inl (Panic ''index out of bounds'')"
proof -
  let ?sets = "[Some (ShortArray (short_array_set_new [1] 1))]"
  have "encodes (hd ?sets) (offsets [1] 0)"
    using short_array_encodes [of "[1]"] by (simp add: offsets_def)
  then have "sets_ok ?sets" by (intro encoded_sets(2) [of 65536 "[1]"]) (simp_all add: added_docs_def)
  from roaring_advance_past_last [OF ri_new_inv [OF this], of 1 65536]
  show ?thesis by (simp add: roaring_iter_def ri_new_def)
qed

end
