(* ===== verification/Lru_Cache.thy ===== *)
theory Lru_Cache
  imports Rucene_Prelude "HOL-Library.Finite_Map"
begin

text \<open>
  The fixed-size cache of \<^verbatim>\<open>search/cache/lru_cache.rs\<close>: a hash table from keys to indices of a vector
  of entries, which are linked in order of use, with the free indices on a stack. The hash table is
  a finite map. Every index and every \<open>unwrap\<close> of the source that can fail is a panic of the model.
  \<open>lru_rel\<close> relates a cache to the list of its pairs, most recently used first.
\<close>

section \<open>The cache\<close>

record ('k, 'v) cache_entry =
  ce_key :: 'k
  ce_value :: "'v option"
  ce_next :: "nat option"
  ce_prev :: "nat option"

record ('k, 'v) lru_cache =
  lc_table :: "('k, nat) fmap"
  lc_entries :: "('k, 'v) cache_entry list"
  lc_free_indexes :: "nat list"
  lc_first :: "nat option"
  lc_last :: "nat option"
  lc_capacity :: nat

definition lru_with_capacity :: "nat \<Rightarrow> ('k, 'v) lru_cache" where
  "lru_with_capacity cap =
     \<lparr>lc_table = fmempty, lc_entries = [], lc_free_indexes = [], lc_first = None, lc_last = None, lc_capacity = cap\<rparr>"

definition lru_len :: "('k, 'v) lru_cache \<Rightarrow> nat" where
  "lru_len c = fcard (fmdom (lc_table c))"

definition lru_is_empty :: "('k, 'v) lru_cache \<Rightarrow> bool" where
  "lru_is_empty c \<longleftrightarrow> fcard (fmdom (lc_table c)) = 0"

definition lru_is_full :: "('k, 'v) lru_cache \<Rightarrow> bool" where
  "lru_is_full c \<longleftrightarrow> fcard (fmdom (lc_table c)) = lc_capacity c"

definition lru_contains_key :: "'k \<Rightarrow> ('k, 'v) lru_cache \<Rightarrow> bool" where
  "lru_contains_key key c \<longleftrightarrow> fmlookup (lc_table c) key \<noteq> None"

definition entry_at :: "nat \<Rightarrow> ('k, 'v) lru_cache \<Rightarrow> ('k, 'v) cache_entry result" where
  "entry_at i c = (if i < length (lc_entries c) then Inr (lc_entries c ! i) else Inl (Panic ''index out of bounds''))"

definition upd_entry ::
  "nat \<Rightarrow> (('k, 'v) cache_entry \<Rightarrow> ('k, 'v) cache_entry) \<Rightarrow> ('k, 'v) lru_cache \<Rightarrow> ('k, 'v) lru_cache result" where
  "upd_entry i f c = rbind (entry_at i c) (\<lambda>e. Inr (c\<lparr>lc_entries := (lc_entries c)[i := f e]\<rparr>))"

definition lru_remove_from_list :: "nat \<Rightarrow> ('k, 'v) lru_cache \<Rightarrow> ('k, 'v) lru_cache result" where
  "lru_remove_from_list i c =
     rbind (entry_at i c) (\<lambda>e.
       case (ce_prev e, ce_next e) of
         (Some j, Some k) \<Rightarrow>
           rbind (upd_entry j (\<lambda>f. f\<lparr>ce_next := ce_next e\<rparr>) c) (upd_entry k (\<lambda>f. f\<lparr>ce_prev := ce_prev e\<rparr>))
       | (Some j, None) \<Rightarrow>
           rbind (upd_entry j (\<lambda>f. f\<lparr>ce_next := None\<rparr>) c) (\<lambda>c1. Inr (c1\<lparr>lc_last := ce_prev e\<rparr>))
       | (None, Some k) \<Rightarrow>
           rbind (upd_entry k (\<lambda>f. f\<lparr>ce_prev := ce_prev e\<rparr>) c) (\<lambda>c1. Inr (c1\<lparr>lc_first := ce_next e\<rparr>))
       | (None, None) \<Rightarrow> Inr (c\<lparr>lc_first := None, lc_last := None\<rparr>))"

definition lru_add_head_idx :: "nat \<Rightarrow> ('k, 'v) lru_cache \<Rightarrow> ('k, 'v) lru_cache result" where
  "lru_add_head_idx i c =
     rbind (case lc_first c of Some f \<Rightarrow> upd_entry f (\<lambda>e. e\<lparr>ce_prev := Some i\<rparr>) c | None \<Rightarrow> Inr c) (\<lambda>c1.
     rbind (upd_entry i (\<lambda>e. e\<lparr>ce_prev := None, ce_next := lc_first c1\<rparr>) c1) (\<lambda>c2.
       let c3 = c2\<lparr>lc_first := Some i\<rparr>
       in Inr (c3\<lparr>lc_last := (case lc_last c3 of Some l \<Rightarrow> Some l | None \<Rightarrow> lc_first c3)\<rparr>)))"

definition lru_access :: "'k \<Rightarrow> ('k, 'v) lru_cache \<Rightarrow> ('k, 'v) lru_cache result" where
  "lru_access key c =
     (case fmlookup (lc_table c) key of
        None \<Rightarrow> Inl (Panic ''no entry found for key'')
      | Some i \<Rightarrow> rbind (lru_remove_from_list i c) (lru_add_head_idx i))"

definition lru_remove_last :: "('k, 'v) lru_cache \<Rightarrow> ('k option \<times> ('k, 'v) lru_cache) result" where
  "lru_remove_last c =
     rbind (case lc_last c of
              Some idx \<Rightarrow>
                rbind (lru_remove_from_list idx c) (\<lambda>c1.
                rbind (entry_at idx c1) (\<lambda>e.
                  let c2 = c1\<lparr>lc_free_indexes := lc_free_indexes c1 @ [idx]\<rparr>
                  in Inr (map_option (\<lambda>_. ce_key e) (fmlookup (lc_table c2) (ce_key e)),
                          c2\<lparr>lc_table := fmdrop (ce_key e) (lc_table c2)\<rparr>)))
            | None \<Rightarrow> Inr (None, c))
       (\<lambda>(key, c3). Inr (key, if lc_last c3 = None then c3\<lparr>lc_first := None\<rparr> else c3))"

definition lru_ensure_room :: "('k, 'v) lru_cache \<Rightarrow> ('k, 'v) lru_cache result" where
  "lru_ensure_room c =
     (if lc_capacity c = lru_len c then rbind (lru_remove_last c) (\<lambda>(_, c1). Inr c1) else Inr c)"

text \<open>The part of \<open>insert\<close> for a new key, after room has been made.\<close>

definition lru_put_new :: "'k \<Rightarrow> 'v \<Rightarrow> ('k, 'v) lru_cache \<Rightarrow> ('k, 'v) lru_cache result" where
  "lru_put_new key value c =
     (let (idx, c1) = (if lc_free_indexes c = [] then (length (lc_entries c), c)
                       else (List.last (lc_free_indexes c), c\<lparr>lc_free_indexes := butlast (lc_free_indexes c)\<rparr>))
      in rbind (case lc_first c1 of Some ent \<Rightarrow> upd_entry ent (\<lambda>e. e\<lparr>ce_prev := Some idx\<rparr>) c1 | None \<Rightarrow> Inr c1) (\<lambda>c2.
           let ent = \<lparr>ce_key = key, ce_value = Some value, ce_next = lc_first c2, ce_prev = None\<rparr>
           in rbind (if idx = length (lc_entries c2) then Inr (c2\<lparr>lc_entries := lc_entries c2 @ [ent]\<rparr>)
                     else upd_entry idx (\<lambda>_. ent) c2) (\<lambda>c3.
              rbind (lru_add_head_idx idx c3) (\<lambda>c4.
                Inr (c4\<lparr>lc_table := fmupd key idx (lc_table c4)\<rparr>)))))"

definition lru_insert :: "'k \<Rightarrow> 'v \<Rightarrow> ('k, 'v) lru_cache \<Rightarrow> ('v option \<times> ('k, 'v) lru_cache) result" where
  "lru_insert key value c =
     (if lru_contains_key key c
      then rbind (lru_access key c) (\<lambda>c1.
           case lc_first c1 of
             None \<Rightarrow> Inl (Panic ''unwrap on None'')
           | Some f \<Rightarrow>
               rbind (entry_at f c1) (\<lambda>e.
               rbind (upd_entry f (\<lambda>e. e\<lparr>ce_value := Some value\<rparr>) c1) (\<lambda>c2. Inr (ce_value e, c2))))
      else rbind (lru_ensure_room c) (\<lambda>c1. rbind (lru_put_new key value c1) (\<lambda>c2. Inr (None, c2))))"

definition lru_remove :: "'k \<Rightarrow> ('k, 'v) lru_cache \<Rightarrow> ('v option \<times> ('k, 'v) lru_cache) result" where
  "lru_remove key c =
     (case fmlookup (lc_table c) key of
        None \<Rightarrow> Inr (None, c)
      | Some idx \<Rightarrow>
          rbind (lru_remove_from_list idx (c\<lparr>lc_table := fmdrop key (lc_table c)\<rparr>)) (\<lambda>c1.
          let c2 = c1\<lparr>lc_free_indexes := lc_free_indexes c1 @ [idx]\<rparr>
          in rbind (entry_at idx c2) (\<lambda>e.
             rbind (upd_entry idx (\<lambda>e. e\<lparr>ce_value := None\<rparr>) c2) (\<lambda>c3.
               case ce_value e of None \<Rightarrow> Inl (Panic ''unwrap on None'') | Some v \<Rightarrow> Inr (Some v, c3)))))"

definition lru_peek :: "'k \<Rightarrow> ('k, 'v) lru_cache \<Rightarrow> 'v option result" where
  "lru_peek key c =
     (case fmlookup (lc_table c) key of
        None \<Rightarrow> Inr None
      | Some i \<Rightarrow> rbind (entry_at i c) (\<lambda>e. Inr (ce_value e)))"

definition lru_get :: "'k \<Rightarrow> ('k, 'v) lru_cache \<Rightarrow> ('v option \<times> ('k, 'v) lru_cache) result" where
  "lru_get key c =
     rbind (if lru_contains_key key c then lru_access key c else Inr c) (\<lambda>c1.
     rbind (lru_peek key c1) (\<lambda>v. Inr (v, c1)))"

text \<open>\<open>get_mut\<close> hands out a reference to the value; \<open>f\<close> is what the caller does to it.\<close>

definition lru_get_mut :: "'k \<Rightarrow> ('v \<Rightarrow> 'v) \<Rightarrow> ('k, 'v) lru_cache \<Rightarrow> ('k, 'v) lru_cache result" where
  "lru_get_mut key f c =
     rbind (if lru_contains_key key c then lru_access key c else Inr c) (\<lambda>c1.
       case fmlookup (lc_table c1) key of
         None \<Rightarrow> Inr c1
       | Some i \<Rightarrow> upd_entry i (\<lambda>e. e\<lparr>ce_value := map_option f (ce_value e)\<rparr>) c1)"

section \<open>Linked lists of entries\<close>

text \<open>\<open>seg es p is n\<close>: the entries at \<open>is\<close> are linked in this order, after \<open>p\<close> and before \<open>n\<close>.\<close>

definition hd_opt :: "'a list \<Rightarrow> 'a option \<Rightarrow> 'a option" where
  "hd_opt xs n = (case xs of [] \<Rightarrow> n | x # _ \<Rightarrow> Some x)"

definition last_opt :: "'a option \<Rightarrow> 'a list \<Rightarrow> 'a option" where
  "last_opt p xs = (if xs = [] then p else Some (List.last xs))"

lemma hd_opt_simps [simp]: "hd_opt [] n = n" "hd_opt (x # xs) n = Some x" "hd_opt (xs @ ys) n = hd_opt xs (hd_opt ys n)"
  by (simp_all add: hd_opt_def split: list.split)

lemma last_opt_simps [simp]: "last_opt p [] = p" "last_opt p (xs @ [x]) = Some x" "last_opt p (x # xs) = last_opt (Some x) xs"
    "last_opt p (xs @ y # ys) = last_opt (Some y) ys"
  by (simp_all add: last_opt_def)

fun seg :: "('k, 'v) cache_entry list \<Rightarrow> nat option \<Rightarrow> nat list \<Rightarrow> nat option \<Rightarrow> bool" where
  "seg es p [] n \<longleftrightarrow> True"
| "seg es p (i # is) n \<longleftrightarrow>
     i < length es \<and> ce_prev (es ! i) = p \<and> ce_next (es ! i) = hd_opt is n \<and> seg es (Some i) is n"

lemma seg_append: "seg es p (xs @ ys) n \<longleftrightarrow> seg es p xs (hd_opt ys n) \<and> seg es (last_opt p xs) ys n"
  by (induction xs arbitrary: p) auto

lemma seg_bound: "seg es p is n \<Longrightarrow> i \<in> set is \<Longrightarrow> i < length es"
  by (induction "is" arbitrary: p) auto

lemma seg_frame: "i \<notin> set is \<Longrightarrow> seg (es[i := e]) p is n \<longleftrightarrow> seg es p is n"
  by (induction "is" arbitrary: p) auto

lemma seg_set_prev:
  "seg es p (y # ys) n \<Longrightarrow> y \<notin> set ys \<Longrightarrow> seg (es[y := (es ! y)\<lparr>ce_prev := p'\<rparr>]) p' (y # ys) n"
  by (simp add: seg_frame)

lemma seg_set_next:
  assumes "seg es p (xs @ [x]) n" "x \<notin> set xs"
  shows "seg (es[x := (es ! x)\<lparr>ce_next := n'\<rparr>]) p (xs @ [x]) n'"
  using assms by (simp add: seg_append seg_frame)

text \<open>The doubly linked list of a cache, and that an operation only relinks its entries.\<close>

definition links :: "('k, 'v) lru_cache \<Rightarrow> nat list \<Rightarrow> bool" where
  "links c is \<longleftrightarrow> seg (lc_entries c) None is None \<and> lc_first c = hd_opt is None \<and> lc_last c = last_opt None is \<and> distinct is"

definition relinked :: "('k, 'v) lru_cache \<Rightarrow> ('k, 'v) lru_cache \<Rightarrow> bool" where
  "relinked c c' \<longleftrightarrow> map ce_key (lc_entries c') = map ce_key (lc_entries c) \<and>
     map ce_value (lc_entries c') = map ce_value (lc_entries c) \<and> lc_table c' = lc_table c \<and>
     lc_free_indexes c' = lc_free_indexes c \<and> lc_capacity c' = lc_capacity c"

lemma upd_entry_eq:
  "i < length (lc_entries c) \<Longrightarrow> upd_entry i f c = Inr (c\<lparr>lc_entries := (lc_entries c)[i := f (lc_entries c ! i)]\<rparr>)"
  by (simp add: upd_entry_def entry_at_def)

lemma relinked_upd:
  "relinked c c1 \<Longrightarrow> ce_key e = ce_key (lc_entries c1 ! i) \<Longrightarrow> ce_value e = ce_value (lc_entries c1 ! i) \<Longrightarrow>
    relinked c (c1\<lparr>lc_entries := (lc_entries c1)[i := e]\<rparr>)"
  unfolding relinked_def by (simp add: map_update) (metis list_update_id map_update)

lemma relinked_refl [simp]: "relinked c c"
  and relinked_first [simp]: "relinked c (c1\<lparr>lc_first := f\<rparr>) = relinked c c1"
  and relinked_last [simp]: "relinked c (c1\<lparr>lc_last := f\<rparr>) = relinked c c1"
  by (simp_all add: relinked_def)

lemma relinked_trans: "relinked a b \<Longrightarrow> relinked b c \<Longrightarrow> relinked a c"
  by (simp add: relinked_def)

text \<open>The new head may already be noted as the predecessor of the old one.\<close>

lemma add_head_links:
  assumes l: "seg (lc_entries c) p is None" "lc_first c = hd_opt is None" "lc_last c = last_opt None is" "distinct is"
    and i: "i \<notin> set is" "i < length (lc_entries c)"
  obtains c' where "lru_add_head_idx i c = Inr c'" "links c' (i # is)" "relinked c c'"
proof (cases "is")
  case Nil
  then show thesis
    using l i by (intro that [of "projr (lru_add_head_idx i c)"])
      (auto simp: lru_add_head_idx_def links_def upd_entry_eq Let_def intro!: relinked_upd)
next
  case (Cons f fs)
  let ?e1 = "(lc_entries c)[f := (lc_entries c ! f)\<lparr>ce_prev := Some i\<rparr>]"
  let ?e2 = "?e1[i := (?e1 ! i)\<lparr>ce_prev := None, ce_next := Some f\<rparr>]"
  have f: "lc_first c = Some f" "f < length (lc_entries c)" "f \<noteq> i" using l i Cons by auto
  have eq: "lru_add_head_idx i c = Inr (c\<lparr>lc_entries := ?e2, lc_first := Some i\<rparr>)"
    using f i(2) l Cons by (simp add: lru_add_head_idx_def upd_entry_eq Let_def last_opt_def)
  have "seg ?e1 (Some i) is None"
    using l Cons seg_set_prev [of "lc_entries c" p f fs None "Some i"] by auto
  then have "seg ?e2 (Some i) is None" using i(1) by (simp add: seg_frame)
  then have "links (c\<lparr>lc_entries := ?e2, lc_first := Some i\<rparr>) (i # is)"
    using l i f Cons by (simp add: links_def last_opt_def)
  moreover have "relinked c (c\<lparr>lc_entries := ?e1\<rparr>)" by (rule relinked_upd) simp_all
  then have "relinked c (c\<lparr>lc_entries := ?e1\<rparr>\<lparr>lc_entries := (lc_entries (c\<lparr>lc_entries := ?e1\<rparr>))[i := (?e1 ! i)\<lparr>ce_prev := None, ce_next := Some f\<rparr>]\<rparr>)"
    by (rule relinked_upd) simp_all
  ultimately show thesis using eq by (intro that [OF eq]) simp_all
qed

lemma remove_from_list_links:
  assumes "links c (xs @ i # ys)"
  obtains c' where "lru_remove_from_list i c = Inr c'" "links c' (xs @ ys)" "relinked c c'"
proof -
  let ?es = "lc_entries c"
  have s: "seg ?es None xs (Some i)" "seg ?es (Some i) ys None" and i: "i < length ?es"
      "ce_prev (?es ! i) = last_opt None xs" "ce_next (?es ! i) = hd_opt ys None" and
    d: "distinct (xs @ i # ys)" and e: "lc_first c = hd_opt (xs @ i # ys) None" "lc_last c = last_opt None (xs @ i # ys)"
    using assms by (auto simp: links_def seg_append)
  show thesis
  proof (cases xs rule: rev_cases; cases ys)
    assume c: "xs = []" "ys = []"
    then show thesis using i by (intro that [of "c\<lparr>lc_first := None, lc_last := None\<rparr>"])
      (simp_all add: lru_remove_from_list_def entry_at_def links_def)
  next
    fix k ks assume c: "xs = []" "ys = k # ks"
    let ?es' = "?es[k := (?es ! k)\<lparr>ce_prev := None\<rparr>]"
    have k: "k < length ?es" using s(2) c by simp
    have "seg ?es' None ys None" using seg_set_prev [of ?es "Some i" k ks None None] s(2) c d by simp
    then show thesis using i k c d e
      by (intro that [of "c\<lparr>lc_entries := ?es', lc_first := Some k\<rparr>"])
        (simp_all add: lru_remove_from_list_def entry_at_def upd_entry_eq links_def relinked_upd)
  next
    fix js j assume c: "xs = js @ [j]" "ys = []"
    let ?es' = "?es[j := (?es ! j)\<lparr>ce_next := None\<rparr>]"
    have j: "j < length ?es" using seg_bound [OF s(1), of j] c by simp
    have "seg ?es' None xs None" using seg_set_next [of ?es None js j "Some i" None] s(1) c d by simp
    then show thesis using i j c d e
      by (intro that [of "c\<lparr>lc_entries := ?es', lc_last := Some j\<rparr>"])
        (simp_all add: lru_remove_from_list_def entry_at_def upd_entry_eq links_def relinked_upd)
  next
    fix js j k ks assume c: "xs = js @ [j]" "ys = k # ks"
    let ?es1 = "?es[j := (?es ! j)\<lparr>ce_next := Some k\<rparr>]"
    let ?es2 = "?es1[k := (?es1 ! k)\<lparr>ce_prev := Some j\<rparr>]"
    have jk: "j < length ?es" "k < length ?es" "j \<noteq> k" using seg_bound [OF s(1), of j] s(2) c d by auto
    have "seg ?es1 None xs (Some k)" using seg_set_next [of ?es None js j "Some i" "Some k"] s(1) c d by simp
    then have "seg ?es2 None xs (Some k)" using c d by (subst seg_frame) auto
    moreover have "seg ?es1 (Some i) ys None" using s(2) c d by (subst seg_frame) auto
    then have "seg ?es2 (Some j) ys None" using seg_set_prev [of ?es1 "Some i" k ks None "Some j"] c d by simp
    moreover have "hd_opt ys None = Some k" "last_opt None xs = Some j" using c by simp_all
    ultimately have "seg ?es2 None (xs @ ys) None" by (simp only: seg_append)
    then have "links (c\<lparr>lc_entries := ?es2\<rparr>) (xs @ ys)" using c d e by (simp add: links_def)
    moreover have "relinked c (c\<lparr>lc_entries := ?es2\<rparr>)"
      using relinked_upd [OF relinked_upd [OF relinked_refl, of "(?es ! j)\<lparr>ce_next := Some k\<rparr>" c j], of "(?es1 ! k)\<lparr>ce_prev := Some j\<rparr>" k] by simp
    ultimately show thesis using i jk c
      by (intro that [of "c\<lparr>lc_entries := ?es2\<rparr>"]) (simp_all add: lru_remove_from_list_def entry_at_def upd_entry_eq)
  qed
qed

section \<open>Well-formed caches and their contents\<close>

definition lru_keys :: "('k, 'v) lru_cache \<Rightarrow> nat list \<Rightarrow> 'k list" where
  "lru_keys c is = map (\<lambda>i. ce_key (lc_entries c ! i)) is"

lemma lru_keys_simps: "lru_keys c (xs @ ys) = lru_keys c xs @ lru_keys c ys" "lru_keys c (i # is) = ce_key (lc_entries c ! i) # lru_keys c is"
  by (simp_all add: lru_keys_def)

lemma lru_keys_cong:
  "(\<And>j. j \<in> set is \<Longrightarrow> ce_key (lc_entries c' ! j) = ce_key (lc_entries c ! j)) \<Longrightarrow> lru_keys c' is = lru_keys c is"
  by (simp add: lru_keys_def)

lemma set_lru_keys: "set (lru_keys c is) = (\<lambda>i. ce_key (lc_entries c ! i)) ` set is"
  by (simp add: lru_keys_def)

definition lru_wf :: "('k, 'v) lru_cache \<Rightarrow> nat list \<Rightarrow> bool" where
  "lru_wf c is \<longleftrightarrow> links c is \<and> distinct (lc_free_indexes c) \<and> set is \<inter> set (lc_free_indexes c) = {} \<and>
     set is \<union> set (lc_free_indexes c) = {..<length (lc_entries c)} \<and>
     distinct (lru_keys c is) \<and>
     (\<forall>k i. fmlookup (lc_table c) k = Some i \<longleftrightarrow> i \<in> set is \<and> ce_key (lc_entries c ! i) = k) \<and>
     (\<forall>i\<in>set is. ce_value (lc_entries c ! i) \<noteq> None)"

definition lru_pairs :: "('k, 'v) lru_cache \<Rightarrow> nat list \<Rightarrow> ('k \<times> 'v) list" where
  "lru_pairs c is = map (\<lambda>i. (ce_key (lc_entries c ! i), the (ce_value (lc_entries c ! i)))) is"

definition lru_rel :: "('k, 'v) lru_cache \<Rightarrow> ('k \<times> 'v) list \<Rightarrow> bool" where
  "lru_rel c ps \<longleftrightarrow> (\<exists>is. lru_wf c is \<and> ps = lru_pairs c is)"

lemma relinked_entry:
  assumes "relinked c c'"
  shows "length (lc_entries c') = length (lc_entries c)"
    and "i < length (lc_entries c) \<Longrightarrow> ce_key (lc_entries c' ! i) = ce_key (lc_entries c ! i)"
    and "i < length (lc_entries c) \<Longrightarrow> ce_value (lc_entries c' ! i) = ce_value (lc_entries c ! i)"
proof -
  show len: "length (lc_entries c') = length (lc_entries c)"
    using assms unfolding relinked_def by (metis length_map)
  assume i: "i < length (lc_entries c)"
  show "ce_key (lc_entries c' ! i) = ce_key (lc_entries c ! i)" "ce_value (lc_entries c' ! i) = ce_value (lc_entries c ! i)"
    using assms i len unfolding relinked_def by (metis nth_map)+
qed

lemma lru_wf_links: "lru_wf c is \<Longrightarrow> links c is"
  and lru_wf_bound: "lru_wf c is \<Longrightarrow> i \<in> set is \<Longrightarrow> i < length (lc_entries c)"
  by (auto simp: lru_wf_def)

text \<open>Relinking the same entries in another order keeps the cache well-formed, and the pairs.\<close>

lemma relinked_wf:
  assumes wf: "lru_wf c is" and r: "relinked c c'" and l: "links c' js" and js: "set js = set is"
  shows "lru_wf c' js" "lru_pairs c' js = lru_pairs c js"
proof -
  have len: "length (lc_entries c') = length (lc_entries c)" by (rule relinked_entry(1) [OF r])
  have bound: "i < length (lc_entries c)" if "i \<in> set js" for i using lru_wf_bound [OF wf] that js by simp
  note key = relinked_entry(2) [OF r bound] and val = relinked_entry(3) [OF r bound]
  have inj: "inj_on (\<lambda>i. ce_key (lc_entries c ! i)) (set js)"
    using wf js by (simp add: lru_wf_def lru_keys_def distinct_map)
  then have "distinct (lru_keys c' js)"
    using l key by (simp add: lru_keys_def distinct_map links_def inj_on_def)
  moreover have "fmlookup (lc_table c') k = Some i \<longleftrightarrow> i \<in> set js \<and> ce_key (lc_entries c' ! i) = k" for k i
    using wf r key [of i] js by (auto simp: lru_wf_def relinked_def)
  ultimately show "lru_wf c' js"
    using wf r l js len val by (simp add: lru_wf_def relinked_def)
  show "lru_pairs c' js = lru_pairs c js"
    using key val by (simp add: lru_pairs_def)
qed

lemma lru_lookup:
  assumes "lru_wf c is" "fmlookup (lc_table c) k = Some i"
  obtains xs ys where "is = xs @ i # ys" "ce_key (lc_entries c ! i) = k"
proof -
  have "i \<in> set is" "ce_key (lc_entries c ! i) = k" using assms by (auto simp: lru_wf_def)
  then show thesis using that by (meson split_list)
qed

lemma lru_contains:
  assumes "lru_wf c is"
  shows "lru_contains_key k c \<longleftrightarrow> k \<in> fst ` set (lru_pairs c is)"
  using assms by (fastforce simp: lru_contains_key_def lru_wf_def lru_pairs_def)

lemma lru_len_eq:
  assumes "lru_wf c is"
  shows "lru_len c = length is"
proof -
  have "fset (fmdom (lc_table c)) = (\<lambda>i. ce_key (lc_entries c ! i)) ` set is"
    using assms by (auto simp: lru_wf_def fmlookup_dom_iff image_iff)
  moreover have "card \<dots> = length is"
    using assms by (metis distinct_card length_map lru_keys_def lru_wf_def set_lru_keys)
  ultimately show ?thesis by (simp add: lru_len_def fcard.rep_eq)
qed

text \<open>Promoting a key.\<close>

lemma access_wf:
  assumes wf: "lru_wf c (xs @ i # ys)" and k: "fmlookup (lc_table c) k = Some i"
  obtains c' where "lru_access k c = Inr c'" "lru_wf c' (i # xs @ ys)" "lru_pairs c' (i # xs @ ys) = lru_pairs c (i # xs @ ys)"
    "relinked c c'"
proof -
  obtain c1 where c1: "lru_remove_from_list i c = Inr c1" "links c1 (xs @ ys)" "relinked c c1"
    by (rule remove_from_list_links [OF lru_wf_links [OF wf]])
  have i: "i \<notin> set (xs @ ys)" "i < length (lc_entries c1)"
    using wf relinked_entry(1) [OF c1(3)] by (auto simp: lru_wf_def links_def)
  obtain c2 where c2: "lru_add_head_idx i c1 = Inr c2" "links c2 (i # xs @ ys)" "relinked c1 c2"
    by (rule add_head_links [of c1 None "xs @ ys" i]) (use c1(2) i in \<open>auto simp: links_def\<close>)
  note r = relinked_trans [OF c1(3) c2(3)]
  show thesis
    using c1(1) c2(1) k by (intro that [OF _ relinked_wf [OF wf r c2(2)] r]) (simp_all add: lru_access_def)
qed

text \<open>Unlinked entries go to the free list and out of the table.\<close>

lemma drop_wf:
  assumes wf: "lru_wf c (xs @ i # ys)" and l: "links c1 (xs @ ys)" and r: "relinked (c\<lparr>lc_table := t\<rparr>) c1"
    and k: "ce_key (lc_entries c ! i) = k"
    and c': "c' = c1\<lparr>lc_free_indexes := lc_free_indexes c1 @ [i], lc_table := fmdrop k (lc_table c)\<rparr>"
  shows "lru_wf c' (xs @ ys)" "lru_pairs c' (xs @ ys) = lru_pairs c (xs @ ys)"
proof -
  have len: "length (lc_entries c') = length (lc_entries c)" using relinked_entry(1) [OF r] c' by simp
  have bound: "j < length (lc_entries c)" if "j \<in> set (xs @ i # ys)" for j using lru_wf_bound [OF wf that] .
  have key: "ce_key (lc_entries c' ! j) = ce_key (lc_entries c ! j)" and val: "ce_value (lc_entries c' ! j) = ce_value (lc_entries c ! j)"
    if "j \<in> set (xs @ i # ys)" for j
    using relinked_entry(2,3) [OF r, of j] bound [OF that] c' by simp_all
  have free: "lc_free_indexes c' = lc_free_indexes c @ [i]" using r c' by (simp add: relinked_def)
  have "k \<notin> set (lru_keys c (xs @ ys))" using wf k by (simp add: lru_wf_def lru_keys_simps)
  then have ik: "ce_key (lc_entries c ! j) \<noteq> k" if "j \<in> set (xs @ ys)" for j
    using that unfolding set_lru_keys by (metis image_eqI)
  have "fmlookup (lc_table c') k' = Some j \<longleftrightarrow> j \<in> set (xs @ ys) \<and> ce_key (lc_entries c' ! j) = k'" for k' j
  proof -
    have "fmlookup (lc_table c) k' = Some j \<longleftrightarrow> j \<in> set (xs @ i # ys) \<and> ce_key (lc_entries c ! j) = k'"
      using wf unfolding lru_wf_def by blast
    then show ?thesis using c' k ik [of j] key [of j] by auto
  qed
  moreover have "lru_keys c' (xs @ ys) = lru_keys c (xs @ ys)" using key by (intro lru_keys_cong) simp
  then have "distinct (lru_keys c' (xs @ ys))" using wf unfolding lru_wf_def by (simp add: lru_keys_simps)
  moreover have "links c' (xs @ ys)" using l c' by (simp add: links_def)
  moreover have "\<forall>j\<in>set (xs @ ys). ce_value (lc_entries c' ! j) \<noteq> None" using wf val by (auto simp: lru_wf_def)
  ultimately show "lru_wf c' (xs @ ys)"
    using wf len free unfolding lru_wf_def links_def by auto
  show "lru_pairs c' (xs @ ys) = lru_pairs c (xs @ ys)" using key val by (simp add: lru_pairs_def)
qed

lemma clear_free_wf:
  assumes wf: "lru_wf c is" and i: "i \<notin> set is"
  shows "lru_wf (c\<lparr>lc_entries := (lc_entries c)[i := (lc_entries c ! i)\<lparr>ce_value := None\<rparr>]\<rparr>) is"
    "lru_pairs (c\<lparr>lc_entries := (lc_entries c)[i := (lc_entries c ! i)\<lparr>ce_value := None\<rparr>]\<rparr>) is = lru_pairs c is"
proof -
  let ?es = "(lc_entries c)[i := (lc_entries c ! i)\<lparr>ce_value := None\<rparr>]"
  have e: "?es ! j = lc_entries c ! j" if "j \<in> set is" for j using that i by (cases "j = i") auto
  then have "lru_keys (c\<lparr>lc_entries := ?es\<rparr>) is = lru_keys c is" by (intro lru_keys_cong) simp
  moreover have "seg ?es None is None" using wf i by (simp add: seg_frame lru_wf_def links_def)
  ultimately show "lru_wf (c\<lparr>lc_entries := ?es\<rparr>) is"
    using wf e by (auto simp: lru_wf_def links_def)
  show "lru_pairs (c\<lparr>lc_entries := ?es\<rparr>) is = lru_pairs c is" using e by (simp add: lru_pairs_def)
qed

text \<open>Storing a value at an index in use.\<close>

lemma set_value_wf:
  assumes wf: "lru_wf c (i # is)"
  shows "lru_wf (c\<lparr>lc_entries := (lc_entries c)[i := (lc_entries c ! i)\<lparr>ce_value := Some v\<rparr>]\<rparr>) (i # is)"
    "lru_pairs (c\<lparr>lc_entries := (lc_entries c)[i := (lc_entries c ! i)\<lparr>ce_value := Some v\<rparr>]\<rparr>) (i # is)
      = (ce_key (lc_entries c ! i), v) # lru_pairs c is"
proof -
  let ?es = "(lc_entries c)[i := (lc_entries c ! i)\<lparr>ce_value := Some v\<rparr>]"
  have i: "i < length (lc_entries c)" "i \<notin> set is" using wf by (auto simp: lru_wf_def links_def)
  have e: "?es ! j = lc_entries c ! j" if "j \<in> set is" for j using that i by (cases "j = i") auto
  have key: "ce_key (?es ! j) = ce_key (lc_entries c ! j)" for j using i by (cases "j = i") auto
  then have "lru_keys (c\<lparr>lc_entries := ?es\<rparr>) (i # is) = lru_keys c (i # is)" by (intro lru_keys_cong) simp
  moreover have "seg ?es None (i # is) None" using wf i by (auto simp: seg_frame lru_wf_def links_def)
  moreover have "ce_value (?es ! j) \<noteq> None" if "j \<in> set (i # is)" for j
    using wf i that by (cases "j = i") (auto simp: lru_wf_def)
  ultimately show "lru_wf (c\<lparr>lc_entries := ?es\<rparr>) (i # is)"
    using wf key by (simp add: lru_wf_def links_def)
  show "lru_pairs (c\<lparr>lc_entries := ?es\<rparr>) (i # is) = (ce_key (lc_entries c ! i), v) # lru_pairs c is"
    using i e by (simp add: lru_pairs_def)
qed

text \<open>A new entry, at a free index or at the end.\<close>

lemma seg_snoc: "seg es p is n \<Longrightarrow> seg (es @ [e]) p is n"
  by (induction "is" arbitrary: p) (auto simp: nth_append)

lemma put_new_links:
  assumes wf: "lru_wf c is"
    and idx: "(idx, c1) = (if lc_free_indexes c = [] then (length (lc_entries c), c)
      else (List.last (lc_free_indexes c), c\<lparr>lc_free_indexes := butlast (lc_free_indexes c)\<rparr>))"
  obtains c' where "lru_put_new k v c = Inr (c'\<lparr>lc_table := fmupd k idx (lc_table c)\<rparr>)" "links c' (idx # is)"
    "lc_free_indexes c' = lc_free_indexes c1" "lc_capacity c' = lc_capacity c"
    "length (lc_entries c') = max (length (lc_entries c)) (Suc idx)"
    "ce_key (lc_entries c' ! idx) = k" "ce_value (lc_entries c' ! idx) = Some v"
    "\<And>j. j \<in> set is \<Longrightarrow> ce_key (lc_entries c' ! j) = ce_key (lc_entries c ! j) \<and> ce_value (lc_entries c' ! j) = ce_value (lc_entries c ! j)"
proof -
  let ?es = "lc_entries c"
  have l: "seg ?es None is None" "lc_first c = hd_opt is None" "lc_last c = last_opt None is" "distinct is"
    using wf by (auto simp: lru_wf_def links_def)
  have free: "lc_free_indexes c \<noteq> [] \<Longrightarrow> List.last (lc_free_indexes c) \<in> set (lc_free_indexes c)" by simp
  have "set (lc_free_indexes c) \<subseteq> {..<length ?es}" using wf by (auto simp: lru_wf_def)
  then have i: "idx \<notin> set is" "idx \<le> length ?es" and c1: "lc_entries c1 = ?es" "lc_first c1 = hd_opt is None" "lc_last c1 = last_opt None is"
      "lc_table c1 = lc_table c" "lc_capacity c1 = lc_capacity c"
    using wf idx l(2,3) free by (auto simp: lru_wf_def subset_iff less_imp_le split: if_splits)
  have bound: "j < length ?es" if "j \<in> set is" for j using lru_wf_bound [OF wf that] .
  obtain es1 where head: "(case lc_first c1 of Some ent \<Rightarrow> upd_entry ent (\<lambda>e. e\<lparr>ce_prev := Some idx\<rparr>) c1 | None \<Rightarrow> Inr c1) = Inr (c1\<lparr>lc_entries := es1\<rparr>)"
    and seg1: "seg es1 (Some idx) is None" and len1: "length es1 = length ?es"
    and data1: "\<And>j. ce_key (es1 ! j) = ce_key (?es ! j) \<and> ce_value (es1 ! j) = ce_value (?es ! j)"
  proof (cases "is")
    case Nil
    then show thesis using c1 by (intro that [of ?es]) simp_all
  next
    case (Cons f fs)
    let ?es1 = "?es[f := (?es ! f)\<lparr>ce_prev := Some idx\<rparr>]"
    have "seg ?es1 (Some idx) is None" using l(1,4) seg_set_prev [of ?es None f fs None "Some idx"] Cons by simp
    moreover have "ce_key (?es1 ! j) = ce_key (?es ! j) \<and> ce_value (?es1 ! j) = ce_value (?es ! j)" for j
      using bound [of f] Cons by (cases "j = f") simp_all
    ultimately show thesis using c1 bound Cons by (intro that [of ?es1]) (simp_all add: upd_entry_eq)
  qed
  let ?ent = "\<lparr>ce_key = k, ce_value = Some v, ce_next = hd_opt is None, ce_prev = None\<rparr>"
  obtain es2 where put: "(if idx = length es1 then Inr (c1\<lparr>lc_entries := es1 @ [?ent]\<rparr>)
      else upd_entry idx (\<lambda>_. ?ent) (c1\<lparr>lc_entries := es1\<rparr>)) = Inr (c1\<lparr>lc_entries := es2\<rparr>)"
    and seg2: "seg es2 (Some idx) is None" and len2: "length es2 = max (length ?es) (Suc idx)"
    and new: "es2 ! idx = ?ent" and old: "\<And>j. j \<in> set is \<Longrightarrow> es2 ! j = es1 ! j"
  proof (cases "idx = length es1")
    case True
    have "(es1 @ [?ent]) ! j = es1 ! j" if "j \<in> set is" for j using bound [OF that] len1 by (simp add: nth_append)
    moreover have "(es1 @ [?ent]) ! idx = ?ent" unfolding True by (rule nth_append_length)
    ultimately show thesis using True seg_snoc [OF seg1] len1 by (intro that [of "es1 @ [?ent]"]) simp_all
  next
    case False
    have "es1[idx := ?ent] ! j = es1 ! j" if "j \<in> set is" for j using that i(1) by (cases "j = idx") auto
    then show thesis using False seg1 i len1 by (intro that [of "es1[idx := ?ent]"]) (auto simp: upd_entry_eq seg_frame)
  qed
  have lt: "idx < length es2" using len2 by simp
  obtain c4 where c4: "lru_add_head_idx idx (c1\<lparr>lc_entries := es2\<rparr>) = Inr c4" "links c4 (idx # is)" "relinked (c1\<lparr>lc_entries := es2\<rparr>) c4"
    by (rule add_head_links [of "c1\<lparr>lc_entries := es2\<rparr>" "Some idx" "is" idx]) (use seg2 c1 l i lt in auto)
  have "lru_put_new k v c = Inr (c4\<lparr>lc_table := fmupd k idx (lc_table c)\<rparr>)"
    using put c4 c1 unfolding lru_put_new_def idx [symmetric] prod.case Let_def head by (cases "idx = length es1") (simp_all add: relinked_def)
  moreover have "lc_free_indexes c4 = lc_free_indexes c1" "lc_capacity c4 = lc_capacity c"
    using c4(3) c1 by (simp_all add: relinked_def)
  moreover have "length (lc_entries c4) = max (length ?es) (Suc idx)" using relinked_entry(1) [OF c4(3)] len2 by simp
  moreover have "ce_key (lc_entries c4 ! idx) = k" "ce_value (lc_entries c4 ! idx) = Some v"
    using relinked_entry(2,3) [OF c4(3), of idx] lt new by simp_all
  moreover have "ce_key (lc_entries c4 ! j) = ce_key (?es ! j) \<and> ce_value (lc_entries c4 ! j) = ce_value (?es ! j)" if "j \<in> set is" for j
    using relinked_entry(2,3) [OF c4(3), of j] bound [OF that] len2 old [OF that] data1 [of j] by simp
  ultimately show thesis using c4(2) by (intro that [of c4])
qed

lemma put_new_wf:
  assumes wf: "lru_wf c is" and k: "\<not> lru_contains_key k c"
  obtains c' idx where "lru_put_new k v c = Inr c'" "lru_wf c' (idx # is)" "lru_pairs c' (idx # is) = (k, v) # lru_pairs c is"
    "lc_capacity c' = lc_capacity c"
proof -
  obtain idx c1 where idx: "(idx, c1) = (if lc_free_indexes c = [] then (length (lc_entries c), c)
      else (List.last (lc_free_indexes c), c\<lparr>lc_free_indexes := butlast (lc_free_indexes c)\<rparr>))" by (metis surj_pair)
  obtain c' where c': "lru_put_new k v c = Inr (c'\<lparr>lc_table := fmupd k idx (lc_table c)\<rparr>)" "links c' (idx # is)"
    "lc_free_indexes c' = lc_free_indexes c1" "lc_capacity c' = lc_capacity c"
    "length (lc_entries c') = max (length (lc_entries c)) (Suc idx)"
    "ce_key (lc_entries c' ! idx) = k" "ce_value (lc_entries c' ! idx) = Some v"
    "\<And>j. j \<in> set is \<Longrightarrow> ce_key (lc_entries c' ! j) = ce_key (lc_entries c ! j) \<and> ce_value (lc_entries c' ! j) = ce_value (lc_entries c ! j)"
    by (rule put_new_links [OF wf idx]) blast
  let ?c = "c'\<lparr>lc_table := fmupd k idx (lc_table c)\<rparr>"
  have fr: "distinct (lc_free_indexes c)" "set is \<inter> set (lc_free_indexes c) = {}" "set is \<union> set (lc_free_indexes c) = {..<length (lc_entries c)}"
    using wf by (simp_all add: lru_wf_def)
  have table: "fmlookup (lc_table c) k' = Some i \<longleftrightarrow> i \<in> set is \<and> ce_key (lc_entries c ! i) = k'" for k' i
    using wf by (simp add: lru_wf_def)
  then have fresh: "\<forall>i\<in>set is. ce_key (lc_entries c ! i) \<noteq> k" using k by (auto simp: lru_contains_key_def)
  have i: "idx \<notin> set is" using c'(2) by (simp add: links_def)
  have frees: "distinct (lc_free_indexes c1) \<and> set (idx # is) \<inter> set (lc_free_indexes c1) = {} \<and>
      set (idx # is) \<union> set (lc_free_indexes c1) = {..<length (lc_entries c')}"
  proof (cases "lc_free_indexes c" rule: rev_cases)
    case Nil
    then show ?thesis using idx fr c'(5) by (auto simp: lessThan_Suc)
  next
    case (snoc fs f)
    then have "idx = f" "lc_free_indexes c1 = fs" "f < length (lc_entries c)" using idx fr(3) by auto
    then show ?thesis using snoc fr c'(5) by (auto simp: max_def)
  qed
  have "lru_wf ?c (idx # is)"
    unfolding lru_wf_def
  proof (intro conjI allI)
    show "links ?c (idx # is)" using c'(2) by (simp add: links_def)
    have "lru_keys ?c is = lru_keys c is" using c'(8) by (intro lru_keys_cong) simp
    then show "distinct (lru_keys ?c (idx # is))"
      using wf fresh c'(6) by (auto simp: lru_wf_def lru_keys_simps set_lru_keys)
    show "fmlookup (lc_table ?c) k' = Some j \<longleftrightarrow> j \<in> set (idx # is) \<and> ce_key (lc_entries ?c ! j) = k'" for k' j
      using table [of k' j] fresh i c'(6) c'(8) [of j] by auto
    show "\<forall>j\<in>set (idx # is). ce_value (lc_entries ?c ! j) \<noteq> None" using wf c'(7,8) by (auto simp: lru_wf_def)
  qed (use frees c'(3) in auto)
  moreover have "lru_pairs ?c (idx # is) = (k, v) # lru_pairs c is" using c'(6,7,8) by (simp add: lru_pairs_def)
  ultimately show thesis using c'(1,4) by (intro that [of ?c idx]) simp_all
qed

section \<open>The cache as a list in order of use\<close>

datatype ('k, 'v) lru_op = Insert 'k 'v | Remove 'k | Peek 'k | Get 'k | Get_Mut 'k "'v \<Rightarrow> 'v" | Remove_Last

datatype ('k, 'v) lru_out = Value "'v option" | Key "'k option" | Written

definition lru_step :: "('k, 'v) lru_op \<Rightarrow> ('k, 'v) lru_cache \<Rightarrow> (('k, 'v) lru_out \<times> ('k, 'v) lru_cache) result" where
  "lru_step op c =
     (case op of
        Insert k v \<Rightarrow> rbind (lru_insert k v c) (\<lambda>(r, c'). Inr (Value r, c'))
      | Remove k \<Rightarrow> rbind (lru_remove k c) (\<lambda>(r, c'). Inr (Value r, c'))
      | Peek k \<Rightarrow> rbind (lru_peek k c) (\<lambda>r. Inr (Value r, c))
      | Get k \<Rightarrow> rbind (lru_get k c) (\<lambda>(r, c'). Inr (Value r, c'))
      | Get_Mut k f \<Rightarrow> rbind (lru_get_mut k f c) (\<lambda>c'. Inr (Written, c'))
      | Remove_Last \<Rightarrow> rbind (lru_remove_last c) (\<lambda>(r, c'). Inr (Key r, c')))"

abbreviation without :: "'k \<Rightarrow> ('k \<times> 'v) list \<Rightarrow> ('k \<times> 'v) list" where
  "without k \<equiv> filter (\<lambda>p. fst p \<noteq> k)"

abbreviation promote :: "'k \<Rightarrow> ('v \<Rightarrow> 'v) \<Rightarrow> ('k \<times> 'v) list \<Rightarrow> ('k \<times> 'v) list" where
  "promote k f ps \<equiv> (case map_of ps k of None \<Rightarrow> ps | Some v \<Rightarrow> (k, f v) # without k ps)"

definition spec_step :: "nat \<Rightarrow> ('k, 'v) lru_op \<Rightarrow> ('k \<times> 'v) list \<Rightarrow> ('k, 'v) lru_out \<times> ('k \<times> 'v) list" where
  "spec_step cap op ps =
     (case op of
        Insert k v \<Rightarrow>
          (Value (map_of ps k), (k, v) # (if map_of ps k \<noteq> None then without k ps else if length ps = cap then butlast ps else ps))
      | Remove k \<Rightarrow> (Value (map_of ps k), without k ps)
      | Peek k \<Rightarrow> (Value (map_of ps k), ps)
      | Get k \<Rightarrow> (Value (map_of ps k), promote k id ps)
      | Get_Mut k f \<Rightarrow> (Written, promote k f ps)
      | Remove_Last \<Rightarrow> (Key (if ps = [] then None else Some (fst (List.last ps))), butlast ps))"

lemma lru_pairs_split:
  assumes "lru_wf c (xs @ i # ys)" "ce_key (lc_entries c ! i) = k"
  shows "map_of (lru_pairs c (xs @ i # ys)) k = ce_value (lc_entries c ! i)"
    "without k (lru_pairs c (xs @ i # ys)) = lru_pairs c (xs @ ys)" "ce_value (lc_entries c ! i) \<noteq> None"
proof -
  have "k \<notin> set (lru_keys c xs)" "k \<notin> set (lru_keys c ys)" and v: "ce_value (lc_entries c ! i) \<noteq> None"
    using assms by (auto simp: lru_wf_def lru_keys_simps)
  then have n: "k \<notin> fst ` set (lru_pairs c xs)" "\<forall>p\<in>set (lru_pairs c (xs @ ys)). fst p \<noteq> k"
    by (auto simp: lru_pairs_def set_lru_keys)
  have "map_of (lru_pairs c xs) k = None" using n(1) by (simp add: map_of_eq_None_iff)
  then show "map_of (lru_pairs c (xs @ i # ys)) k = ce_value (lc_entries c ! i)"
    using v assms(2) by (auto simp: lru_pairs_def map_add_def)
  show "without k (lru_pairs c (xs @ i # ys)) = lru_pairs c (xs @ ys)"
    using n(2) assms(2) by (auto simp: lru_pairs_def filter_id_conv)
  show "ce_value (lc_entries c ! i) \<noteq> None" by (rule v)
qed

lemma lru_absent:
  assumes "lru_wf c is" "fmlookup (lc_table c) k = None"
  shows "map_of (lru_pairs c is) k = None" "without k (lru_pairs c is) = lru_pairs c is"
proof -
  have "k \<notin> fst ` set (lru_pairs c is)" using lru_contains [OF assms(1), of k] assms(2) by (simp add: lru_contains_key_def)
  then show "map_of (lru_pairs c is) k = None" "without k (lru_pairs c is) = lru_pairs c is"
    by (auto simp: map_of_eq_None_iff filter_id_conv)
qed

text \<open>One lemma per operation: it succeeds, and returns and leaves what the list says.\<close>

lemma lru_get_mut_rel:
  assumes "lru_wf c is"
  obtains c' js where "lru_get_mut k f c = Inr c'" "lru_wf c' js" "lru_pairs c' js = promote k f (lru_pairs c is)" "lc_capacity c' = lc_capacity c"
proof (cases "fmlookup (lc_table c) k")
  case None
  then show thesis
    using assms lru_absent [OF assms None] by (intro that [of c "is"]) (simp_all add: lru_get_mut_def lru_contains_key_def)
next
  case (Some i)
  obtain xs ys where sp': "is = xs @ i # ys" "ce_key (lc_entries c ! i) = k" by (rule lru_lookup [OF assms Some])
  obtain c1 where c1: "lru_access k c = Inr c1" "lru_wf c1 (i # xs @ ys)" "lru_pairs c1 (i # xs @ ys) = lru_pairs c (i # xs @ ys)" "relinked c c1"
    using access_wf [OF assms [unfolded sp'(1)] Some] by metis
  note sp = lru_pairs_split [OF assms [unfolded sp'(1)] sp'(2)]
  obtain v where v: "ce_value (lc_entries c ! i) = Some v" using sp(3) by auto
  have i: "i < length (lc_entries c)" "i < length (lc_entries c1)" using lru_wf_bound [OF assms, of i] lru_wf_bound [OF c1(2), of i] sp'(1) by auto
  have c1i: "ce_value (lc_entries c1 ! i) = Some v" "ce_key (lc_entries c1 ! i) = k" "fmlookup (lc_table c1) k = Some i"
    using relinked_entry(2,3) [OF c1(4) i(1)] v sp'(2) c1(4) Some by (simp_all add: relinked_def)
  note sv = set_value_wf [OF c1(2), of "f v"]
  have "lru_pairs c1 (xs @ ys) = lru_pairs c (xs @ ys)" using c1(3) by (simp add: lru_pairs_def)
  then show thesis
    using c1(1,4) c1i i Some sv sp(1,2) v sp'(1)
    by (intro that [OF _ sv(1)]) (simp_all add: lru_get_mut_def lru_contains_key_def upd_entry_eq relinked_def)
qed

lemma lru_get_rel:
  assumes "lru_wf c is"
  obtains c' js where "lru_get k c = Inr (map_of (lru_pairs c is) k, c')" "lru_wf c' js" "lru_pairs c' js = promote k id (lru_pairs c is)"
    "lc_capacity c' = lc_capacity c"
proof (cases "fmlookup (lc_table c) k")
  case None
  then show thesis
    using assms lru_absent [OF assms None] by (intro that [of c "is"]) (simp_all add: lru_get_def lru_peek_def lru_contains_key_def)
next
  case (Some i)
  obtain xs ys where sp': "is = xs @ i # ys" "ce_key (lc_entries c ! i) = k" by (rule lru_lookup [OF assms Some])
  obtain c1 where c1: "lru_access k c = Inr c1" "lru_wf c1 (i # xs @ ys)" "lru_pairs c1 (i # xs @ ys) = lru_pairs c (i # xs @ ys)" "relinked c c1"
    using access_wf [OF assms [unfolded sp'(1)] Some] by metis
  note sp = lru_pairs_split [OF assms [unfolded sp'(1)] sp'(2)]
  have i: "i < length (lc_entries c)" "i < length (lc_entries c1)" using lru_wf_bound [OF assms, of i] lru_wf_bound [OF c1(2), of i] sp'(1) by auto
  have "ce_value (lc_entries c1 ! i) = ce_value (lc_entries c ! i)" "fmlookup (lc_table c1) k = Some i" "lc_capacity c1 = lc_capacity c"
    using relinked_entry(3) [OF c1(4) i(1)] c1(4) Some by (simp_all add: relinked_def)
  then show thesis
    using c1 i Some sp sp' by (intro that [OF _ c1(2)]) (auto simp: lru_get_def lru_peek_def lru_contains_key_def entry_at_def lru_pairs_def)
qed

lemma lru_peek_rel:
  assumes "lru_wf c is"
  shows "lru_peek k c = Inr (map_of (lru_pairs c is) k)"
proof (cases "fmlookup (lc_table c) k")
  case None
  then show ?thesis using lru_absent [OF assms None] by (simp add: lru_peek_def)
next
  case (Some i)
  obtain xs ys where sp': "is = xs @ i # ys" "ce_key (lc_entries c ! i) = k" by (rule lru_lookup [OF assms Some])
  then show ?thesis
    using Some lru_wf_bound [OF assms, of i] lru_pairs_split [OF assms [unfolded sp'(1)] sp'(2)] by (simp add: lru_peek_def entry_at_def)
qed

lemma lru_remove_rel:
  assumes "lru_wf c is"
  obtains c' js where "lru_remove k c = Inr (map_of (lru_pairs c is) k, c')" "lru_wf c' js" "lru_pairs c' js = without k (lru_pairs c is)"
    "lc_capacity c' = lc_capacity c"
proof (cases "fmlookup (lc_table c) k")
  case None
  then show thesis using assms lru_absent [OF assms None] by (intro that [of c "is"]) (simp_all add: lru_remove_def)
next
  case (Some i)
  obtain xs ys where sp': "is = xs @ i # ys" "ce_key (lc_entries c ! i) = k" by (rule lru_lookup [OF assms Some])
  note wf = assms [unfolded sp'(1)]
  let ?c0 = "c\<lparr>lc_table := fmdrop k (lc_table c)\<rparr>"
  have "links ?c0 (xs @ i # ys)" using lru_wf_links [OF wf] by (simp add: links_def)
  then obtain c1 where c1: "lru_remove_from_list i ?c0 = Inr c1" "links c1 (xs @ ys)" "relinked ?c0 c1"
    by (rule remove_from_list_links)
  let ?c2 = "c1\<lparr>lc_free_indexes := lc_free_indexes c1 @ [i]\<rparr>"
  have t: "lc_table c1 = fmdrop k (lc_table c)" "lc_capacity c1 = lc_capacity c" using c1(3) by (simp_all add: relinked_def)
  then have "?c2 = c1\<lparr>lc_free_indexes := lc_free_indexes c1 @ [i], lc_table := fmdrop k (lc_table c)\<rparr>" by (cases c1) simp
  note d = drop_wf [OF wf c1(2,3) sp'(2) this]
  have i: "i < length (lc_entries c)" "i \<notin> set (xs @ ys)" using lru_wf_bound [OF wf, of i] lru_wf_links [OF wf] by (auto simp: links_def)
  have ci: "ce_value (lc_entries c1 ! i) = ce_value (lc_entries c ! i)" "i < length (lc_entries c1)"
    using relinked_entry(1,3) [OF c1(3)] i(1) by simp_all
  note sp = lru_pairs_split [OF wf sp'(2)]
  note cl = clear_free_wf [OF d(1) i(2)]
  show thesis
    using c1(1) ci Some sp t(2) sp'(1) cl d(2)
    by (intro that [OF _ cl(1)]) (auto simp: lru_remove_def entry_at_def upd_entry_eq Let_def)
qed

lemma lru_remove_last_rel:
  assumes "lru_wf c is"
  obtains c' where "lru_remove_last c = Inr (if is = [] then None else Some (fst (List.last (lru_pairs c is))), c')" "lru_wf c' (butlast is)"
    "lru_pairs c' (butlast is) = butlast (lru_pairs c is)" "lc_capacity c' = lc_capacity c"
proof (cases "is" rule: rev_cases)
  case Nil
  then show thesis
    using assms by (intro that [of c]) (auto simp: lru_remove_last_def lru_wf_def links_def lru_pairs_def)
next
  case (snoc xs i)
  note wf = assms [unfolded snoc]
  let ?k = "ce_key (lc_entries c ! i)"
  obtain c1 where c1: "lru_remove_from_list i c = Inr c1" "links c1 xs" "relinked c c1"
    using remove_from_list_links [OF lru_wf_links [OF wf]] by (metis append_Nil2)
  let ?c2 = "c1\<lparr>lc_free_indexes := lc_free_indexes c1 @ [i], lc_table := fmdrop ?k (lc_table c)\<rparr>"
  have d: "lru_wf ?c2 xs" "lru_pairs ?c2 xs = lru_pairs c xs"
    using drop_wf [of c xs i "[]" c1 "lc_table c" ?k ?c2] wf c1(2,3) by simp_all
  have i: "i < length (lc_entries c)" using lru_wf_bound [OF wf, of i] by simp
  have k: "ce_key (lc_entries c1 ! i) = ?k" "i < length (lc_entries c1)" "lc_table c1 = lc_table c" "lc_capacity c1 = lc_capacity c"
    using relinked_entry(1,2) [OF c1(3)] i c1(3) by (simp_all add: relinked_def)
  have tk: "fmlookup (lc_table c) ?k = Some i" using wf by (simp add: lru_wf_def)
  have l: "lc_last c = Some i" using lru_wf_links [OF wf] by (simp add: links_def)
  have "lc_first ?c2 = None" if "lc_last ?c2 = None" using c1(2) that by (auto simp: links_def last_opt_def split: if_splits)
  then have "(if lc_last ?c2 = None then ?c2\<lparr>lc_first := None\<rparr> else ?c2) = ?c2" by (cases c1) auto
  then have "lru_remove_last c = Inr (Some ?k, ?c2)"
    using c1(1) k tk l by (simp add: lru_remove_last_def entry_at_def Let_def)
  then show thesis using d k(4) snoc by (intro that [of ?c2]) (simp_all add: lru_pairs_def)
qed

lemma lru_insert_rel:
  assumes "lru_wf c is"
  obtains c' js where "lru_insert k v c = Inr (map_of (lru_pairs c is) k, c')" "lru_wf c' js"
    "lru_pairs c' js = (k, v) # (if map_of (lru_pairs c is) k \<noteq> None then without k (lru_pairs c is)
       else if length (lru_pairs c is) = lc_capacity c then butlast (lru_pairs c is) else lru_pairs c is)"
    "lc_capacity c' = lc_capacity c"
proof (cases "fmlookup (lc_table c) k")
  case (Some i)
  obtain xs ys where sp': "is = xs @ i # ys" "ce_key (lc_entries c ! i) = k" by (rule lru_lookup [OF assms Some])
  note wf = assms [unfolded sp'(1)]
  obtain c1 where c1: "lru_access k c = Inr c1" "lru_wf c1 (i # xs @ ys)" "lru_pairs c1 (i # xs @ ys) = lru_pairs c (i # xs @ ys)" "relinked c c1"
    using access_wf [OF wf Some] by metis
  note sp = lru_pairs_split [OF wf sp'(2)] and sv = set_value_wf [OF c1(2), of v]
  have i: "i < length (lc_entries c)" "i < length (lc_entries c1)" using lru_wf_bound [OF wf, of i] lru_wf_bound [OF c1(2), of i] by auto
  have f: "lc_first c1 = Some i" using lru_wf_links [OF c1(2)] by (simp add: links_def)
  have e: "ce_value (lc_entries c1 ! i) = ce_value (lc_entries c ! i)" "ce_key (lc_entries c1 ! i) = k" "lc_capacity c1 = lc_capacity c"
    using relinked_entry(2,3) [OF c1(4) i(1)] sp'(2) c1(4) by (simp_all add: relinked_def)
  have "lru_pairs c1 (xs @ ys) = lru_pairs c (xs @ ys)" using c1(3) by (simp add: lru_pairs_def)
  then show thesis
    using c1(1) i f e sp sv sp'(1) Some
    by (intro that [OF _ sv(1)]) (simp_all add: lru_insert_def lru_contains_key_def entry_at_def upd_entry_eq)
next
  case None
  note ab = lru_absent [OF assms None]
  have nk: "\<not> lru_contains_key k c" using None by (simp add: lru_contains_key_def)
  have len: "lru_len c = length (lru_pairs c is)" using lru_len_eq [OF assms] by (simp add: lru_pairs_def)
  let ?ps = "if length (lru_pairs c is) = lc_capacity c then butlast (lru_pairs c is) else lru_pairs c is"
  obtain c1 js where c1: "lru_ensure_room c = Inr c1" "lru_wf c1 js" "lru_pairs c1 js = ?ps" "lc_capacity c1 = lc_capacity c"
  proof (cases "length (lru_pairs c is) = lc_capacity c")
    case True
    obtain c1 where "lru_remove_last c = Inr (if is = [] then None else Some (fst (List.last (lru_pairs c is))), c1)" "lru_wf c1 (butlast is)"
        "lru_pairs c1 (butlast is) = butlast (lru_pairs c is)" "lc_capacity c1 = lc_capacity c"
      by (rule lru_remove_last_rel [OF assms])
    then show thesis using True len by (intro that [of c1 "butlast is"]) (simp_all add: lru_ensure_room_def)
  next
    case False
    then show thesis using len assms by (intro that [of c "is"]) (simp_all add: lru_ensure_room_def)
  qed
  have "k \<notin> fst ` set ?ps" using ab(1) by (auto simp: map_of_eq_None_iff dest: in_set_butlastD)
  then have "\<not> lru_contains_key k c1" using lru_contains [OF c1(2)] c1(3) by simp
  then obtain c2 idx where "lru_put_new k v c1 = Inr c2" "lru_wf c2 (idx # js)" "lru_pairs c2 (idx # js) = (k, v) # lru_pairs c1 js"
      "lc_capacity c2 = lc_capacity c1"
    by (rule put_new_wf [OF c1(2)])
  then show thesis using nk ab c1 by (intro that [of c2 "idx # js"]) (simp_all add: lru_insert_def)
qed

section \<open>The refinement\<close>

lemma lru_step_wf:
  assumes wf: "lru_wf c is"
  obtains c' js where "lru_step op c = Inr (fst (spec_step (lc_capacity c) op (lru_pairs c is)), c')" "lru_wf c' js"
    "lru_pairs c' js = snd (spec_step (lc_capacity c) op (lru_pairs c is))" "lc_capacity c' = lc_capacity c"
proof (cases op)
  case (Insert k v)
  obtain c' js where "lru_insert k v c = Inr (map_of (lru_pairs c is) k, c')" "lru_wf c' js"
    "lru_pairs c' js = (k, v) # (if map_of (lru_pairs c is) k \<noteq> None then without k (lru_pairs c is)
       else if length (lru_pairs c is) = lc_capacity c then butlast (lru_pairs c is) else lru_pairs c is)"
    "lc_capacity c' = lc_capacity c" by (rule lru_insert_rel [OF wf])
  then show thesis using Insert by (intro that [of c' js]) (simp_all add: lru_step_def spec_step_def)
next
  case (Remove k)
  obtain c' js where "lru_remove k c = Inr (map_of (lru_pairs c is) k, c')" "lru_wf c' js"
    "lru_pairs c' js = without k (lru_pairs c is)" "lc_capacity c' = lc_capacity c" by (rule lru_remove_rel [OF wf])
  then show thesis using Remove by (intro that [of c' js]) (simp_all add: lru_step_def spec_step_def)
next
  case (Peek k)
  then show thesis using wf lru_peek_rel [OF wf] by (intro that [of c "is"]) (simp_all add: lru_step_def spec_step_def)
next
  case (Get k)
  obtain c' js where "lru_get k c = Inr (map_of (lru_pairs c is) k, c')" "lru_wf c' js"
    "lru_pairs c' js = promote k id (lru_pairs c is)" "lc_capacity c' = lc_capacity c" by (rule lru_get_rel [OF wf])
  then show thesis using Get by (intro that [of c' js]) (simp_all add: lru_step_def spec_step_def)
next
  case (Get_Mut k f)
  obtain c' js where "lru_get_mut k f c = Inr c'" "lru_wf c' js"
    "lru_pairs c' js = promote k f (lru_pairs c is)" "lc_capacity c' = lc_capacity c" by (rule lru_get_mut_rel [OF wf])
  then show thesis using Get_Mut by (intro that [of c' js]) (simp_all add: lru_step_def spec_step_def)
next
  case Remove_Last
  obtain c' where "lru_remove_last c = Inr (if is = [] then None else Some (fst (List.last (lru_pairs c is))), c')" "lru_wf c' (butlast is)"
    "lru_pairs c' (butlast is) = butlast (lru_pairs c is)" "lc_capacity c' = lc_capacity c" by (rule lru_remove_last_rel [OF wf])
  moreover have "lru_pairs c is = [] \<longleftrightarrow> is = []" by (simp add: lru_pairs_def)
  ultimately show thesis using Remove_Last by (intro that [of c' "butlast is"]) (simp_all add: lru_step_def spec_step_def)
qed

fun lru_run :: "('k, 'v) lru_op list \<Rightarrow> ('k, 'v) lru_cache \<Rightarrow> (('k, 'v) lru_out list \<times> ('k, 'v) lru_cache) result" where
  "lru_run [] c = Inr ([], c)"
| "lru_run (op # ops) c = rbind (lru_step op c) (\<lambda>(r, c1). rbind (lru_run ops c1) (\<lambda>(rs, c2). Inr (r # rs, c2)))"

fun spec_run :: "nat \<Rightarrow> ('k, 'v) lru_op list \<Rightarrow> ('k \<times> 'v) list \<Rightarrow> ('k, 'v) lru_out list \<times> ('k \<times> 'v) list" where
  "spec_run cap [] ps = ([], ps)"
| "spec_run cap (op # ops) ps =
     (let (r, ps1) = spec_step cap op ps; (rs, ps2) = spec_run cap ops ps1 in (r # rs, ps2))"

lemma lru_run_wf:
  assumes "lru_wf c is"
  obtains c' js where "lru_run ops c = Inr (fst (spec_run (lc_capacity c) ops (lru_pairs c is)), c')" "lru_wf c' js"
    "lru_pairs c' js = snd (spec_run (lc_capacity c) ops (lru_pairs c is))" "lc_capacity c' = lc_capacity c"
  using assms
proof (induction ops arbitrary: c "is" thesis)
  case Nil
  show ?case by (rule Nil.prems(1) [of c "is"]) (simp_all add: Nil.prems(2))
next
  case (Cons op ops)
  obtain c1 js where c1: "lru_step op c = Inr (fst (spec_step (lc_capacity c) op (lru_pairs c is)), c1)" "lru_wf c1 js"
    "lru_pairs c1 js = snd (spec_step (lc_capacity c) op (lru_pairs c is))" "lc_capacity c1 = lc_capacity c"
    by (rule lru_step_wf [OF Cons.prems(2)])
  obtain c2 ks where "lru_run ops c1 = Inr (fst (spec_run (lc_capacity c1) ops (lru_pairs c1 js)), c2)" "lru_wf c2 ks"
    "lru_pairs c2 ks = snd (spec_run (lc_capacity c1) ops (lru_pairs c1 js))" "lc_capacity c2 = lc_capacity c1"
    by (rule Cons.IH [OF _ c1(2)])
  then show ?case using c1 by (intro Cons.prems(1) [of c2 ks]) (simp_all add: case_prod_beta Let_def)
qed

lemma lru_new_wf: "lru_wf (lru_with_capacity cap) []"
  by (simp add: lru_with_capacity_def lru_wf_def links_def lru_keys_def)

lemma length_without_le: "length (without k ps) \<le> length ps"
  by (rule length_filter_le)

lemma length_without:
  assumes "map_of ps k \<noteq> None"
  shows "length (without k ps) < length ps"
proof -
  obtain v where "(k, v) \<in> set ps" using assms by (auto dest: map_of_SomeD)
  then show ?thesis by (intro length_filter_less [of "(k, v)"]) simp_all
qed

lemma spec_step_length:
  assumes "length ps \<le> cap" "0 < cap"
  shows "length (snd (spec_step cap op ps)) \<le> cap"
proof (cases op)
  case (Insert k v)
  then show ?thesis using assms length_without [of ps k] by (auto simp: spec_step_def)
next
  case (Remove k)
  then show ?thesis using assms order_trans [OF length_without_le assms(1)] by (simp add: spec_step_def)
next
  case (Get k)
  then show ?thesis using assms length_without [of ps k] by (auto simp: spec_step_def split: option.split)
next
  case (Get_Mut k f)
  then show ?thesis using assms length_without [of ps k] by (auto simp: spec_step_def split: option.split)
qed (use assms in \<open>auto simp: spec_step_def\<close>)

lemma spec_run_length:
  assumes "length ps \<le> cap" "0 < cap"
  shows "length (snd (spec_run cap ops ps)) \<le> cap"
  using assms(1)
proof (induction ops arbitrary: ps)
  case (Cons op ops)
  then show ?case
    using spec_step_length [OF Cons.prems assms(2), of op] by (simp add: case_prod_beta Let_def)
qed simp

text \<open>
  C2: Every sequence of operations on a new cache succeeds (no index of the entry vector is out of
  range and no \<open>unwrap\<close> meets \<open>None\<close>) and leaves a well-formed cache: the entries in use are doubly
  linked from \<open>first\<close> to \<open>last\<close>, each of them is the table's entry for its key, and all others are
  free. The operations return what they return on the list of the pairs in order of use, where a
  read or an overwrite moves a pair to the front and an insertion of a new key into a full cache
  drops the last pair; and a cache with a positive capacity never holds more pairs than that.
\<close>

theorem lru_cache_well_formed:
  "\<exists>c. lru_run ops (lru_with_capacity cap) = Inr (fst (spec_run cap ops []), c) \<and>
     lru_rel c (snd (spec_run cap ops [])) \<and> lru_len c = length (snd (spec_run cap ops [])) \<and>
     (0 < cap \<longrightarrow> lru_len c \<le> cap)"
proof -
  let ?c = "lru_with_capacity cap :: ('a, 'b) lru_cache"
  obtain c js where c: "lru_run ops ?c = Inr (fst (spec_run (lc_capacity ?c) ops (lru_pairs ?c [])), c)" "lru_wf c js"
      "lru_pairs c js = snd (spec_run (lc_capacity ?c) ops (lru_pairs ?c []))" "lc_capacity c = lc_capacity ?c"
    by (rule lru_run_wf [OF lru_new_wf [of cap]])
  have "lc_capacity ?c = cap" "lru_pairs ?c [] = []" by (simp_all add: lru_with_capacity_def lru_pairs_def)
  moreover have "lru_len c = length (lru_pairs c js)" using lru_len_eq [OF c(2)] by (simp add: lru_pairs_def)
  ultimately show ?thesis
    using c spec_run_length [of "[]" cap ops] unfolding lru_rel_def by auto
qed

theorem lru_cache_well_formed_witness:
  "\<exists>c. lru_run [Insert (1::nat) ''a'', Insert 2 ''b'', Get 1, Insert 3 ''c'', Peek 2, Remove_Last] (lru_with_capacity 2)
      = Inr ([Value None, Value None, Value (Some ''a''), Value None, Value None, Key (Some 1)], c) \<and>
    lru_rel c [(3, ''c'')] \<and> lru_len c \<le> 2"
proof -
  let ?ops = "[Insert (1::nat) ''a'', Insert 2 ''b'', Get 1, Insert 3 ''c'', Peek 2, Remove_Last]"
  have "spec_run 2 ?ops [] = ([Value None, Value None, Value (Some ''a''), Value None, Value None, Key (Some 1)], [(3, ''c'')])"
    by (simp add: spec_step_def)
  then show ?thesis using lru_cache_well_formed [of ?ops 2] by (simp del: lru_run.simps spec_run.simps) blast
qed

end
