(* ===== verification/Query_Cache.thy ===== *)
theory Query_Cache
  imports Roaring Lru_Cache Bulk_Scorer
begin

text \<open>
  The query cache of \<^verbatim>\<open>search/cache/query_cache.rs\<close>: the per-segment caches of document id sets, the
  bounded set of queries they may hold with its eviction, the collectors that turn a scorer into a
  set, and the weight that answers from the cache.

  A weight is modelled by its \<open>create_scorer\<close> method on a segment; a segment by its core cache key
  and its number of documents. What the caching policy answers, whether the lock was free, and the
  float comparison of segment sizes are arguments. Hash maps are finite maps.
\<close>

section \<open>Caches of one segment\<close>

record leaf_cache =
  lf_key :: string
  lf_cache :: "(string, cache_set) fmap"

definition leaf_cache_new :: "string \<Rightarrow> leaf_cache" where
  "leaf_cache_new key = \<lparr>lf_key = key, lf_cache = fmempty\<rparr>"

definition leaf_cache_get :: "string \<Rightarrow> leaf_cache \<Rightarrow> cache_iter option result" where
  "leaf_cache_get query_key c =
     (case fmlookup (lf_cache c) query_key of Some s \<Rightarrow> cache_set_iterator s | None \<Rightarrow> Inr None)"

definition leaf_cache_put_if_absent :: "string \<Rightarrow> cache_set \<Rightarrow> leaf_cache \<Rightarrow> leaf_cache" where
  "leaf_cache_put_if_absent query_key s c =
     (if fmlookup (lf_cache c) query_key = None then c\<lparr>lf_cache := fmupd query_key s (lf_cache c)\<rparr> else c)"

definition leaf_cache_remove :: "string \<Rightarrow> leaf_cache \<Rightarrow> leaf_cache" where
  "leaf_cache_remove query_key c = c\<lparr>lf_cache := fmdrop query_key (lf_cache c)\<rparr>"

section \<open>The shared cache data\<close>

record cache_data =
  cd_unique_queries :: "(string, string) lru_cache"
  cd_cache :: "(string, leaf_cache) fmap"
  cd_max_size :: nat
  cd_min_size :: int
  cd_min_size_ratio :: u32

text \<open>\<open>LRUQueryCache::new\<close>; the ratio is the bit pattern of \<open>0.03f32\<close>.\<close>

definition query_cache_new :: "nat \<Rightarrow> cache_data" where
  "query_cache_new max_size =
     \<lparr>cd_unique_queries = lru_with_capacity max_size, cd_cache = fmempty, cd_max_size = max_size,
      cd_min_size = 10000, cd_min_size_ratio = 0x3CF5C28F\<rparr>"

definition cd_test :: "(int \<Rightarrow> int \<Rightarrow> u32 \<Rightarrow> bool) \<Rightarrow> int \<Rightarrow> int \<Rightarrow> cache_data \<Rightarrow> bool" where
  "cd_test ratio_at_least max_doc parent_max_doc c =
     (if max_doc < cd_min_size c then False else ratio_at_least max_doc parent_max_doc (cd_min_size_ratio c))"

definition cd_requires_eviction :: "cache_data \<Rightarrow> bool" where
  "cd_requires_eviction c \<longleftrightarrow> cd_max_size c \<le> lru_len (cd_unique_queries c)"

definition cd_get :: "string \<Rightarrow> string \<Rightarrow> cache_data \<Rightarrow> (cache_iter option \<times> cache_data) result" where
  "cd_get query_key core_key c =
     (case fmlookup (cd_cache c) core_key of
        None \<Rightarrow> Inr (None, c)
      | Some lc \<Rightarrow>
          rbind (lru_get query_key (cd_unique_queries c)) (\<lambda>(r, q).
            let c' = c\<lparr>cd_unique_queries := q\<rparr>
            in case r of
                 Some singleton \<Rightarrow> rbind (leaf_cache_get singleton lc) (\<lambda>it. Inr (it, c'))
               | None \<Rightarrow> Inr (None, c')))"

definition cd_on_eviction :: "string \<Rightarrow> cache_data \<Rightarrow> cache_data" where
  "cd_on_eviction query_key c = c\<lparr>cd_cache := fmmap (leaf_cache_remove query_key) (cd_cache c)\<rparr>"

partial_function (option) cd_evict_loop :: "cache_data \<Rightarrow> cache_data result option" where
  "cd_evict_loop c =
     (if \<not> cd_requires_eviction c then Some (Inr c)
      else case lru_remove_last (cd_unique_queries c) of
        Inl e \<Rightarrow> Some (Inl e)
      | Inr (Some key, q) \<Rightarrow> cd_evict_loop (cd_on_eviction key (c\<lparr>cd_unique_queries := q\<rparr>))
      | Inr (None, q) \<Rightarrow> Some (Inl (RuntimeError ''Removal from the cache failed!'')))"

definition cd_evict_if_necessary :: "cache_data \<Rightarrow> cache_data result option" where
  "cd_evict_if_necessary c = (if cd_requires_eviction c then cd_evict_loop c else Some (Inr c))"

text \<open>The part of \<open>put_if_absent\<close> after the eviction.\<close>

definition cd_store :: "string \<Rightarrow> string \<Rightarrow> cache_set \<Rightarrow> cache_data \<Rightarrow> (bool \<times> cache_data) result" where
  "cd_store query_key key s c =
     rbind (if lru_contains_key query_key (cd_unique_queries c)
            then rbind (lru_get query_key (cd_unique_queries c)) (\<lambda>(r, q).
                 case r of None \<Rightarrow> Inl (Panic ''unwrap on None'') | Some k \<Rightarrow> Inr (k, q))
            else rbind (lru_insert query_key query_key (cd_unique_queries c)) (\<lambda>(_, q). Inr (query_key, q)))
       (\<lambda>(query_key, q).
          let c1 = c\<lparr>cd_unique_queries := q\<rparr>;
              new_entry = (fmlookup (cd_cache c1) key = None);
              c2 = (if new_entry then c1\<lparr>cd_cache := fmupd key (leaf_cache_new key) (cd_cache c1)\<rparr> else c1)
          in case fmlookup (cd_cache c2) key of
               None \<Rightarrow> Inl (Panic ''unwrap on None'')
             | Some lc \<Rightarrow>
                 Inr (new_entry, c2\<lparr>cd_cache := fmupd key (leaf_cache_put_if_absent query_key s lc) (cd_cache c2)\<rparr>))"

definition cd_put_if_absent :: "string \<Rightarrow> string \<Rightarrow> cache_set \<Rightarrow> cache_data \<Rightarrow> (bool \<times> cache_data) result option" where
  "cd_put_if_absent query_key key s c =
     (case cd_evict_if_necessary c of
        None \<Rightarrow> None
      | Some (Inl e) \<Rightarrow> Some (Inl e)
      | Some (Inr c1) \<Rightarrow> Some (cd_store query_key key s c1))"

text \<open>What the listener added to a segment core does when the core is dropped.\<close>

definition cd_drop_core :: "string \<Rightarrow> cache_data \<Rightarrow> cache_data" where
  "cd_drop_core core_key c = c\<lparr>cd_cache := fmdrop core_key (cd_cache c)\<rparr>"

section \<open>From a scorer to a set\<close>

record bitset_leaf_collector =
  bl_bit_set :: fixed_bit_set
  bl_cost :: int

definition bitset_collect :: "('s, bitset_leaf_collector) collect" where
  "bitset_collect doc s c =
     (if 9223372036854775807 \<le> bl_cost c then (c, Inl (Panic ''attempt to add with overflow''))
      else let c1 = c\<lparr>bl_cost := bl_cost c + 1\<rparr>
           in case fbs_set (as_usize doc) (bl_bit_set c1) of
                Inl e \<Rightarrow> (c1, Inl e)
              | Inr b \<Rightarrow> (c1\<lparr>bl_bit_set := b\<rparr>, Inr s))"

definition doc_id_set_collect :: "('s, roaring_builder) collect" where
  "doc_id_set_collect doc s b = (case rb_add_doc doc b of Inl e \<Rightarrow> (b, Inl e) | Inr b' \<Rightarrow> (b', Inr s))"

definition cache_into_bitset ::
  "('s, 'e) doc_iterator_scheme \<Rightarrow> int \<Rightarrow> 's \<Rightarrow> fixed_bit_set bit_doc_id_set result option" where
  "cache_into_bitset I max_doc s =
     (case fbs_new (as_usize max_doc) of
        Inl e \<Rightarrow> Some (Inl e)
      | Inr bits \<Rightarrow>
          (case bulk_score I bitset_collect None 0 NO_MORE_DOCS (nat NO_MORE_DOCS) s \<lparr>bl_bit_set = bits, bl_cost = 0\<rparr> of
             None \<Rightarrow> None
           | Some (c, Inl e) \<Rightarrow> Some (Inl e)
           | Some (c, Inr _) \<Rightarrow> Some (Inr (bit_doc_id_set_new (bl_bit_set c) (as_usize (bl_cost c))))))"

definition cache_into_roaring ::
  "('s, 'e) doc_iterator_scheme \<Rightarrow> int \<Rightarrow> 's \<Rightarrow> roaring_set result option" where
  "cache_into_roaring I max_doc s =
     (case rb_new max_doc of
        Inl e \<Rightarrow> Some (Inl e)
      | Inr b \<Rightarrow>
          (case bulk_score I doc_id_set_collect None 0 NO_MORE_DOCS (nat NO_MORE_DOCS) s b of
             None \<Rightarrow> None
           | Some (c, Inl e) \<Rightarrow> Some (Inl e)
           | Some (c, Inr _) \<Rightarrow> Some (rb_build c)))"

definition cache_impl :: "('s, 'e) doc_iterator_scheme \<Rightarrow> int \<Rightarrow> 's \<Rightarrow> cache_set result option" where
  "cache_impl I max_doc s =
     (if 2 ^ 64 \<le> cost I s * 100 then Some (Inl (Panic ''attempt to multiply with overflow''))
      else if as_usize max_doc < cost I s * 100
      then map_option (\<lambda>r. rbind r (\<lambda>d. Inr (CacheBit d))) (cache_into_bitset I max_doc s)
      else map_option (\<lambda>r. rbind r (\<lambda>d. Inr (CacheRoaring d))) (cache_into_roaring I max_doc s))"

section \<open>The caching weight\<close>

text \<open>\<open>CachingWrapperWeight::cache\<close>: the iterator it returns, and whether a drop listener was added.\<close>

definition caching_cache ::
  "('s, 'e) doc_iterator_scheme \<Rightarrow> (string \<Rightarrow> 's option result) \<Rightarrow> int \<Rightarrow> string \<Rightarrow> string \<Rightarrow> cache_data \<Rightarrow>
   (cache_iter option \<times> bool \<times> cache_data) result option" where
  "caching_cache I create_scorer max_doc core_key query_key c =
     (case create_scorer core_key of
        Inl e \<Rightarrow> Some (Inl e)
      | Inr None \<Rightarrow> Some (Inr (None, False, c))
      | Inr (Some scorer) \<Rightarrow>
          (case cache_impl I max_doc scorer of
             None \<Rightarrow> None
           | Some (Inl e) \<Rightarrow> Some (Inl e)
           | Some (Inr doc_id_set) \<Rightarrow>
               (case cache_set_iterator doc_id_set of
                  Inl e \<Rightarrow> Some (Inl e)
                | Inr iter \<Rightarrow>
                    map_option (\<lambda>r. rbind r (\<lambda>(listen, c'). Inr (iter, listen, c')))
                      (cd_put_if_absent query_key core_key doc_id_set c))))"

text \<open>The scorer that is returned: the weight's own, or a constant score over a cached set.\<close>

datatype 's caching_scorer = Own 's | Cached "cache_iter constant_scorer"

definition constant_over :: "cache_iter \<Rightarrow> cache_iter constant_scorer" where
  "constant_over disi = \<lparr>cs_score = 0, cs_iterator = disi, cs_cost = cost cache_iter_iter disi\<rparr>"

definition own_scorer ::
  "(string \<Rightarrow> 's option result) \<Rightarrow> string \<Rightarrow> cache_data \<Rightarrow> ('s caching_scorer option \<times> cache_data) result option" where
  "own_scorer create_scorer core_key c = Some (rbind (create_scorer core_key) (\<lambda>r. Inr (map_option Own r, c)))"

definition caching_create_scorer ::
  "('s, 'e) doc_iterator_scheme \<Rightarrow> (string \<Rightarrow> 's option result) \<Rightarrow> bool \<Rightarrow> bool \<Rightarrow> bool result \<Rightarrow> int \<Rightarrow> string \<Rightarrow> string \<Rightarrow>
   cache_data \<Rightarrow> ('s caching_scorer option \<times> cache_data) result option" where
  "caching_create_scorer I create_scorer eligible lock_free policy_should_cache max_doc core_key query_key c =
     (if \<not> eligible then own_scorer create_scorer core_key c
      else if \<not> lock_free then own_scorer create_scorer core_key c
      else case cd_get query_key core_key c of
        Inl e \<Rightarrow> Some (Inl e)
      | Inr (Some disi, c1) \<Rightarrow> Some (Inr (Some (Cached (constant_over disi)), c1))
      | Inr (None, c1) \<Rightarrow>
          (case policy_should_cache of
             Inl e \<Rightarrow> Some (Inl e)
           | Inr False \<Rightarrow> own_scorer create_scorer core_key c1
           | Inr True \<Rightarrow>
               map_option (\<lambda>r. rbind r (\<lambda>(disi, _, c2). Inr (map_option (\<lambda>d. Cached (constant_over d)) disi, c2)))
                 (caching_cache I create_scorer max_doc core_key query_key c1)))"

section \<open>The queries and what is cached for them\<close>

definition cached_set :: "cache_data \<Rightarrow> string \<Rightarrow> string \<Rightarrow> cache_set option" where
  "cached_set c core q = (case fmlookup (cd_cache c) core of None \<Rightarrow> None | Some lc \<Rightarrow> fmlookup (lf_cache lc) q)"

text \<open>
  The queries in order of use are \<open>ps\<close>, no more than the cache may hold; each is stored under
  itself; and the segments only cache sets of these queries.
\<close>

definition cd_rel :: "cache_data \<Rightarrow> (string \<times> string) list \<Rightarrow> bool" where
  "cd_rel c ps \<longleftrightarrow> lru_rel (cd_unique_queries c) ps \<and> lc_capacity (cd_unique_queries c) = cd_max_size c \<and>
     length ps \<le> cd_max_size c \<and> (\<forall>p\<in>set ps. snd p = fst p) \<and>
     (\<forall>core q. cached_set c core q \<noteq> None \<longrightarrow> q \<in> fst ` set ps)"

lemma lru_relE:
  assumes "lru_rel c ps"
  obtains "is" where "lru_wf c is" "ps = lru_pairs c is"
  using assms by (auto simp: lru_rel_def)

lemma lru_rel_views: "lru_rel c ps \<Longrightarrow> lru_len c = length ps" "lru_rel c ps \<Longrightarrow> lru_contains_key k c \<longleftrightarrow> k \<in> fst ` set ps"
  by (elim lru_relE, simp add: lru_len_eq lru_pairs_def) (elim lru_relE, simp add: lru_contains)

lemma lru_get_ok:
  assumes "lru_rel c ps"
  obtains c' where "lru_get k c = Inr (map_of ps k, c')" "lru_rel c' (promote k id ps)" "lc_capacity c' = lc_capacity c"
  using assms by (metis lru_relE lru_get_rel lru_rel_def)

lemma lru_insert_ok:
  assumes "lru_rel c ps" "k \<notin> fst ` set ps" "length ps \<noteq> lc_capacity c"
  obtains c' where "lru_insert k v c = Inr (None, c')" "lru_rel c' ((k, v) # ps)" "lc_capacity c' = lc_capacity c"
proof -
  obtain "is" where i: "lru_wf c is" "ps = lru_pairs c is" using assms(1) by (rule lru_relE)
  have "map_of ps k = None" using assms(2) by (simp add: map_of_eq_None_iff)
  then have sp: "map_of (lru_pairs c is) k = None" "length (lru_pairs c is) \<noteq> lc_capacity c" using assms(3) i(2) by simp_all
  obtain c' js where "lru_insert k v c = Inr (None, c')" "lru_wf c' js" "lru_pairs c' js = (k, v) # ps" "lc_capacity c' = lc_capacity c"
    using lru_insert_rel [OF i(1), of k v] sp i(2) by auto
  then show thesis by (intro that [of c']) (auto simp: lru_rel_def)
qed

lemma lru_remove_last_ok:
  assumes "lru_rel c ps"
  obtains c' where "lru_remove_last c = Inr (if ps = [] then None else Some (fst (List.last ps)), c')" "lru_rel c' (butlast ps)"
    "lc_capacity c' = lc_capacity c"
proof -
  obtain "is" where i: "lru_wf c is" "ps = lru_pairs c is" using assms(1) by (rule lru_relE)
  have "ps = [] \<longleftrightarrow> is = []" using i(2) by (simp add: lru_pairs_def)
  moreover obtain c' where "lru_remove_last c = Inr (if is = [] then None else Some (fst (List.last ps)), c')" "lru_wf c' (butlast is)"
      "lru_pairs c' (butlast is) = butlast ps" "lc_capacity c' = lc_capacity c"
    using lru_remove_last_rel [OF i(1)] i(2) by auto
  ultimately show thesis by (intro that [of c']) (auto simp: lru_rel_def)
qed

lemma cached_set_queries [simp]: "cached_set (c\<lparr>cd_unique_queries := q\<rparr>) = cached_set c"
  by (simp add: fun_eq_iff cached_set_def)

lemma cached_set_evict: "cached_set (cd_on_eviction k c) core q = (if q = k then None else cached_set c core q)"
  by (simp add: cached_set_def cd_on_eviction_def leaf_cache_remove_def split: option.split)

section \<open>Eviction\<close>

lemma cd_evict_step:
  assumes "cd_rel c ps" "ps \<noteq> []"
  obtains q where "lru_remove_last (cd_unique_queries c) = Inr (Some (fst (List.last ps)), q)"
    "cd_rel (cd_on_eviction (fst (List.last ps)) (c\<lparr>cd_unique_queries := q\<rparr>)) (butlast ps)"
proof -
  have r: "lru_rel (cd_unique_queries c) ps" using assms(1) by (simp add: cd_rel_def)
  then obtain q where q: "lru_remove_last (cd_unique_queries c) = Inr (Some (fst (List.last ps)), q)" "lru_rel q (butlast ps)"
      "lc_capacity q = lc_capacity (cd_unique_queries c)"
    using assms(2) by (auto elim: lru_remove_last_ok)
  have ps: "set ps = insert (List.last ps) (set (butlast ps))"
    using assms(2) by (metis append_butlast_last_id insert_is_Un list.set(2) rotate1.simps(2) set_rotate1)
  have sub: "q' \<in> fst ` set (butlast ps)" if "cached_set c core q' \<noteq> None" "q' \<noteq> fst (List.last ps)" for core q'
  proof -
    have "q' \<in> fst ` set ps" using assms(1) that(1) unfolding cd_rel_def by blast
    then show ?thesis using ps that(2) by auto
  qed
  have "cd_rel (cd_on_eviction (fst (List.last ps)) (c\<lparr>cd_unique_queries := q\<rparr>)) (butlast ps)"
    unfolding cd_rel_def
  proof (intro conjI allI impI)
    show "\<forall>p\<in>set (butlast ps). snd p = fst p" using assms(1) ps by (simp add: cd_rel_def)
    show "length (butlast ps) \<le> cd_max_size (cd_on_eviction (fst (List.last ps)) (c\<lparr>cd_unique_queries := q\<rparr>))"
      using assms(1) by (auto simp: cd_rel_def cd_on_eviction_def)
    fix core q' assume "cached_set (cd_on_eviction (fst (List.last ps)) (c\<lparr>cd_unique_queries := q\<rparr>)) core q' \<noteq> None"
    then show "q' \<in> fst ` set (butlast ps)" using sub [of core q'] by (simp add: cached_set_evict split: if_splits)
  qed (use q assms(1) in \<open>simp_all add: cd_rel_def cd_on_eviction_def\<close>)
  with q(1) show thesis by (rule that)
qed

lemma cd_requires_eviction_eq: "cd_rel c ps \<Longrightarrow> cd_requires_eviction c \<longleftrightarrow> length ps = cd_max_size c"
  using lru_rel_views(1) [of "cd_unique_queries c" ps] by (auto simp: cd_requires_eviction_def cd_rel_def)

text \<open>
  Evicting returns: with room for one more query when the cache may hold any, and otherwise with an
  error, because there is nothing left to remove. No set is cached afterwards that was not before.
\<close>

lemma cd_evict_ok:
  assumes "cd_rel c ps"
  shows "0 < cd_max_size c \<Longrightarrow> \<exists>c' ps'. cd_evict_if_necessary c = Some (Inr c') \<and> cd_rel c' ps' \<and>
      length ps' < cd_max_size c' \<and> cd_max_size c' = cd_max_size c \<and>
      (\<forall>core q. cached_set c' core q = cached_set c core q \<or> cached_set c' core q = None)"
    and "cd_max_size c = 0 \<Longrightarrow> cd_evict_if_necessary c = Some (Inl (RuntimeError ''Removal from the cache failed!''))"
proof -
  assume pos: "0 < cd_max_size c"
  show "\<exists>c' ps'. cd_evict_if_necessary c = Some (Inr c') \<and> cd_rel c' ps' \<and>
      length ps' < cd_max_size c' \<and> cd_max_size c' = cd_max_size c \<and>
      (\<forall>core q. cached_set c' core q = cached_set c core q \<or> cached_set c' core q = None)"
  proof (cases "length ps = cd_max_size c")
    case False
    then show ?thesis
      using assms cd_requires_eviction_eq [OF assms] by (intro exI [of _ c] exI [of _ ps]) (auto simp: cd_evict_if_necessary_def cd_rel_def)
  next
    case True
    then have ne: "ps \<noteq> []" using pos by auto
    obtain q where q: "lru_remove_last (cd_unique_queries c) = Inr (Some (fst (List.last ps)), q)"
        "cd_rel (cd_on_eviction (fst (List.last ps)) (c\<lparr>cd_unique_queries := q\<rparr>)) (butlast ps)" (is "cd_rel ?c _")
      by (rule cd_evict_step [OF assms ne])
    have m: "cd_max_size ?c = cd_max_size c" by (simp add: cd_on_eviction_def)
    then have "\<not> cd_requires_eviction ?c" using cd_requires_eviction_eq [OF q(2)] True pos by auto
    then have "cd_evict_loop ?c = Some (Inr ?c)" by (subst cd_evict_loop.simps) simp
    then have "cd_evict_if_necessary c = Some (Inr ?c)"
      using q(1) cd_requires_eviction_eq [OF assms] True by (simp add: cd_evict_if_necessary_def) (subst cd_evict_loop.simps, simp)
    then show ?thesis
      using q(2) m True pos by (intro exI [of _ ?c] exI [of _ "butlast ps"]) (auto simp: cached_set_evict)
  qed
next
  assume z: "cd_max_size c = 0"
  then have ps: "ps = []" "cd_requires_eviction c" "lru_rel (cd_unique_queries c) []"
    using assms cd_requires_eviction_eq [OF assms] by (auto simp: cd_rel_def)
  obtain q where "lru_remove_last (cd_unique_queries c) = Inr (None, q)" using lru_remove_last_ok [OF ps(3)] by auto
  then show "cd_evict_if_necessary c = Some (Inl (RuntimeError ''Removal from the cache failed!''))"
    using ps(2) by (simp add: cd_evict_if_necessary_def) (subst cd_evict_loop.simps, simp)
qed

section \<open>Storing and reading\<close>

lemma cd_unique_ok:
  assumes "cd_rel c ps" "length ps < cd_max_size c"
  obtains u ps' where "(if lru_contains_key q (cd_unique_queries c)
      then rbind (lru_get q (cd_unique_queries c)) (\<lambda>(r, u). case r of None \<Rightarrow> Inl (Panic ''unwrap on None'') | Some k \<Rightarrow> Inr (k, u))
      else rbind (lru_insert q q (cd_unique_queries c)) (\<lambda>(_, u). Inr (q, u))) = Inr (q, u)"
    "lru_rel u ps'" "lc_capacity u = cd_max_size c" "length ps' \<le> cd_max_size c" "\<forall>p\<in>set ps'. snd p = fst p"
    "fst ` set ps' = insert q (fst ` set ps)"
proof -
  have r: "lru_rel (cd_unique_queries c) ps" "lc_capacity (cd_unique_queries c) = cd_max_size c" "\<forall>p\<in>set ps. snd p = fst p"
    using assms(1) by (simp_all add: cd_rel_def)
  show thesis
  proof (cases "q \<in> fst ` set ps")
    case True
    then obtain v where v: "map_of ps q = Some v" by (metis map_of_eq_None_iff not_Some_eq)
    then have "(q, v) \<in> set ps" by (rule map_of_SomeD)
    then have "v = q" using r(3) by auto
    obtain u where u: "lru_get q (cd_unique_queries c) = Inr (map_of ps q, u)" "lru_rel u (promote q id ps)" "lc_capacity u = lc_capacity (cd_unique_queries c)"
      by (rule lru_get_ok [OF r(1)])
    have "length (without q ps) < length ps" using v by (intro length_without) simp
    then show thesis
      using True v \<open>v = q\<close> u r lru_rel_views(2) [OF r(1)] assms(2)
      by (intro that [of u "promote q id ps"]) auto
  next
    case False
    obtain u where "lru_insert q q (cd_unique_queries c) = Inr (None, u)" "lru_rel u ((q, q) # ps)" "lc_capacity u = lc_capacity (cd_unique_queries c)"
      by (rule lru_insert_ok [OF r(1) False]) (use assms(2) r(2) in auto)
    then show thesis
      using False r lru_rel_views(2) [OF r(1)] assms(2) by (intro that [of u "(q, q) # ps"]) auto
  qed
qed

lemma cd_store_ok:
  assumes "cd_rel c ps" "length ps < cd_max_size c"
  obtains n c' ps' where "cd_store q core s c = Inr (n, c')" "cd_rel c' ps'" "cd_max_size c' = cd_max_size c"
    "\<And>core' q'. cached_set c' core' q' =
       (if core' = core \<and> q' = q \<and> cached_set c core q = None then Some s else cached_set c core' q')"
proof -
  obtain u ps' where u: "(if lru_contains_key q (cd_unique_queries c)
      then rbind (lru_get q (cd_unique_queries c)) (\<lambda>(r, u). case r of None \<Rightarrow> Inl (Panic ''unwrap on None'') | Some k \<Rightarrow> Inr (k, u))
      else rbind (lru_insert q q (cd_unique_queries c)) (\<lambda>(_, u). Inr (q, u))) = Inr (q, u)"
    "lru_rel u ps'" "lc_capacity u = cd_max_size c" "length ps' \<le> cd_max_size c" "\<forall>p\<in>set ps'. snd p = fst p"
    "fst ` set ps' = insert q (fst ` set ps)"
    by (rule cd_unique_ok [OF assms])
  let ?lc = "case fmlookup (cd_cache c) core of None \<Rightarrow> leaf_cache_new core | Some lc \<Rightarrow> lc"
  let ?c = "c\<lparr>cd_unique_queries := u, cd_cache := fmupd core (leaf_cache_put_if_absent q s ?lc) (cd_cache c)\<rparr>"
  have store: "cd_store q core s c = Inr (fmlookup (cd_cache c) core = None, ?c)"
    unfolding cd_store_def u(1) by (cases "fmlookup (cd_cache c) core") (simp_all add: Let_def fmap_ext)
  have cs: "cached_set ?c core' q' = (if core' = core \<and> q' = q \<and> cached_set c core q = None then Some s else cached_set c core' q')" for core' q'
    by (auto simp: cached_set_def leaf_cache_put_if_absent_def leaf_cache_new_def split: option.splits)
  have "cd_rel ?c ps'"
    unfolding cd_rel_def
  proof (intro conjI allI impI)
    fix core' q' assume "cached_set ?c core' q' \<noteq> None"
    then have "q' = q \<or> cached_set c core' q' \<noteq> None" by (auto simp: cs split: if_splits)
    then show "q' \<in> fst ` set ps'" using assms(1) u(6) unfolding cd_rel_def by blast
  qed (use u in simp_all)
  with store cs show thesis by (intro that [of _ ?c]) simp_all
qed

lemma cache_set_iterator_total: "\<exists>r. cache_set_iterator s = Inr r"
  by (cases s) (auto simp: cache_set_iterator_def bit_doc_id_set_iterator_def bit_set_doc_new_def roaring_set_iterator_def)

lemma cd_get_ok:
  assumes "cd_rel c ps"
  obtains it c' ps' where "cd_get q core c = Inr (it, c')" "cd_rel c' ps'" "cd_max_size c' = cd_max_size c" "cached_set c' = cached_set c"
    "it = (case cached_set c core q of None \<Rightarrow> None | Some s \<Rightarrow> projr (cache_set_iterator s))"
proof (cases "fmlookup (cd_cache c) core")
  case None
  then show thesis using assms by (intro that [of None c ps]) (simp_all add: cd_get_def cached_set_def)
next
  case (Some lc)
  have r: "lru_rel (cd_unique_queries c) ps" "\<forall>p\<in>set ps. snd p = fst p" "q \<notin> fst ` set ps \<Longrightarrow> cached_set c core q = None"
    using assms unfolding cd_rel_def by blast+
  obtain u where u: "lru_get q (cd_unique_queries c) = Inr (map_of ps q, u)" "lru_rel u (promote q id ps)" "lc_capacity u = lc_capacity (cd_unique_queries c)"
    by (rule lru_get_ok [OF r(1)])
  let ?c = "c\<lparr>cd_unique_queries := u\<rparr>"
  have "cd_rel ?c (promote q id ps) \<and> fst ` set (promote q id ps) = fst ` set ps"
  proof (cases "map_of ps q")
    case None
    then show ?thesis using assms u(2,3) by (simp add: cd_rel_def)
  next
    case (Some v)
    then have v: "(q, v) \<in> set ps" by (rule map_of_SomeD)
    then have keys: "fst ` set ((q, v) # without q ps) = fst ` set ps" by force
    have "length (without q ps) < length ps" using Some by (intro length_without) simp
    then show ?thesis using assms u(2,3) Some v keys by (simp add: cd_rel_def) (auto simp: cd_rel_def)
  qed
  moreover have "cd_get q core c = Inr (case cached_set c core q of None \<Rightarrow> None | Some s \<Rightarrow> projr (cache_set_iterator s), ?c)"
  proof (cases "map_of ps q")
    case None
    then have "q \<notin> fst ` set ps" by (simp add: map_of_eq_None_iff)
    then show ?thesis using None Some u(1) r(3) by (simp add: cd_get_def Let_def)
  next
    case (Some v)
    then have "v = q" using r(2) map_of_SomeD [OF Some] by auto
    moreover have "leaf_cache_get q lc = Inr (case fmlookup (lf_cache lc) q of None \<Rightarrow> None | Some s \<Rightarrow> projr (cache_set_iterator s))"
      using cache_set_iterator_total by (auto simp: leaf_cache_get_def split: option.split) (metis sum.sel(2))
    ultimately show ?thesis
      using Some u(1) \<open>fmlookup (cd_cache c) core = Some lc\<close> by (simp add: cd_get_def Let_def cached_set_def)
  qed
  ultimately show thesis by (intro that [of _ ?c "promote q id ps"]) simp_all
qed

section \<open>The contract of the cache\<close>

datatype cache_cmd = Put string string cache_set | Lookup string string | Drop_Core string

definition cd_step :: "cache_cmd \<Rightarrow> cache_data \<Rightarrow> cache_data result option" where
  "cd_step cmd c =
     (case cmd of
        Put q core s \<Rightarrow> map_option (\<lambda>r. rbind r (\<lambda>(_, c'). Inr c')) (cd_put_if_absent q core s c)
      | Lookup q core \<Rightarrow> Some (rbind (cd_get q core c) (\<lambda>(_, c'). Inr c'))
      | Drop_Core core \<Rightarrow> Some (Inr (cd_drop_core core c)))"

fun cd_run :: "cache_cmd list \<Rightarrow> cache_data \<Rightarrow> cache_data result option" where
  "cd_run [] c = Some (Inr c)"
| "cd_run (cmd # cmds) c =
     (case cd_step cmd c of None \<Rightarrow> None | Some (Inl e) \<Rightarrow> Some (Inl e) | Some (Inr c') \<Rightarrow> cd_run cmds c')"

lemma cd_put_ok:
  assumes "cd_rel c ps" "0 < cd_max_size c"
  obtains n c' ps' where "cd_put_if_absent q core s c = Some (Inr (n, c'))" "cd_rel c' ps'" "cd_max_size c' = cd_max_size c"
    "\<And>core' q' s'. cached_set c' core' q' = Some s' \<Longrightarrow> cached_set c core' q' = Some s' \<or> core' = core \<and> q' = q \<and> s' = s"
proof -
  obtain c1 ps1 where c1: "cd_evict_if_necessary c = Some (Inr c1)" "cd_rel c1 ps1" "length ps1 < cd_max_size c1" "cd_max_size c1 = cd_max_size c"
      "\<forall>core q. cached_set c1 core q = cached_set c core q \<or> cached_set c1 core q = None"
    using cd_evict_ok(1) [OF assms] by blast
  obtain n c2 ps2 where c2: "cd_store q core s c1 = Inr (n, c2)" "cd_rel c2 ps2" "cd_max_size c2 = cd_max_size c1"
      "\<And>core' q'. cached_set c2 core' q' =
        (if core' = core \<and> q' = q \<and> cached_set c1 core q = None then Some s else cached_set c1 core' q')"
    by (rule cd_store_ok [OF c1(2,3)]) blast
  have "cached_set c core' q' = Some s' \<or> core' = core \<and> q' = q \<and> s' = s" if "cached_set c2 core' q' = Some s'" for core' q' s'
    using that c1(5) [rule_format, of core' q'] by (auto simp: c2(4) split: if_splits)
  then show thesis using c1 c2 by (intro that [of n c2 ps2]) (simp_all add: cd_put_if_absent_def)
qed

lemma cd_step_ok:
  assumes "cd_rel c ps" "0 < cd_max_size c"
  obtains c' ps' where "cd_step cmd c = Some (Inr c')" "cd_rel c' ps'" "cd_max_size c' = cd_max_size c"
    "\<And>core q s. cached_set c' core q = Some s \<Longrightarrow> cached_set c core q = Some s \<or> cmd = Put q core s"
proof (cases cmd)
  case (Put q core s)
  obtain n c' ps' where c': "cd_put_if_absent q core s c = Some (Inr (n, c'))" "cd_rel c' ps'" "cd_max_size c' = cd_max_size c"
      "\<And>core' q' s'. cached_set c' core' q' = Some s' \<Longrightarrow> cached_set c core' q' = Some s' \<or> core' = core \<and> q' = q \<and> s' = s"
    by (rule cd_put_ok [OF assms]) blast
  then show thesis using Put by (intro that [of c' ps']) (auto simp: cd_step_def)
next
  case (Lookup q core)
  obtain it c' ps' where "cd_get q core c = Inr (it, c')" "cd_rel c' ps'" "cd_max_size c' = cd_max_size c" "cached_set c' = cached_set c"
    by (rule cd_get_ok [OF assms(1)]) blast
  then show thesis using Lookup by (intro that [of c' ps']) (simp_all add: cd_step_def)
next
  case (Drop_Core core)
  have d: "cached_set (cd_drop_core core c) core' q = (if core' = core then None else cached_set c core' q)" for core' q
    by (simp add: cached_set_def cd_drop_core_def)
  then have "cd_rel (cd_drop_core core c) ps"
    using assms(1) unfolding cd_rel_def by (auto simp: cd_drop_core_def split: if_splits)
  then show thesis using Drop_Core d
    by (intro that [of "cd_drop_core core c" ps]) (auto simp: cd_step_def cd_drop_core_def split: if_splits)
qed

lemma cd_run_ok:
  assumes "cd_rel c ps" "0 < cd_max_size c"
  obtains c' ps' where "cd_run cmds c = Some (Inr c')" "cd_rel c' ps'" "cd_max_size c' = cd_max_size c"
    "\<And>core q s. cached_set c' core q = Some s \<Longrightarrow> cached_set c core q = Some s \<or> Put q core s \<in> set cmds"
  using assms
proof (induction cmds arbitrary: c ps thesis)
  case Nil
  show ?case by (rule Nil.prems(1) [of c ps]) (use Nil.prems(2) in simp_all)
next
  case (Cons cmd cmds)
  obtain c1 ps1 where c1: "cd_step cmd c = Some (Inr c1)" "cd_rel c1 ps1" "cd_max_size c1 = cd_max_size c"
      "\<And>core q s. cached_set c1 core q = Some s \<Longrightarrow> cached_set c core q = Some s \<or> cmd = Put q core s"
    by (rule cd_step_ok [OF Cons.prems(2,3)]) blast
  have pos: "0 < cd_max_size c1" using c1(3) Cons.prems(3) by simp
  obtain c2 ps2 where c2: "cd_run cmds c1 = Some (Inr c2)" "cd_rel c2 ps2" "cd_max_size c2 = cd_max_size c1"
      "\<And>core q s. cached_set c2 core q = Some s \<Longrightarrow> cached_set c1 core q = Some s \<or> Put q core s \<in> set cmds"
    by (rule Cons.IH [OF _ c1(2) pos]) blast
  have "cached_set c core q = Some s \<or> Put q core s \<in> set (cmd # cmds)" if "cached_set c2 core q = Some s" for core q s
    using c2(4) [OF that] c1(4) [of core q s] by auto
  then show ?case using c1(1,3) c2(1-3) by (intro Cons.prems(1) [of c2 ps2]) simp_all
qed

lemma query_cache_new_rel: "cd_rel (query_cache_new n) []"
  using lru_new_wf [where ?'a = string and ?'b = string] unfolding cd_rel_def lru_rel_def
  by (auto simp: query_cache_new_def lru_with_capacity_def lru_pairs_def cached_set_def)

text \<open>
  C7: The contract between the set of cached queries and the per-segment caches. Whatever sequence
  of insertions, lookups and dropped segments a query cache of positive size goes through, every
  step returns (the eviction loop always ends) and succeeds; afterwards no more than \<open>max_size\<close>
  queries are held, every set in a segment's cache belongs to one of these queries, so an eviction
  leaves nothing behind, and it is a set that was inserted for that query and that segment. A cache
  of size 0 instead fails on every insertion, since there is nothing to evict.
\<close>

theorem query_cache_contract:
  "(0 < n \<longrightarrow> (\<exists>c. cd_run cmds (query_cache_new n) = Some (Inr c) \<and> lru_len (cd_unique_queries c) \<le> n \<and>
      (\<forall>core q s. cached_set c core q = Some s \<longrightarrow>
         lru_contains_key q (cd_unique_queries c) \<and> Put q core s \<in> set cmds))) \<and>
   cd_put_if_absent q core s (query_cache_new 0) = Some (Inl (RuntimeError ''Removal from the cache failed!''))"
proof (intro conjI impI)
  assume n: "0 < n"
  have m: "cd_max_size (query_cache_new n) = n" and e: "cached_set (query_cache_new n) core q = None" for core q
    by (simp_all add: query_cache_new_def cached_set_def)
  obtain c ps where c: "cd_run cmds (query_cache_new n) = Some (Inr c)" "cd_rel c ps" "cd_max_size c = n"
      "\<And>core q s. cached_set c core q = Some s \<Longrightarrow> cached_set (query_cache_new n) core q = Some s \<or> Put q core s \<in> set cmds"
    by (rule cd_run_ok [OF query_cache_new_rel [of n], of cmds]) (use n m in auto)
  have r: "lru_rel (cd_unique_queries c) ps" "length ps \<le> n" "\<forall>core q. cached_set c core q \<noteq> None \<longrightarrow> q \<in> fst ` set ps"
    using c(2,3) by (simp_all add: cd_rel_def)
  have "lru_contains_key q (cd_unique_queries c) \<and> Put q core s \<in> set cmds" if "cached_set c core q = Some s" for core q s
    using c(4) [OF that] e r(3) [rule_format, of core q] that lru_rel_views(2) [OF r(1)] by auto
  then show "\<exists>c. cd_run cmds (query_cache_new n) = Some (Inr c) \<and> lru_len (cd_unique_queries c) \<le> n \<and>
      (\<forall>core q s. cached_set c core q = Some s \<longrightarrow> lru_contains_key q (cd_unique_queries c) \<and> Put q core s \<in> set cmds)"
    using c(1) r(2) lru_rel_views(1) [OF r(1)] by auto
next
  have "cd_max_size (query_cache_new 0) = 0" by (simp add: query_cache_new_def)
  then show "cd_put_if_absent q core s (query_cache_new 0) = Some (Inl (RuntimeError ''Removal from the cache failed!''))"
    using cd_evict_ok(2) [OF query_cache_new_rel] by (simp add: cd_put_if_absent_def)
qed

theorem query_cache_contract_witness:
  "\<exists>c. cd_run [Put ''a'' ''s1'' (CacheRoaring (roaring_set_new [] 0)), Put ''b'' ''s1'' (CacheRoaring (roaring_set_new [] 0))] (query_cache_new 1)
      = Some (Inr c) \<and> lru_len (cd_unique_queries c) \<le> 1 \<and>
    (\<forall>core q s. cached_set c core q = Some s \<longrightarrow> lru_contains_key q (cd_unique_queries c))"
  using query_cache_contract [of 1 "[Put ''a'' ''s1'' (CacheRoaring (roaring_set_new [] 0)), Put ''b'' ''s1'' (CacheRoaring (roaring_set_new [] 0))]",
      THEN conjunct1, rule_format, OF zero_less_one]
  by blast

section \<open>Caching what a scorer matches\<close>

text \<open>A new scorer that matches the documents \<open>D\<close>: in one phase, or in two.\<close>

definition fresh_scorer :: "('s, 'e) doc_iterator_scheme \<Rightarrow> 's \<Rightarrow> int set \<Rightarrow> bool" where
  "fresh_scorer I s D \<longleftrightarrow> (\<exists>docs invar. invar s \<and> doc_id I s = - 1 \<and>
     ((\<forall>s. \<not> support_two_phase I s) \<and> exact_cursor I docs invar \<and> approximation I docs invar \<and> D = docs s \<or>
      (\<forall>s. support_two_phase I s) \<and> (\<exists>hits. two_phase I docs invar hits \<and> D = hits s)))"

text \<open>A collector that never touches the scorer, given by what it does to its own state.\<close>

definition pure_collect :: "(int \<Rightarrow> 'c \<Rightarrow> 'c \<times> error option) \<Rightarrow> ('s, 'c) collect" where
  "pure_collect step doc s c = (case step doc c of (c', None) \<Rightarrow> (c', Inr s) | (c', Some e) \<Rightarrow> (c', Inl e))"

lemma pending_all:
  assumes "doc_set D"
  shows "set (pending D 0 NO_MORE_DOCS) = D" "sorted_wrt (<) (pending D 0 NO_MORE_DOCS)" "pending D 0 NO_MORE_DOCS = sorted_list_of_set D"
    "NO_MORE_DOCS \<le> hi \<Longrightarrow> pending D 0 hi = pending D 0 NO_MORE_DOCS"
proof -
  have "{d \<in> D. 0 \<le> d \<and> d < NO_MORE_DOCS} = D" using assms by auto
  then show eq: "pending D 0 NO_MORE_DOCS = sorted_list_of_set D" by (simp add: pending_def)
  have fin: "finite D" using assms by (rule doc_set_finite)
  then show "set (pending D 0 NO_MORE_DOCS) = D" "sorted_wrt (<) (pending D 0 NO_MORE_DOCS)" by (simp_all add: eq)
  assume "NO_MORE_DOCS \<le> hi"
  then have "{d \<in> D. 0 \<le> d \<and> d < hi} = D" using assms by force
  then show "pending D 0 hi = pending D 0 NO_MORE_DOCS" by (simp add: eq) (simp add: pending_def)
qed

lemma filter_pending:
  assumes "doc_set D" "H \<subseteq> D"
  shows "filter (\<lambda>d. d \<in> H) (pending D 0 NO_MORE_DOCS) = pending H 0 NO_MORE_DOCS"
proof (rule sorted_distinct_set_unique)
  have H: "doc_set H" using assms by auto
  note P = pending_all [OF assms(1)] and Q = pending_all [OF H]
  show "sorted (filter (\<lambda>d. d \<in> H) (pending D 0 NO_MORE_DOCS))" "distinct (filter (\<lambda>d. d \<in> H) (pending D 0 NO_MORE_DOCS))"
    using P(2) by (simp_all add: strict_sorted_iff sorted_wrt_filter sorted_filter [where f = id, simplified])
  show "sorted (pending H 0 NO_MORE_DOCS)" "distinct (pending H 0 NO_MORE_DOCS)" using Q(2) by (simp_all add: strict_sorted_iff)
  show "set (filter (\<lambda>d. d \<in> H) (pending D 0 NO_MORE_DOCS)) = set (pending H 0 NO_MORE_DOCS)" using P(1) Q(1) assms(2) by auto
qed

lemma bulk_score_all_one_phase:
  assumes "exact_cursor I docs invar" "approximation I docs invar" "invar s" "doc_id I s = - 1" "\<And>s. \<not> support_two_phase I s"
  shows "\<exists>stop. collected step (pending (docs s) 0 NO_MORE_DOCS) c stop
    (bulk_score I (pure_collect step) None 0 NO_MORE_DOCS limit s c)"
proof -
  have opc: "one_phase_collecting I docs invar (pure_collect step) step"
    unfolding one_phase_collecting_def collecting_def collecting_axioms_def
    using assms(1) by (auto simp: exact_cursor_def pure_collect_def)
  let ?d = "first_ge (docs s) 0"
  obtain s' where s': "approximate_next I s = Inr (?d, s')" "invar s'" "docs s' = docs s" "doc_id I s' = ?d"
    using bulk_start [OF assms(2,3), of 0 NO_MORE_DOCS] assms(4) by (auto elim!: movesE)
  note D = doc_cursor.docs_range [OF approximation.axioms [OF assms(2)] assms(3)]
  have "0 \<le> ?d" using first_ge_ge [OF D, of 0] by simp
  then have "collected step (filter (\<lambda>d. True) (pending (docs s') (doc_id I s') NO_MORE_DOCS)) c (first_ge (docs s') (max (doc_id I s') NO_MORE_DOCS))
      (score_loop I (pure_collect step) (\<lambda>d. Inr True) NO_MORE_DOCS (doc_id I s') s' c)"
    using one_phase_collecting.score_loop_collects [OF opc s'(2), of "\<lambda>d. Inr True" "\<lambda>d. True" NO_MORE_DOCS c] s'(4) by simp
  then show ?thesis
    using s' assms(5) pending_first_ge [OF D, of 0]
    by (auto simp: bulk_score_def score_range_def score_range_all_def)
qed

lemma bulk_score_all_two_phase:
  assumes "two_phase I docs invar hits" "invar s" "doc_id I s = - 1" "\<And>s. support_two_phase I s"
  shows "\<exists>stop. collected step (pending (hits s) 0 NO_MORE_DOCS) c stop
    (bulk_score I (pure_collect step) None 0 NO_MORE_DOCS (nat NO_MORE_DOCS) s c)"
proof -
  have ap: "approximation I docs invar" using assms(1) by (simp add: two_phase_def)
  then have tpc: "two_phase_collecting I docs invar hits (pure_collect step) step"
    using assms(1) unfolding two_phase_collecting_def collecting_def collecting_axioms_def
    by (auto simp: approximation_def pure_collect_def)
  let ?d = "first_ge (docs s) 0"
  obtain s' where s': "approximate_next I s = Inr (?d, s')" "invar s'" "docs s' = docs s" "doc_id I s' = ?d"
    using bulk_start [OF ap assms(2), of 0 NO_MORE_DOCS] assms(3) by (auto elim!: movesE)
  have hits: "hits s' = hits s" "hits s \<subseteq> docs s"
    using two_phase.hits_next [OF assms(1,2) s'(1)] two_phase.hits_docs [OF assms(1,2)] by simp_all
  note D = doc_cursor.docs_range [OF approximation.axioms [OF ap] assms(2)]
  have ge: "0 \<le> ?d" using first_ge_ge [OF D, of 0] by simp
  then obtain stop where stop: "collected step (filter (\<lambda>d. True \<and> d \<in> hits s') (pending (docs s') (doc_id I s') stop)) c stop
      (score_loop_two_phase I (pure_collect step) (\<lambda>d. Inr True) NO_MORE_DOCS (nat NO_MORE_DOCS) 0 0 (doc_id I s') s' c)"
      "two_phase_collecting.two_phase_stop I docs hits (\<lambda>d. True) s' NO_MORE_DOCS (nat NO_MORE_DOCS) 0 0 stop"
    using two_phase_collecting.score_loop_two_phase_collects [OF tpc s'(2), of "\<lambda>d. Inr True" "\<lambda>d. True" NO_MORE_DOCS c "nat NO_MORE_DOCS" 0 0] s'(4)
    by auto
  have len: "length (pending (docs s) ?d stop) \<le> nat NO_MORE_DOCS"
  proof -
    have "card {d \<in> docs s. ?d \<le> d \<and> d < stop} \<le> card {0..<NO_MORE_DOCS}" using D by (intro card_mono) auto
    then show ?thesis by (simp add: pending_def)
  qed
  then have "NO_MORE_DOCS \<le> stop"
    using stop(2) s'(3,4) by (simp add: two_phase_collecting.two_phase_stop_def [OF tpc])
  then have "pending (docs s) ?d stop = pending (docs s) 0 NO_MORE_DOCS"
    using pending_first_ge [OF D, of 0 stop] pending_all(4) [OF D, of stop] by simp
  then have "collected step (pending (hits s) 0 NO_MORE_DOCS) c stop
      (score_loop_two_phase I (pure_collect step) (\<lambda>d. Inr True) NO_MORE_DOCS (nat NO_MORE_DOCS) 0 0 ?d s' c)"
    using stop(1) s'(3,4) hits filter_pending [OF D hits(2)] by simp
  then show ?thesis using s'(1) assms(4) by (auto simp: bulk_score_def score_range_def score_range_all_def)
qed

lemma bulk_score_all:
  assumes "fresh_scorer I s D"
  obtains stop where "collected step (pending D 0 NO_MORE_DOCS) c stop
    (bulk_score I (pure_collect step) None 0 NO_MORE_DOCS (nat NO_MORE_DOCS) s c)"
proof -
  obtain docs invar where s: "invar s" "doc_id I s = - 1" and
    "(\<forall>s. \<not> support_two_phase I s) \<and> exact_cursor I docs invar \<and> approximation I docs invar \<and> D = docs s \<or>
      (\<forall>s. support_two_phase I s) \<and> (\<exists>hits. two_phase I docs invar hits \<and> D = hits s)"
    using assms unfolding fresh_scorer_def by blast
  then show thesis
    using bulk_score_all_one_phase [of I docs invar s step c "nat NO_MORE_DOCS"] bulk_score_all_two_phase [of I docs invar _ s step c] s that
    by blast
qed

text \<open>An iterator, and a set, that hold the documents \<open>D\<close> of a segment with \<open>m\<close> documents.\<close>

definition iterates_docs :: "('s, 'e) doc_iterator_scheme \<Rightarrow> int \<Rightarrow> int set \<Rightarrow> 's \<Rightarrow> bool" where
  "iterates_docs I m D it \<longleftrightarrow> (\<forall>ms. forward_moves D (65536 * ((m + 65535) div 65536)) (- 1) ms \<longrightarrow>
     run_moves I ms it = Inr (move_results D (- 1) ms))"

definition set_sound :: "int \<Rightarrow> int set \<Rightarrow> cache_set \<Rightarrow> bool" where
  "set_sound m D s \<longleftrightarrow> (case cache_set_iterator s of
     Inl e \<Rightarrow> False | Inr None \<Rightarrow> D = {} | Inr (Some it) \<Rightarrow> iterates_docs cache_iter_iter m D it)"

definition bitset_step :: "int \<Rightarrow> bitset_leaf_collector \<Rightarrow> bitset_leaf_collector \<times> error option" where
  "bitset_step doc c = (case bitset_collect doc () c of (c', Inr _) \<Rightarrow> (c', None) | (c', Inl e) \<Rightarrow> (c', Some e))"

definition doc_id_set_step :: "int \<Rightarrow> roaring_builder \<Rightarrow> roaring_builder \<times> error option" where
  "doc_id_set_step doc b = (case doc_id_set_collect doc () b of (b', Inr _) \<Rightarrow> (b', None) | (b', Inl e) \<Rightarrow> (b', Some e))"

lemma pure_collectors: "bitset_collect = pure_collect bitset_step" "doc_id_set_collect = pure_collect doc_id_set_step"
  by (simp_all add: fun_eq_iff pure_collect_def bitset_step_def bitset_collect_def doc_id_set_step_def doc_id_set_collect_def Let_def
      split: sum.split)

lemma collect_bitset:
  assumes "fbs_inv (bl_bit_set c)" "\<And>d. d \<in> set ds \<Longrightarrow> 0 \<le> d \<and> d < int (fbs_num_bits (bl_bit_set c))"
    and "0 \<le> bl_cost c" "bl_cost c + int (length ds) \<le> 9223372036854775807" "fbs_num_bits (bl_bit_set c) < 2147483648"
  obtains c' where "collect_docs bitset_step ds c = (c', None)" "fbs_inv (bl_bit_set c')"
    "fbs_abs (bl_bit_set c') = fbs_abs (bl_bit_set c) \<union> nat ` set ds" "fbs_num_bits (bl_bit_set c') = fbs_num_bits (bl_bit_set c)"
  using assms
proof (induction ds arbitrary: c thesis)
  case Nil
  show ?case by (rule Nil.prems(1) [of c]) (use Nil.prems(2) in simp_all)
next
  case (Cons d ds)
  have d: "0 \<le> d" "d < int (fbs_num_bits (bl_bit_set c))" using Cons.prems(3) by simp_all
  have "nat d < fbs_num_bits (bl_bit_set c)" using d by simp
  from fbs_set_eq [OF Cons.prems(2) this] obtain b where b: "fbs_set (nat d) (bl_bit_set c) = Inr b" "fbs_inv b"
      "fbs_abs b = insert (nat d) (fbs_abs (bl_bit_set c))" "fbs_num_bits b = fbs_num_bits (bl_bit_set c)"
    by auto
  let ?c = "c\<lparr>bl_cost := bl_cost c + 1, bl_bit_set := b\<rparr>"
  have "as_usize d = nat d" using d Cons.prems(6) by (intro as_usize_nonneg) auto
  then have step: "bitset_step d c = (?c, None)"
    using b(1) Cons.prems(5) by (simp add: bitset_step_def bitset_collect_def Let_def)
  obtain c' where "collect_docs bitset_step ds ?c = (c', None)" "fbs_inv (bl_bit_set c')"
      "fbs_abs (bl_bit_set c') = fbs_abs (bl_bit_set ?c) \<union> nat ` set ds" "fbs_num_bits (bl_bit_set c') = fbs_num_bits (bl_bit_set ?c)"
    by (rule Cons.IH [of ?c]) (use b Cons.prems in auto)
  then show ?case using step b by (intro Cons.prems(1) [of c']) auto
qed

lemma collect_roaring: "rb_add_docs ds b = Inr b' \<Longrightarrow> collect_docs doc_id_set_step ds b = (b', None)"
proof (induction ds arbitrary: b)
  case (Cons d ds)
  then show ?case
    by (auto simp: rbind_eq_Inr doc_id_set_step_def doc_id_set_collect_def)
qed simp

lemma collected_done:
  assumes "collected step ds c stop r" "collect_docs step ds c = (c', None)"
  obtains s' where "r = Some (c', Inr (stop, s'))"
  using assms by (auto simp: collected_def)

lemma cache_into_bitset_sound:
  assumes "fresh_scorer I s D" "D \<subseteq> {0..<m}" "0 \<le> m" "m + 65536 \<le> 2147483647"
  obtains d where "cache_into_bitset I m s = Some (Inr d)" "set_sound m D (CacheBit d)"
proof -
  have D: "doc_set D" using assms(2,4) by auto
  have u: "as_usize m = nat m" using assms(3,4) by (intro as_usize_nonneg) auto
  have "nat m < 2147483648" using assms(3,4) by simp
  from fbs_new_eq [OF this] obtain b where b: "fbs_new (nat m) = Inr b" "fbs_inv b" "fbs_abs b = {}" "fbs_num_bits b = nat m" by auto
  let ?c = "\<lparr>bl_bit_set = b, bl_cost = 0\<rparr>" and ?ds = "pending D 0 NO_MORE_DOCS"
  have "card D \<le> card {0..<m}" using assms(2) by (intro card_mono) auto
  then have len: "int (length ?ds) \<le> 2147483647"
    using assms(3,4) doc_set_finite [OF D] by (simp add: pending_all(3) [OF D])
  obtain c where c: "collect_docs bitset_step ?ds ?c = (c, None)" "fbs_inv (bl_bit_set c)" "fbs_abs (bl_bit_set c) = nat ` D"
      "fbs_num_bits (bl_bit_set c) = nat m"
    by (rule collect_bitset [of ?c ?ds]) (use b pending_all(1) [OF D] assms len in auto)
  obtain stop where "collected bitset_step ?ds ?c stop (bulk_score I bitset_collect None 0 NO_MORE_DOCS (nat NO_MORE_DOCS) s ?c)"
    unfolding pure_collectors(1) by (rule bulk_score_all [OF assms(1)])
  then obtain s' where s': "bulk_score I bitset_collect None 0 NO_MORE_DOCS (nat NO_MORE_DOCS) s ?c = Some (c, Inr (stop, s'))"
    using collected_done [OF _ c(1)] by metis
  let ?d = "bit_doc_id_set_new (bl_bit_set c) (as_usize (bl_cost c))"
  let ?it = "\<lparr>bsd_bits = bl_bit_set c, bsd_length = fbs_len (bl_bit_set c), bsd_cost = as_usize (bl_cost c), bsd_doc = - 1\<rparr>"
  let ?sets = "replicate (nat ((m + 65535) div 65536)) None :: doc_id_set_enum option list"
  have "int ` nat ` D = D" using assms(2) by (force simp: image_image)
  then have it: "cache_iter_inv ?sets (CacheBitIter ?it)" "cache_iter_docs (CacheBitIter ?it) = D" "cache_iter_doc_id (CacheBitIter ?it) = - 1"
    using c(2,3) by (simp_all add: cache_iter_views bit_set_doc_inv_def bit_set_doc_docs_def bit_set_doc_iter_def)
  have "65536 * int (length ?sets) = 65536 * ((m + 65535) div 65536)" using assms(3) by simp
  then have "iterates_docs cache_iter_iter m D (CacheBitIter ?it)"
    unfolding iterates_docs_def using cached.run_moves_ok [OF it(1)] it(2,3) by (simp del: length_replicate)
  then have "set_sound m D (CacheBit ?d)"
    by (simp add: set_sound_def cache_set_iterator_def bit_doc_id_set_iterator_def bit_set_doc_new_def bit_doc_id_set_new_def)
  moreover have "cache_into_bitset I m s = Some (Inr ?d)" using u b(1) s' by (simp add: cache_into_bitset_def)
  ultimately show thesis by (intro that)
qed

lemma cache_into_roaring_sound:
  assumes "fresh_scorer I s D" "D \<subseteq> {0..<m}" "0 \<le> m" "m + 65536 \<le> 2147483647" "\<And>k. \<not> super_dense m (sorted_list_of_set D) k"
  obtains d where "cache_into_roaring I m s = Some (Inr d)" "set_sound m D (CacheRoaring d)"
proof -
  have D: "doc_set D" using assms(2,4) by auto
  let ?ds = "pending D 0 NO_MORE_DOCS"
  note P = pending_all [OF D]
  have "added_docs m ?ds" using P(1,2) assms(2-4) by (simp add: added_docs_def)
  then obtain b d where b: "rbind (rb_new m) (rb_add_docs ?ds) = Inr b" "rb_build b = Inr d"
      "?ds = [] \<Longrightarrow> cache_set_iterator (CacheRoaring d) = Inr None"
      "?ds \<noteq> [] \<Longrightarrow> \<exists>it. cache_set_iterator (CacheRoaring d) = Inr (Some it) \<and>
         (\<forall>ms. forward_moves (set ?ds) (65536 * ((m + 65535) div 65536)) (- 1) ms \<longrightarrow>
            run_moves cache_iter_iter ms it = Inr (move_results (set ?ds) (- 1) ms))"
    using roaring_builds [of m ?ds] assms(5) P(3) by metis
  obtain b0 where b0: "rb_new m = Inr b0" "rb_add_docs ?ds b0 = Inr b" using b(1) by (auto simp: rbind_eq_Inr)
  obtain stop where "collected doc_id_set_step ?ds b0 stop (bulk_score I doc_id_set_collect None 0 NO_MORE_DOCS (nat NO_MORE_DOCS) s b0)"
    unfolding pure_collectors(2) by (rule bulk_score_all [OF assms(1)])
  then obtain s' where "bulk_score I doc_id_set_collect None 0 NO_MORE_DOCS (nat NO_MORE_DOCS) s b0 = Some (b, Inr (stop, s'))"
    using collected_done [OF _ collect_roaring [OF b0(2)]] by metis
  then have "cache_into_roaring I m s = Some (Inr d)" using b0(1) b(2) by (simp add: cache_into_roaring_def)
  moreover have "set_sound m D (CacheRoaring d)"
    using b(3,4) P(1) by (cases "?ds = []") (auto simp: set_sound_def iterates_docs_def)
  ultimately show thesis by (rule that)
qed

lemma cache_impl_sound:
  assumes "fresh_scorer I s D" "D \<subseteq> {0..<m}" "0 \<le> m" "m + 65536 \<le> 2147483647" "\<And>k. \<not> super_dense m (sorted_list_of_set D) k"
    "cost I s * 100 < 2 ^ 64"
  obtains d where "cache_impl I m s = Some (Inr d)" "set_sound m D d"
proof -
  have "\<not> 2 ^ 64 \<le> cost I s * 100" using assms(6) by simp
  note impl = cache_impl_def [of I m s, unfolded if_not_P [OF this]]
  show thesis
  proof (cases "as_usize m < cost I s * 100")
    case True
    obtain d where "cache_into_bitset I m s = Some (Inr d)" "set_sound m D (CacheBit d)" by (rule cache_into_bitset_sound [OF assms(1-4)])
    then show thesis using True by (intro that [of "CacheBit d"]) (simp_all add: impl)
  next
    case False
    obtain d where "cache_into_roaring I m s = Some (Inr d)" "set_sound m D (CacheRoaring d)" by (rule cache_into_roaring_sound [OF assms(1-5)])
    then show thesis using False by (intro that [of "CacheRoaring d"]) (simp_all add: impl)
  qed
qed

lemma run_moves_constant: "run_moves (constant_score_iter I) ms c = run_moves I ms (cs_iterator c)"
proof (induction ms arbitrary: c)
  case (Cons m ms)
  then show ?case
    by (cases m) (simp_all add: constant_score_iter_def cs_lift_def rbind_def case_prod_beta split: sum.split)
qed simp

section \<open>Caching does not change what a query matches\<close>

text \<open>\<open>W q core\<close> are the documents query \<open>q\<close> matches in a segment, \<open>M core\<close> its number of documents.\<close>

definition cache_sound :: "(string \<Rightarrow> int) \<Rightarrow> (string \<Rightarrow> string \<Rightarrow> int set) \<Rightarrow> cache_data \<Rightarrow> bool" where
  "cache_sound M W c \<longleftrightarrow> (\<forall>core q s. cached_set c core q = Some s \<longrightarrow> set_sound (M core) (W q core) s)"

definition weight_ok :: "('s, 'e) doc_iterator_scheme \<Rightarrow> (string \<Rightarrow> 's option result) \<Rightarrow> string \<Rightarrow> int \<Rightarrow> int set \<Rightarrow> bool" where
  "weight_ok I create_scorer core m D \<longleftrightarrow> 0 \<le> m \<and> m + 65536 \<le> 2147483647 \<and> D \<subseteq> {0..<m} \<and>
     (\<forall>k. \<not> super_dense m (sorted_list_of_set D) k) \<and>
     (case create_scorer core of
        Inl e \<Rightarrow> False | Inr None \<Rightarrow> D = {} | Inr (Some s) \<Rightarrow> fresh_scorer I s D \<and> cost I s * 100 < 2 ^ 64)"

definition scorer_for :: "(string \<Rightarrow> 's option result) \<Rightarrow> string \<Rightarrow> int \<Rightarrow> int set \<Rightarrow> 's caching_scorer option \<Rightarrow> bool" where
  "scorer_for create_scorer core m D r =
     (case r of
        None \<Rightarrow> D = {}
      | Some (Own s) \<Rightarrow> create_scorer core = Inr (Some s)
      | Some (Cached k) \<Rightarrow> iterates_docs (constant_score_iter cache_iter_iter) m D k)"

lemma own_scorer_ok:
  assumes "weight_ok I create_scorer core m D"
  obtains r where "own_scorer create_scorer core c = Some (Inr (r, c))" "scorer_for create_scorer core m D r"
proof (cases "create_scorer core")
  case (Inr x)
  then show thesis
    using assms by (cases x) (auto simp: weight_ok_def own_scorer_def scorer_for_def intro!: that)
qed (use assms in \<open>simp add: weight_ok_def\<close>)

lemma constant_over_ok:
  "iterates_docs cache_iter_iter m D it \<Longrightarrow> iterates_docs (constant_score_iter cache_iter_iter) m D (constant_over it)"
  by (simp add: iterates_docs_def run_moves_constant constant_over_def)

lemma caching_cache_ok:
  assumes w: "weight_ok I create_scorer core (M core) (W q core)" and c: "cd_rel c ps" "0 < cd_max_size c" "cache_sound M W c"
  obtains it l c' ps' where "caching_cache I create_scorer (M core) core q c = Some (Inr (it, l, c'))" "cd_rel c' ps'" "cache_sound M W c'"
    "case it of None \<Rightarrow> W q core = {} | Some i \<Rightarrow> iterates_docs cache_iter_iter (M core) (W q core) i"
proof (cases "create_scorer core")
  case (Inl e)
  then show thesis using w by (simp add: weight_ok_def)
next
  case (Inr x)
  show thesis
  proof (cases x)
    case None
    then show thesis using Inr w c by (intro that [of None False c ps]) (simp_all add: caching_cache_def weight_ok_def)
  next
    case (Some s)
    have "fresh_scorer I s (W q core)" "W q core \<subseteq> {0..<M core}" "0 \<le> M core" "M core + 65536 \<le> 2147483647"
        "\<And>k. \<not> super_dense (M core) (sorted_list_of_set (W q core)) k" "cost I s * 100 < 2 ^ 64"
      using w Inr Some unfolding weight_ok_def by auto
    then obtain d where d: "cache_impl I (M core) s = Some (Inr d)" "set_sound (M core) (W q core) d" by (rule cache_impl_sound)
    then obtain it where it: "cache_set_iterator d = Inr it"
        "case it of None \<Rightarrow> W q core = {} | Some i \<Rightarrow> iterates_docs cache_iter_iter (M core) (W q core) i"
      by (auto simp: set_sound_def split: sum.splits)
    obtain n c' ps' where c': "cd_put_if_absent q core d c = Some (Inr (n, c'))" "cd_rel c' ps'"
        "\<And>core' q' s'. cached_set c' core' q' = Some s' \<Longrightarrow> cached_set c core' q' = Some s' \<or> core' = core \<and> q' = q \<and> s' = d"
      by (rule cd_put_ok [OF c(1,2)]) blast
    have "cache_sound M W c'" using c'(3) c(3) d(2) unfolding cache_sound_def by blast
    then show thesis using Inr Some d(1) it c' by (intro that [of it n c' ps']) (simp_all add: caching_cache_def)
  qed
qed



end
