(* ===== verification/Cache_Policy.thy ===== *)
theory Cache_Policy
  imports Rucene_Prelude
begin

text \<open>
  The policy that decides which queries are worth caching (\<^verbatim>\<open>search/cache/cache_policy.rs\<close>): a ring
  buffer of the hash codes of the recently used queries, with their frequencies in an open-addressing
  hash table that relocates keys when it removes one. Frequencies are \<open>u32\<close> numbers whose overflow
  panics. The loops over the table are partial functions: they return because a slot is free. The
  mutex around the buffer is taken to be free of poisoning.
\<close>

section \<open>The bag of integers\<close>

function next_power_from :: "nat \<Rightarrow> nat \<Rightarrow> nat" where
  "next_power_from p n = (if n \<le> p \<or> p = 0 then p else next_power_from (2 * p) n)"
  by pat_completeness auto
termination by (relation "measure (\<lambda>(p, n). n - p)") auto

declare next_power_from.simps [simp del]

definition next_power_of_two :: "nat \<Rightarrow> nat" where
  "next_power_of_two n = next_power_from 1 n"

record int_bag =
  ib_keys :: "u32 list"
  ib_freqs :: "nat list"
  ib_mask :: nat

definition ib_new :: "nat \<Rightarrow> int_bag result" where
  "ib_new max_size =
     (if 2 ^ 64 \<le> max_size * 3 then Inl (Panic ''attempt to multiply with overflow'')
      else let capacity = next_power_of_two (max 2 (max_size * 3 div 2))
           in if \<not> max_size < capacity then Inl (Panic ''capacity > max_size'')
              else Inr \<lparr>ib_keys = replicate capacity 0, ib_freqs = replicate capacity 0, ib_mask = capacity - 1\<rparr>)"

definition ib_in_bounds :: "nat \<Rightarrow> int_bag \<Rightarrow> bool" where
  "ib_in_bounds slot b \<longleftrightarrow> slot < length (ib_keys b) \<and> slot < length (ib_freqs b)"

partial_function (option) ib_frequency_loop :: "u32 \<Rightarrow> nat \<Rightarrow> int_bag \<Rightarrow> nat result option" where
  "ib_frequency_loop key slot b =
     (if \<not> ib_in_bounds slot b then Some (Inl (Panic ''index out of bounds''))
      else if ib_keys b ! slot = key then Some (Inr (ib_freqs b ! slot))
      else if ib_freqs b ! slot = 0 then Some (Inr 0)
      else ib_frequency_loop key ((slot + 1) AND ib_mask b) b)"

definition ib_frequency :: "u32 \<Rightarrow> int_bag \<Rightarrow> nat result option" where
  "ib_frequency key b = ib_frequency_loop key (unat key AND ib_mask b) b"

partial_function (option) ib_add_loop :: "u32 \<Rightarrow> nat \<Rightarrow> int_bag \<Rightarrow> (nat \<times> int_bag) result option" where
  "ib_add_loop key slot b =
     (if \<not> ib_in_bounds slot b then Some (Inl (Panic ''index out of bounds''))
      else if ib_freqs b ! slot = 0
      then Some (Inr (1, b\<lparr>ib_keys := (ib_keys b)[slot := key], ib_freqs := (ib_freqs b)[slot := 1]\<rparr>))
      else if ib_keys b ! slot = key
      then if 2 ^ 32 \<le> ib_freqs b ! slot + 1 then Some (Inl (Panic ''attempt to add with overflow''))
           else Some (Inr (ib_freqs b ! slot + 1, b\<lparr>ib_freqs := (ib_freqs b)[slot := ib_freqs b ! slot + 1]\<rparr>))
      else ib_add_loop key ((slot + 1) AND ib_mask b) b)"

definition ib_add :: "u32 \<Rightarrow> int_bag \<Rightarrow> (nat \<times> int_bag) result option" where
  "ib_add key b = ib_add_loop key (unat key AND ib_mask b) b"

definition between :: "nat \<Rightarrow> nat \<Rightarrow> nat \<Rightarrow> bool" where
  "between chain_start chain_end slot \<longleftrightarrow>
     (if chain_start \<le> chain_end then chain_start \<le> slot \<and> slot \<le> chain_end
      else chain_start \<le> slot \<or> slot \<le> chain_end)"

partial_function (option) ib_relocate_loop :: "nat \<Rightarrow> nat \<Rightarrow> int_bag \<Rightarrow> int_bag result option" where
  "ib_relocate_loop free_slot slot b =
     (if \<not> ib_in_bounds slot b \<or> \<not> ib_in_bounds free_slot b then Some (Inl (Panic ''index out of bounds''))
      else let freq = ib_freqs b ! slot
           in if freq = 0 then Some (Inr b)
              else let key = ib_keys b ! slot
                   in if between (unat key AND ib_mask b) slot free_slot
                      then ib_relocate_loop slot ((slot + 1) AND ib_mask b)
                             (b\<lparr>ib_keys := (ib_keys b)[free_slot := key], ib_freqs := (ib_freqs b)[free_slot := freq, slot := 0]\<rparr>)
                      else ib_relocate_loop free_slot ((slot + 1) AND ib_mask b) b)"

definition ib_relocate :: "nat \<Rightarrow> int_bag \<Rightarrow> int_bag result option" where
  "ib_relocate free_slot b = ib_relocate_loop free_slot ((free_slot + 1) AND ib_mask b) b"

partial_function (option) ib_remove_loop :: "u32 \<Rightarrow> nat \<Rightarrow> int_bag \<Rightarrow> (bool \<times> int_bag) result option" where
  "ib_remove_loop key slot b =
     (if \<not> ib_in_bounds slot b then Some (Inl (Panic ''index out of bounds''))
      else if ib_freqs b ! slot = 0 then Some (Inr (False, b))
      else if ib_keys b ! slot = key
      then let b1 = b\<lparr>ib_freqs := (ib_freqs b)[slot := ib_freqs b ! slot - 1]\<rparr>
           in if ib_freqs b1 ! slot = 0 then map_option (\<lambda>r. rbind r (\<lambda>b2. Inr (True, b2))) (ib_relocate slot b1)
              else Some (Inr (True, b1))
      else ib_remove_loop key ((slot + 1) AND ib_mask b) b)"

definition ib_remove :: "u32 \<Rightarrow> int_bag \<Rightarrow> (bool \<times> int_bag) result option" where
  "ib_remove key b = ib_remove_loop key (unat key AND ib_mask b) b"

section \<open>The ring buffer\<close>

record frequency_ring =
  fr_max_size :: nat
  fr_buffer :: "u32 list"
  fr_position :: nat
  fr_frequencies :: int_bag

fun ib_add_times :: "nat \<Rightarrow> u32 \<Rightarrow> int_bag \<Rightarrow> int_bag result option" where
  "ib_add_times 0 key b = Some (Inr b)"
| "ib_add_times (Suc n) key b =
     (case ib_add key b of
        None \<Rightarrow> None | Some (Inl e) \<Rightarrow> Some (Inl e) | Some (Inr (_, b')) \<Rightarrow> ib_add_times n key b')"

definition fr_new :: "nat \<Rightarrow> u32 \<Rightarrow> frequency_ring result option" where
  "fr_new max_size sentinel =
     (if \<not> 2 \<le> max_size then Some (Inl (Panic ''maxSize must be at least 2''))
      else case ib_new max_size of
        Inl e \<Rightarrow> Some (Inl e)
      | Inr b0 \<Rightarrow>
          (case ib_add_times max_size sentinel b0 of
             None \<Rightarrow> None
           | Some (Inl e) \<Rightarrow> Some (Inl e)
           | Some (Inr b) \<Rightarrow>
               (case ib_frequency sentinel b of
                  None \<Rightarrow> None
                | Some (Inl e) \<Rightarrow> Some (Inl e)
                | Some (Inr f) \<Rightarrow>
                    if f \<noteq> max_size mod 2 ^ 32 then Some (Inl (Panic ''frequencies.frequency(sentinel) == max_size''))
                    else Some (Inr \<lparr>fr_max_size = max_size, fr_buffer = replicate max_size sentinel, fr_position = 0,
                                     fr_frequencies = b\<rparr>))))"

definition fr_add :: "u32 \<Rightarrow> frequency_ring \<Rightarrow> frequency_ring result option" where
  "fr_add i r =
     (if \<not> fr_position r < length (fr_buffer r) then Some (Inl (Panic ''index out of bounds''))
      else let removed = fr_buffer r ! fr_position r
           in case ib_remove removed (fr_frequencies r) of
                None \<Rightarrow> None
              | Some (Inl e) \<Rightarrow> Some (Inl e)
              | Some (Inr (removed_from_bag, b)) \<Rightarrow>
                  if \<not> removed_from_bag then Some (Inl (Panic ''removed_from_bag''))
                  else (case ib_add i b of
                          None \<Rightarrow> None
                        | Some (Inl e) \<Rightarrow> Some (Inl e)
                        | Some (Inr (_, b')) \<Rightarrow>
                            Some (Inr (r\<lparr>fr_buffer := (fr_buffer r)[fr_position r := i], fr_frequencies := b',
                                         fr_position := (fr_position r + 1) mod fr_max_size r\<rparr>))))"

definition fr_frequency :: "u32 \<Rightarrow> frequency_ring \<Rightarrow> nat result option" where
  "fr_frequency key r = ib_frequency key (fr_frequencies r)"

section \<open>The policy\<close>

definition SENTINEL :: u32 where
  "SENTINEL = - 1"

definition CONSTANT :: string where
  "CONSTANT = ''constant''"

definition MATCH_ALL :: string where
  "MATCH_ALL = ''match_all''"

definition POINT_RANGE :: string where
  "POINT_RANGE = ''point_range''"

definition TERM_QUERY :: string where
  "TERM_QUERY = ''term''"

definition policy_new :: "nat \<Rightarrow> frequency_ring result option" where
  "policy_new history_size = fr_new history_size SENTINEL"

definition policy_default :: "frequency_ring result option" where
  "policy_default = policy_new 1024"

definition policy_is_costly :: "string \<Rightarrow> bool" where
  "policy_is_costly actual_query_type \<longleftrightarrow> actual_query_type = POINT_RANGE"

definition policy_is_cheap :: "string \<Rightarrow> bool" where
  "policy_is_cheap actual_query_type \<longleftrightarrow> actual_query_type = TERM_QUERY"

definition policy_cache_min_frequency :: "string \<Rightarrow> nat" where
  "policy_cache_min_frequency ty = (if policy_is_costly ty then 2 else if policy_is_cheap ty then 20 else 5)"

definition policy_frequency :: "string \<Rightarrow> u32 \<Rightarrow> frequency_ring \<Rightarrow> nat result option" where
  "policy_frequency actual_query_type hash_code p =
     (if \<not> actual_query_type \<noteq> CONSTANT then Some (Inl (Panic ''w.actual_query_type() != CONSTANT''))
      else fr_frequency hash_code p)"

definition policy_on_use :: "string \<Rightarrow> u32 \<Rightarrow> frequency_ring \<Rightarrow> frequency_ring result option" where
  "policy_on_use query_type hash_code p =
     (if \<not> query_type \<noteq> CONSTANT then Some (Inl (Panic ''weight.query_type() != CONSTANT''))
      else fr_add hash_code p)"

definition policy_should_cache :: "string \<Rightarrow> u32 \<Rightarrow> frequency_ring \<Rightarrow> bool result option" where
  "policy_should_cache actual_query_type hash_code p =
     (if actual_query_type = MATCH_ALL then Some (Inr False)
      else map_option (\<lambda>r. rbind r (\<lambda>f. Inr (policy_cache_min_frequency actual_query_type \<le> f)))
             (policy_frequency actual_query_type hash_code p))"

section \<open>Cyclic distances\<close>

definition off :: "nat \<Rightarrow> nat \<Rightarrow> nat \<Rightarrow> nat" where
  "off n a t = (if a \<le> t then t - a else t + n - a)"

lemma off_less: "a < n \<Longrightarrow> t < n \<Longrightarrow> off n a t < n"
  by (auto simp: off_def)

lemma mod_wrap: "x < n \<Longrightarrow> j < n \<Longrightarrow> (x + j) mod n = (if x + j < n then x + j else x + j - n)" for x n :: nat
  by (simp add: mod_if)

lemma off_plus: "a < n \<Longrightarrow> t < n \<Longrightarrow> (a + off n a t) mod n = t"
  by (auto simp: off_def mod_if)

lemma off_step: "a < n \<Longrightarrow> j < n \<Longrightarrow> off n a ((a + j) mod n) = j"
  by (auto simp: off_def mod_wrap)

lemma off_next: "a < n \<Longrightarrow> s < n \<Longrightarrow> Suc (off n a s) < n \<Longrightarrow> off n a ((s + 1) mod n) = Suc (off n a s)"
  by (auto simp: off_def mod_if split: if_splits)

lemma off_add: "a < n \<Longrightarrow> b < n \<Longrightarrow> c < n \<Longrightarrow> off n a b + off n b c < n \<Longrightarrow> off n a c = off n a b + off n b c"
  by (auto simp: off_def split: if_splits)

lemma off_0: "a < n \<Longrightarrow> t < n \<Longrightarrow> off n a t = 0 \<longleftrightarrow> t = a"
  by (auto simp: off_def)

lemma off_self: "off n a a = 0"
  by (simp add: off_def)

lemma off_trans: "a < n \<Longrightarrow> b < n \<Longrightarrow> c < n \<Longrightarrow> off n a b < off n a c \<Longrightarrow> off n a c = off n a b + off n b c"
  by (auto simp: off_def split: if_splits)

lemma off_inj: "a < n \<Longrightarrow> b < n \<Longrightarrow> c < n \<Longrightarrow> off n a b = off n a c \<Longrightarrow> b = c"
  by (auto simp: off_def split: if_splits)

lemma between_off: "e < n \<Longrightarrow> s < n \<Longrightarrow> f < n \<Longrightarrow> between e s f \<longleftrightarrow> off n e f \<le> off n e s"
  by (auto simp: between_def off_def split: if_splits)

lemma and_mask_nat: "x AND (2 ^ e - 1) = x mod 2 ^ e" for x :: nat
  by (simp only: take_bit_eq_mod [symmetric] take_bit_eq_mask mask_eq_exp_minus_1)

section \<open>Chains of occupied slots\<close>

abbreviation ib_size :: "int_bag \<Rightarrow> nat" where
  "ib_size b \<equiv> length (ib_freqs b)"

abbreviation occupied :: "int_bag \<Rightarrow> nat \<Rightarrow> bool" where
  "occupied b t \<equiv> 0 < ib_freqs b ! t"

definition home :: "int_bag \<Rightarrow> nat \<Rightarrow> nat" where
  "home b t = unat (ib_keys b ! t) mod ib_size b"

text \<open>Slots from the home slot of a key to its own are occupied, but for a hole that is being filled.\<close>

definition chained :: "nat option \<Rightarrow> int_bag \<Rightarrow> bool" where
  "chained hole b \<longleftrightarrow> (\<forall>t<ib_size b. \<forall>u<ib_size b. occupied b t \<longrightarrow>
     off (ib_size b) (home b t) u < off (ib_size b) (home b t) t \<longrightarrow> occupied b u \<or> hole = Some u)"

definition keys_once :: "int_bag \<Rightarrow> bool" where
  "keys_once b \<longleftrightarrow> (\<forall>t<ib_size b. \<forall>u<ib_size b. occupied b t \<longrightarrow> occupied b u \<longrightarrow> ib_keys b ! t = ib_keys b ! u \<longrightarrow> t = u)"

definition bag_shape :: "int_bag \<Rightarrow> bool" where
  "bag_shape b \<longleftrightarrow> length (ib_keys b) = ib_size b \<and> 0 < ib_size b \<and> (\<exists>e. ib_size b = 2 ^ e) \<and> ib_mask b = ib_size b - 1 \<and> keys_once b"

definition bag_count :: "int_bag \<Rightarrow> u32 \<Rightarrow> nat" where
  "bag_count b k = (\<Sum>t<ib_size b. if ib_keys b ! t = k then ib_freqs b ! t else 0)"

definition bag_wf :: "int_bag \<Rightarrow> bool" where
  "bag_wf b \<longleftrightarrow> bag_shape b \<and> chained None b"

lemma mask_slot: "bag_shape b \<Longrightarrow> x AND ib_mask b = x mod ib_size b"
  using and_mask_nat by (auto simp: bag_shape_def)

lemma in_bounds: "bag_shape b \<Longrightarrow> ib_in_bounds t b \<longleftrightarrow> t < ib_size b"
  by (simp add: ib_in_bounds_def bag_shape_def)

lemma home_less: "bag_shape b \<Longrightarrow> home b t < ib_size b"
  by (simp add: home_def bag_shape_def)

lemma bag_count_at:
  assumes "bag_shape b" "t < ib_size b" "occupied b t" "ib_keys b ! t = k"
  shows "bag_count b k = ib_freqs b ! t"
proof -
  have "(if ib_keys b ! u = k then ib_freqs b ! u else 0) = (if u = t then ib_freqs b ! t else 0)" if "u < ib_size b" for u
    using assms that unfolding bag_shape_def keys_once_def by (cases "occupied b u") auto
  then have "bag_count b k = (\<Sum>u<ib_size b. if u = t then ib_freqs b ! t else 0)"
    unfolding bag_count_def by (intro sum.cong) auto
  then show ?thesis using assms(2) by simp
qed

lemma bag_count_0: "bag_count b k = 0 \<longleftrightarrow> (\<forall>t<ib_size b. occupied b t \<longrightarrow> ib_keys b ! t \<noteq> k)"
  by (auto simp: bag_count_def)

lemma bag_count_le: "bag_count b k \<le> sum_list (ib_freqs b)"
  unfolding bag_count_def sum_list_sum_nth by (simp add: atLeast0LessThan sum_mono)

lemma free_slot_exists:
  fixes fs :: "nat list"
  assumes "sum_list fs < length fs"
  obtains z where "z < length fs" "\<not> 0 < fs ! z"
proof -
  have "\<exists>z<length fs. fs ! z = 0"
  proof (rule ccontr)
    assume "\<not> (\<exists>z<length fs. fs ! z = 0)"
    then have "(\<Sum>z<length fs. 1) \<le> (\<Sum>z<length fs. fs ! z)" by (intro sum_mono) (auto simp: Suc_le_eq)
    then show False using assms by (simp add: sum_list_sum_nth atLeast0LessThan)
  qed
  then obtain z where "z < length fs" "fs ! z = 0" by blast
  then show thesis by (intro that [of z]) simp_all
qed

text \<open>
  Probing for a key: having passed only occupied slots with other keys, a free slot means that the
  key is not there.
\<close>

definition passed :: "int_bag \<Rightarrow> u32 \<Rightarrow> nat \<Rightarrow> bool" where
  "passed b k i \<longleftrightarrow> (\<forall>u<ib_size b. off (ib_size b) (unat k mod ib_size b) u < i \<longrightarrow> occupied b u \<and> ib_keys b ! u \<noteq> k)"

lemma probe_absent:
  assumes wf: "bag_wf b" and s: "s < ib_size b" "passed b k (off (ib_size b) (unat k mod ib_size b) s)" "\<not> occupied b s"
  shows "bag_count b k = 0"
  unfolding bag_count_0
proof (intro allI impI notI)
  fix t assume t: "t < ib_size b" "occupied b t" "ib_keys b ! t = k"
  let ?n = "ib_size b" and ?h = "unat k mod ib_size b"
  have n: "?h < ?n" "home b t = ?h" using wf t(3) by (simp_all add: bag_wf_def bag_shape_def home_def)
  consider "off ?n ?h t < off ?n ?h s" | "off ?n ?h t = off ?n ?h s" | "off ?n ?h s < off ?n ?h t" by linarith
  then show False
  proof cases
    case 1
    then show False using s(2) t unfolding passed_def by blast
  next
    case 2
    then have "t = s" using off_inj [OF n(1) t(1) s(1)] by simp
    then show False using t(2) s(3) by simp
  next
    case 3
    then show False using wf t(1,2) s(1,3) n(2) unfolding bag_wf_def chained_def by (metis option.distinct(1))
  qed
qed

lemma passed_Suc:
  assumes "0 < ib_size b" "passed b k (off (ib_size b) (unat k mod ib_size b) s)" "s < ib_size b" "occupied b s" "ib_keys b ! s \<noteq> k"
  shows "passed b k (Suc (off (ib_size b) (unat k mod ib_size b) s))"
  using assms off_inj [of "unat k mod ib_size b" "ib_size b" s] unfolding passed_def
  by (metis less_Suc_eq mod_less_divisor)

text \<open>The slot where probing ends: the key's, or the first free one.\<close>

definition probe_end :: "int_bag \<Rightarrow> u32 \<Rightarrow> nat \<Rightarrow> bool" where
  "probe_end b k s \<longleftrightarrow> s < ib_size b \<and> (occupied b s \<and> ib_keys b ! s = k \<or>
     \<not> occupied b s \<and> bag_count b k = 0 \<and> passed b k (off (ib_size b) (unat k mod ib_size b) s))"

lemma probe:
  assumes wf: "bag_wf b" and z: "z < ib_size b" "\<not> occupied b z"
    and F: "\<And>s. s < ib_size b \<Longrightarrow> occupied b s \<Longrightarrow> ib_keys b ! s \<noteq> k \<Longrightarrow> F s = F ((s + 1) AND ib_mask b)"
  obtains s where "probe_end b k s" "F (unat k AND ib_mask b) = F s"
proof -
  let ?n = "ib_size b" and ?h = "unat k mod ib_size b"
  have shape: "bag_shape b" using wf by (simp add: bag_wf_def)
  then have n: "0 < ?n" "?h < ?n" by (simp_all add: bag_shape_def)
  have "\<exists>s'. probe_end b k s' \<and> F s = F s'" if "s < ?n" "off ?n ?h s \<le> off ?n ?h z" "passed b k (off ?n ?h s)" for s
    using that
  proof (induction "off ?n ?h z - off ?n ?h s" arbitrary: s)
    case 0
    then have "s = z" using off_inj [OF n(2) _ z(1), of s] by simp
    then have "probe_end b k s" using 0 z probe_absent [OF wf, of s k] by (simp add: probe_end_def)
    then show ?case by (intro exI [of _ s] conjI refl)
  next
    case (Suc m s)
    show ?case
    proof (cases "occupied b s \<and> ib_keys b ! s \<noteq> k")
      case True
      let ?s = "(s + 1) mod ?n"
      have "Suc (off ?n ?h s) < ?n" using Suc.hyps(2) off_less [OF n(2) z(1)] by simp
      then have off: "off ?n ?h ?s = Suc (off ?n ?h s)" by (rule off_next [OF n(2) Suc.prems(1)])
      then have "\<exists>s'. probe_end b k s' \<and> F ?s = F s'"
        using Suc.hyps(1) [of ?s] Suc.hyps(2) n(1) passed_Suc [OF n(1) Suc.prems(3,1)] True by simp
      moreover have "F s = F ?s" using F [OF Suc.prems(1) conjunct1 [OF True] conjunct2 [OF True]] unfolding mask_slot [OF shape] .
      ultimately show ?thesis by (simp only:)
    next
      case False
      then have "probe_end b k s" using Suc.prems(1,3) probe_absent [OF wf Suc.prems(1,3)] by (cases "occupied b s") (simp_all add: probe_end_def)
      then show ?thesis by (intro exI [of _ s] conjI refl)
    qed
  qed
  from this [OF n(2)] obtain s where "probe_end b k s" "F ?h = F s" by (auto simp: passed_def off_self)
  then show thesis using mask_slot [OF shape, of "unat k"] by (intro that [of s]) simp_all
qed

section \<open>Reading and adding\<close>

lemma ib_frequency_eq:
  assumes wf: "bag_wf b" and free: "sum_list (ib_freqs b) < ib_size b"
  shows "ib_frequency k b = Some (Inr (bag_count b k))"
proof -
  obtain z where z: "z < ib_size b" "\<not> occupied b z" by (rule free_slot_exists [OF free])
  have shape: "bag_shape b" using wf by (simp add: bag_wf_def)
  have F: "ib_frequency_loop k s b = ib_frequency_loop k ((s + 1) AND ib_mask b) b"
    if "s < ib_size b" "occupied b s" "ib_keys b ! s \<noteq> k" for s
    using that in_bounds [OF shape] by (subst ib_frequency_loop.simps) simp
  obtain s where s: "probe_end b k s" "ib_frequency_loop k (unat k AND ib_mask b) b = ib_frequency_loop k s b"
    by (rule probe [OF wf z, where F = "\<lambda>s. ib_frequency_loop k s b" and k = k, OF F])
  have "ib_frequency_loop k s b = Some (Inr (bag_count b k))"
  proof (cases "occupied b s")
    case True
    then have "ib_in_bounds s b" "ib_keys b ! s = k" "bag_count b k = ib_freqs b ! s"
      using s(1) in_bounds [OF shape] bag_count_at [OF shape, of s k] by (simp_all add: probe_end_def)
    then show ?thesis by (subst ib_frequency_loop.simps) simp
  next
    case False
    then have "ib_in_bounds s b" "ib_freqs b ! s = 0" "bag_count b k = 0"
      using s(1) in_bounds [OF shape] by (simp_all add: probe_end_def)
    then show ?thesis by (subst ib_frequency_loop.simps) simp
  qed
  then show ?thesis using s(2) by (simp add: ib_frequency_def)
qed

text \<open>Writing a slot.\<close>

definition ib_put :: "int_bag \<Rightarrow> nat \<Rightarrow> u32 \<Rightarrow> nat \<Rightarrow> int_bag" where
  "ib_put b t x f = b\<lparr>ib_keys := (ib_keys b)[t := x], ib_freqs := (ib_freqs b)[t := f]\<rparr>"

lemma ib_put_simps [simp]:
  "ib_mask (ib_put b t x f) = ib_mask b" "ib_size (ib_put b t x f) = ib_size b"
  "length (ib_keys (ib_put b t x f)) = length (ib_keys b)"
  by (simp_all add: ib_put_def)

lemma ib_put_nth:
  assumes "t < ib_size b" "length (ib_keys b) = ib_size b"
  shows "ib_freqs (ib_put b t x f) ! u = (if u = t then f else ib_freqs b ! u)"
    and "ib_keys (ib_put b t x f) ! u = (if u = t then x else ib_keys b ! u)"
  using assms by (auto simp: ib_put_def)

lemma ib_put_sum: "t < ib_size b \<Longrightarrow> sum_list (ib_freqs (ib_put b t x f)) + ib_freqs b ! t = sum_list (ib_freqs b) + f"
  using elem_le_sum_list [of t "ib_freqs b"] by (simp add: ib_put_def sum_list_update)

lemma bag_count_put:
  assumes "t < ib_size b" "length (ib_keys b) = ib_size b"
  shows "bag_count (ib_put b t x f) k + (if ib_keys b ! t = k then ib_freqs b ! t else 0)
    = bag_count b k + (if x = k then f else 0)"
proof -
  let ?c = "\<lambda>b u. if ib_keys b ! u = k then ib_freqs b ! u else 0"
  have rest: "bag_count c k = ?c c t + (\<Sum>u\<in>{..<ib_size b} - {t}. ?c c u)" if "ib_size c = ib_size b" for c
    unfolding bag_count_def that using assms(1) by (intro sum.remove) auto
  have "(\<Sum>u\<in>{..<ib_size b} - {t}. ?c (ib_put b t x f) u) = (\<Sum>u\<in>{..<ib_size b} - {t}. ?c b u)"
    by (intro sum.cong) (auto simp: ib_put_nth [OF assms])
  then show ?thesis using rest [of b] rest [of "ib_put b t x f"] by (simp add: ib_put_nth [OF assms])
qed

text \<open>Changing the frequency of an occupied slot, above zero, keeps the table well-formed.\<close>

lemma bag_wf_freq:
  assumes wf: "bag_wf b" and t: "t < ib_size b" "occupied b t" "0 < f"
  shows "bag_wf (ib_put b t (ib_keys b ! t) f)"
proof -
  let ?b = "ib_put b t (ib_keys b ! t) f"
  have l: "length (ib_keys b) = ib_size b" using wf by (simp add: bag_wf_def bag_shape_def)
  have "occupied ?b u \<longleftrightarrow> occupied b u" "ib_keys ?b ! u = ib_keys b ! u" for u using t by (simp_all add: ib_put_nth [OF t(1) l])
  then have "keys_once ?b = keys_once b" "chained None ?b = chained None b" unfolding keys_once_def chained_def home_def by simp_all
  then show ?thesis using wf by (simp add: bag_wf_def bag_shape_def)
qed

lemma bag_wf_new_key:
  assumes wf: "bag_wf b" and e: "probe_end b k s" "\<not> occupied b s" "0 < f"
  shows "bag_wf (ib_put b s k f)"
proof -
  let ?n = "ib_size b"
  define c where "c = ib_put b s k f"
  have shape: "bag_shape b" "length (ib_keys b) = ?n" using wf by (simp_all add: bag_wf_def bag_shape_def)
  have s: "s < ?n" "bag_count b k = 0" "passed b k (off ?n (unat k mod ?n) s)" using e(1,2) by (auto simp: probe_end_def)
  have n: "ib_size c = ?n" by (simp add: c_def)
  have occ: "occupied c u \<longleftrightarrow> u = s \<or> occupied b u" for u using e(3) by (simp add: c_def ib_put_nth [OF s(1) shape(2)])
  have key: "ib_keys c ! u = (if u = s then k else ib_keys b ! u)" for u by (simp add: c_def ib_put_nth [OF s(1) shape(2)])
  have abs: "ib_keys b ! v \<noteq> k" if "v < ?n" "occupied b v" for v using s(2) that by (simp add: bag_count_0)
  have "keys_once c"
    using abs shape(1) unfolding occ key bag_shape_def keys_once_def n by (metis (full_types))
  then have "bag_shape c" using shape(1) unfolding bag_shape_def n by (simp add: c_def)
  moreover have "occupied c u" if a: "t < ?n" "u < ?n" "occupied c t" "off ?n (home c t) u < off ?n (home c t) t" for t u
  proof (cases "t = s")
    case True
    then have "home c t = unat k mod ?n" by (simp add: home_def key n)
    then show ?thesis using s(3) a(2,4) True unfolding passed_def occ by simp
  next
    case False
    then have "occupied b t" "home c t = home b t" using a(3) unfolding occ by (simp_all add: home_def key n)
    then show ?thesis using wf a(1,2,4) unfolding occ bag_wf_def chained_def by (metis option.distinct(1))
  qed
  ultimately show ?thesis unfolding bag_wf_def chained_def n c_def [symmetric] by blast
qed

text \<open>What an insertion leaves: the count of the key and the total are one higher.\<close>

definition bag_added :: "int_bag \<Rightarrow> u32 \<Rightarrow> int_bag \<Rightarrow> bool" where
  "bag_added b k b' \<longleftrightarrow> bag_wf b' \<and> ib_size b' = ib_size b \<and> sum_list (ib_freqs b') = sum_list (ib_freqs b) + 1 \<and>
     (\<forall>k'. bag_count b' k' = bag_count b k' + (if k' = k then 1 else 0))"

lemma bag_added_put:
  assumes wf: "bag_wf b" and s: "probe_end b k s"
  shows "bag_added b k (ib_put b s k (ib_freqs b ! s + 1))"
proof -
  have lt: "s < ib_size b" using s by (simp add: probe_end_def)
  have l: "length (ib_keys b) = ib_size b" using wf by (simp add: bag_wf_def bag_shape_def)
  have "bag_wf (ib_put b s k (ib_freqs b ! s + 1))"
  proof (cases "occupied b s")
    case True
    then have "ib_keys b ! s = k" using s by (simp add: probe_end_def)
    then show ?thesis using bag_wf_freq [OF wf lt True, of "ib_freqs b ! s + 1"] by simp
  next
    case False
    then show ?thesis by (intro bag_wf_new_key [OF wf s]) simp_all
  qed
  moreover have "bag_count (ib_put b s k (ib_freqs b ! s + 1)) k' = bag_count b k' + (if k' = k then 1 else 0)" for k'
    using bag_count_put [OF lt l, of k "ib_freqs b ! s + 1" k'] s by (auto simp: probe_end_def split: if_splits)
  ultimately show ?thesis using ib_put_sum [OF lt, of k "ib_freqs b ! s + 1"] by (simp add: bag_added_def)
qed

lemma ib_add_eq:
  assumes wf: "bag_wf b" and free: "sum_list (ib_freqs b) < ib_size b" and small: "sum_list (ib_freqs b) + 1 < 2 ^ 32"
  obtains f b' where "ib_add k b = Some (Inr (f, b'))" "bag_added b k b'"
proof -
  obtain z where z: "z < ib_size b" "\<not> occupied b z" by (rule free_slot_exists [OF free])
  have shape: "bag_shape b" using wf by (simp add: bag_wf_def)
  have F: "ib_add_loop k s b = ib_add_loop k ((s + 1) AND ib_mask b) b"
    if "s < ib_size b" "occupied b s" "ib_keys b ! s \<noteq> k" for s
    using that in_bounds [OF shape] by (subst ib_add_loop.simps) simp
  obtain s where s: "probe_end b k s" "ib_add_loop k (unat k AND ib_mask b) b = ib_add_loop k s b"
    by (rule probe [OF wf z, where F = "\<lambda>s. ib_add_loop k s b" and k = k, OF F])
  then have lt: "s < ib_size b" by (simp add: probe_end_def)
  then have "ib_freqs b ! s \<le> sum_list (ib_freqs b)" by (intro elem_le_sum_list)
  then have "ib_freqs b ! s + 1 < 2 ^ 32" using small by simp
  moreover have "ib_in_bounds s b" "occupied b s \<Longrightarrow> ib_keys b ! s = k"
    using s(1) in_bounds [OF shape] by (auto simp: probe_end_def)
  moreover have "(ib_keys b)[s := ib_keys b ! s] = ib_keys b" by simp
  ultimately have "ib_add_loop k s b = Some (Inr (ib_freqs b ! s + 1, ib_put b s k (ib_freqs b ! s + 1)))"
    by (subst ib_add_loop.simps, cases "occupied b s") (simp_all add: ib_put_def)
  then show thesis using s(2) bag_added_put [OF wf s(1)] by (intro that) (simp_all add: ib_add_def)
qed

section \<open>Removing\<close>

text \<open>
  Relocation looks at the slots after the hole, up to the next free one, for a key whose chain the
  hole interrupts: the slots already passed have keys whose chains do not go through the hole.
\<close>

definition not_interrupted :: "int_bag \<Rightarrow> nat \<Rightarrow> nat \<Rightarrow> bool" where
  "not_interrupted b f s \<longleftrightarrow> (\<forall>u<ib_size b. 0 < off (ib_size b) f u \<longrightarrow> off (ib_size b) f u < off (ib_size b) f s \<longrightarrow>
     \<not> off (ib_size b) (home b u) f < off (ib_size b) (home b u) u)"

definition reloc_inv :: "nat \<Rightarrow> int_bag \<Rightarrow> nat \<Rightarrow> nat \<Rightarrow> bool" where
  "reloc_inv z b f s \<longleftrightarrow> bag_shape b \<and> f < ib_size b \<and> \<not> occupied b f \<and> chained (Some f) b \<and>
     z < ib_size b \<and> \<not> occupied b z \<and> s < ib_size b \<and> 0 < off (ib_size b) f s \<and> off (ib_size b) f s \<le> off (ib_size b) f z \<and>
     not_interrupted b f s"

definition same_counts :: "int_bag \<Rightarrow> int_bag \<Rightarrow> bool" where
  "same_counts b b' \<longleftrightarrow> ib_size b' = ib_size b \<and> sum_list (ib_freqs b') = sum_list (ib_freqs b) \<and> (\<forall>k. bag_count b' k = bag_count b k)"

lemma chainedD:
  assumes "chained hole b" "t < ib_size b" "u < ib_size b" "occupied b t"
    "off (ib_size b) (home b t) u < off (ib_size b) (home b t) t" "hole \<noteq> Some u"
  shows "occupied b u"
  using assms unfolding chained_def by blast

lemma reloc_done:
  assumes inv: "reloc_inv z b f s" and s: "\<not> occupied b s"
  shows "bag_wf b"
proof -
  let ?n = "ib_size b"
  have i: "bag_shape b" "f < ?n" "\<not> occupied b f" "chained (Some f) b" "s < ?n" "0 < off ?n f s" "not_interrupted b f s"
    using inv by (simp_all add: reloc_inv_def)
  have "occupied b u" if t: "t < ?n" "u < ?n" "occupied b t" "off ?n (home b t) u < off ?n (home b t) t" for t u
  proof (rule ccontr)
    assume n: "\<not> occupied b u"
    have h: "home b t < ?n" by (rule home_less [OF i(1)])
    have u: "u = f" using chainedD [OF i(4) t] n by auto
    have "t \<noteq> f" "t \<noteq> s" using i(3) s t(3) by auto
    then have "0 < off ?n f t" "off ?n f t \<noteq> off ?n f s" using off_0 [OF i(2) t(1)] off_inj [OF i(2) t(1) i(5)] by auto
    moreover have "\<not> off ?n f t < off ?n f s" using i(7) t(1,4) u \<open>0 < off ?n f t\<close> unfolding not_interrupted_def by blast
    ultimately have gt: "off ?n f s < off ?n f t" by simp
    have tr: "off ?n (home b t) t = off ?n (home b t) f + off ?n f t" using off_trans [OF h i(2) t(1)] t(4) u by simp
    then have "off ?n (home b t) s = off ?n (home b t) f + off ?n f s"
      using off_add [OF h i(2,5)] gt off_less [OF h t(1)] by simp
    then have "off ?n (home b t) s < off ?n (home b t) t" using tr gt by simp
    moreover have "Some f \<noteq> Some s" using i(6) off_self [of ?n f] by auto
    ultimately show False using chainedD [OF i(4) t(1) i(5) t(3)] s by blast
  qed
  then show ?thesis using i(1) unfolding bag_wf_def chained_def by blast
qed

lemma reloc_skip:
  assumes inv: "reloc_inv z b f s" and s: "occupied b s" "\<not> off (ib_size b) (home b s) f \<le> off (ib_size b) (home b s) s"
  shows "reloc_inv z b f ((s + 1) mod ib_size b)" and "off (ib_size b) f ((s + 1) mod ib_size b) = Suc (off (ib_size b) f s)"
    and "off (ib_size b) f s < off (ib_size b) f z"
proof -
  let ?n = "ib_size b"
  have i: "f < ?n" "z < ?n" "\<not> occupied b z" "s < ?n" "off ?n f s \<le> off ?n f z" "not_interrupted b f s"
    using inv by (simp_all add: reloc_inv_def)
  have "z \<noteq> s" using s(1) i(3) by auto
  then show lt: "off ?n f s < off ?n f z" using i(5) off_inj [OF i(1,2,4)] by (metis le_neq_implies_less)
  then have "Suc (off ?n f s) < ?n" using off_less [OF i(1,2)] by simp
  then show off: "off ?n f ((s + 1) mod ?n) = Suc (off ?n f s)" by (rule off_next [OF i(1,4)])
  have "u = s" if "u < ?n" "off ?n f u < Suc (off ?n f s)" "\<not> off ?n f u < off ?n f s" for u
    using off_inj [OF i(1) that(1) i(4)] that by simp
  then have "not_interrupted b f ((s + 1) mod ?n)"
    using i(6) s(2) unfolding not_interrupted_def off by (metis nat_less_le)
  moreover have "(s + 1) mod ?n < ?n" using i(1) by (intro mod_less_divisor) linarith
  ultimately show "reloc_inv z b f ((s + 1) mod ?n)" using inv lt unfolding reloc_inv_def off by simp
qed

text \<open>Moving the key of a slot into the hole, which makes its own slot the hole.\<close>

definition ib_shift :: "int_bag \<Rightarrow> nat \<Rightarrow> nat \<Rightarrow> int_bag" where
  "ib_shift b f s = ib_put (ib_put b f (ib_keys b ! s) (ib_freqs b ! s)) s (ib_keys b ! s) 0"

lemma ib_shift_simps [simp]: "ib_mask (ib_shift b f s) = ib_mask b" "ib_size (ib_shift b f s) = ib_size b"
  "length (ib_keys (ib_shift b f s)) = length (ib_keys b)"
  by (simp_all add: ib_shift_def)

lemma ib_shift_nth:
  assumes "f < ib_size b" "s < ib_size b" "length (ib_keys b) = ib_size b"
  shows "ib_freqs (ib_shift b f s) ! u = (if u = s then 0 else if u = f then ib_freqs b ! s else ib_freqs b ! u)"
    and "ib_keys (ib_shift b f s) ! u = (if u = f then ib_keys b ! s else ib_keys b ! u)"
  using assms by (simp_all add: ib_shift_def ib_put_nth)

lemma ib_shift_eq: "ib_shift b f s = b\<lparr>ib_keys := (ib_keys b)[f := ib_keys b ! s], ib_freqs := (ib_freqs b)[f := ib_freqs b ! s, s := 0]\<rparr>"
proof -
  have "(ib_keys b)[f := ib_keys b ! s, s := ib_keys b ! s] = (ib_keys b)[f := ib_keys b ! s]"
    by (cases "f = s") (simp_all add: list_update_swap [of f s])
  then show ?thesis by (simp add: ib_shift_def ib_put_def)
qed

lemma same_counts_shift:
  assumes b: "f < ib_size b" "s < ib_size b" "length (ib_keys b) = ib_size b" and f: "\<not> occupied b f" "f \<noteq> s"
  shows "same_counts b (ib_shift b f s)"
proof -
  let ?c = "ib_put b f (ib_keys b ! s) (ib_freqs b ! s)"
  have l: "s < ib_size ?c" "length (ib_keys ?c) = ib_size ?c" using b by simp_all
  have nth: "ib_freqs ?c ! s = ib_freqs b ! s" "ib_keys ?c ! s = ib_keys b ! s" using f(2) by (simp_all add: ib_put_nth [OF b(1,3)])
  have "bag_count (ib_shift b f s) k = bag_count b k" for k
    using bag_count_put [OF b(1,3), of "ib_keys b ! s" "ib_freqs b ! s" k] bag_count_put [OF l, of "ib_keys b ! s" 0 k] f(1)
    unfolding nth ib_shift_def [symmetric] by (simp split: if_splits)
  then show ?thesis
    using ib_put_sum [OF b(1), of "ib_keys b ! s" "ib_freqs b ! s"] ib_put_sum [OF l(1), of "ib_keys b ! s" 0] f(1)
    unfolding nth ib_shift_def [symmetric] by (simp add: same_counts_def)
qed

lemma shift_keys_once:
  assumes b: "bag_shape b" "f < ib_size b" "s < ib_size b"
  shows "bag_shape (ib_shift b f s)"
proof -
  have l: "length (ib_keys b) = ib_size b" and k: "keys_once b" using b by (simp_all add: bag_shape_def)
  let ?src = "\<lambda>t. if t = f then s else t"
  have "t = u" if a: "t < ib_size b" "u < ib_size b" "occupied (ib_shift b f s) t" "occupied (ib_shift b f s) u"
    "ib_keys (ib_shift b f s) ! t = ib_keys (ib_shift b f s) ! u" for t u
  proof -
    have ne: "t \<noteq> s" "u \<noteq> s" and "occupied b (?src t)" "occupied b (?src u)" "ib_keys b ! ?src t = ib_keys b ! ?src u" "?src t < ib_size b" "?src u < ib_size b"
      using a b(3) unfolding ib_shift_nth [OF b(2,3) l] by (simp_all split: if_splits)
    then have "?src t = ?src u" using k unfolding keys_once_def by blast
    then show "t = u" using ne by (simp split: if_splits)
  qed
  then have "keys_once (ib_shift b f s)" unfolding keys_once_def ib_shift_simps by blast
  then show ?thesis using b(1) by (simp add: bag_shape_def)
qed

lemma reloc_move:
  assumes inv: "reloc_inv z b f s" and s: "occupied b s" "off (ib_size b) (home b s) f \<le> off (ib_size b) (home b s) s"
  shows "reloc_inv z (ib_shift b f s) s ((s + 1) mod ib_size b)"
    and "off (ib_size b) s z - off (ib_size b) s ((s + 1) mod ib_size b) < off (ib_size b) f z - off (ib_size b) f s"
    and "same_counts b (ib_shift b f s)"
proof -
  let ?n = "ib_size b" and ?b = "ib_shift b f s"
  have i: "bag_shape b" "f < ?n" "\<not> occupied b f" "chained (Some f) b" "z < ?n" "\<not> occupied b z" "s < ?n" "0 < off ?n f s"
    "off ?n f s \<le> off ?n f z" and l: "length (ib_keys b) = ?n"
    using inv by (simp_all add: reloc_inv_def bag_shape_def)
  note nth = ib_shift_nth [OF i(2,7) l] and h = home_less [OF i(1)]
  have ne: "f \<noteq> s" "z \<noteq> s" using s(1) i(3,6) by auto
  then show "same_counts b ?b" using same_counts_shift [OF i(2,7) l i(3)] by simp
  have lt: "off ?n f s < off ?n f z" using i(9) off_inj [OF i(2,5,7)] ne(2) by (metis le_neq_implies_less)
  then have z: "off ?n f z = off ?n f s + off ?n s z" "z \<noteq> f" using off_trans [OF i(2,7,5)] off_self [of ?n f] by auto
  then have "1 < ?n" using lt off_less [OF i(2,5)] i(8) by simp
  then have next1: "off ?n s ((s + 1) mod ?n) = 1" using off_next [OF i(7,7)] off_self [of ?n s] by simp
  then show "off ?n s z - off ?n s ((s + 1) mod ?n) < off ?n f z - off ?n f s" using z lt by simp
  have hs: "off ?n (home b s) f < off ?n (home b s) s" using s(2) off_inj [OF h i(2,7), of s] ne(1) by (metis le_neq_implies_less)
  have "occupied ?b u \<or> Some s = Some u"
    if t: "t < ?n" "u < ?n" "occupied ?b t" "off ?n (home ?b t) u < off ?n (home ?b t) t" for t u
  proof (cases "t = f")
    case True
    then have "home ?b t = home b s" by (simp add: home_def nth)
    then have "off ?n (home b s) u < off ?n (home b s) f" using t(4) True by simp
    then have "occupied b u" "u \<noteq> f" using chainedD [OF i(4,7) t(2) s(1)] hs by auto
    then show ?thesis by (simp add: nth)
  next
    case False
    then have o: "occupied b t" "home ?b t = home b t" using t(3) by (simp_all add: home_def nth split: if_splits)
    then have "occupied b u \<or> u = f" using chainedD [OF i(4) t(1,2) o(1)] t(4) by auto
    then show ?thesis using s(1) by (auto simp: nth)
  qed
  then have "chained (Some s) ?b" unfolding chained_def ib_shift_simps by blast
  moreover have "\<not> occupied ?b s" "\<not> occupied ?b z" using z(2) i(6) by (simp_all add: nth)
  moreover have "not_interrupted ?b s ((s + 1) mod ?n)" unfolding not_interrupted_def ib_shift_simps next1 by simp
  moreover have "(s + 1) mod ?n < ?n" using i(2) by (intro mod_less_divisor) linarith
  moreover have "1 \<le> off ?n s z" using z(1) lt by simp
  ultimately show "reloc_inv z ?b s ((s + 1) mod ?n)"
    using shift_keys_once [OF i(1,2,7)] i(5,7) unfolding reloc_inv_def ib_shift_simps next1 by simp
qed

lemma ib_relocate_loop_ok:
  assumes "reloc_inv z b f s"
  shows "\<exists>b'. ib_relocate_loop f s b = Some (Inr b') \<and> bag_wf b' \<and> same_counts b b'"
  using assms
proof (induction "off (ib_size b) f z - off (ib_size b) f s" arbitrary: b f s rule: less_induct)
  case less
  let ?n = "ib_size b"
  have i: "bag_shape b" "f < ?n" "s < ?n" using less.prems by (simp_all add: reloc_inv_def)
  then have bd: "ib_in_bounds s b" "ib_in_bounds f b" "(s + 1) AND ib_mask b = (s + 1) mod ?n"
    using in_bounds [OF i(1)] mask_slot [OF i(1)] by simp_all
  have btw: "between (unat (ib_keys b ! s) AND ib_mask b) s f \<longleftrightarrow> off ?n (home b s) f \<le> off ?n (home b s) s"
    using between_off [OF home_less [OF i(1), of s] i(3,2)] mask_slot [OF i(1)] by (simp add: home_def)
  show ?case
  proof (cases "occupied b s")
    case False
    then have "ib_relocate_loop f s b = Some (Inr b)" using bd by (subst ib_relocate_loop.simps) simp
    then show ?thesis using reloc_done [OF less.prems False] by (simp add: same_counts_def)
  next
    case occ: True
    show ?thesis
    proof (cases "off ?n (home b s) f \<le> off ?n (home b s) s")
      case True
      note m = reloc_move [OF less.prems occ True]
      have "ib_relocate_loop f s b = ib_relocate_loop s ((s + 1) mod ?n) (ib_shift b f s)"
        using occ True bd btw by (subst ib_relocate_loop.simps) (simp add: ib_shift_eq Let_def)
      moreover have "\<exists>b'. ib_relocate_loop s ((s + 1) mod ?n) (ib_shift b f s) = Some (Inr b') \<and> bag_wf b' \<and> same_counts (ib_shift b f s) b'"
        using less.hyps [of "ib_shift b f s" s "(s + 1) mod ?n"] m(1,2) by simp
      ultimately show ?thesis using m(3) by (auto simp: same_counts_def)
    next
      case False
      note m = reloc_skip [OF less.prems occ False]
      have "ib_relocate_loop f s b = ib_relocate_loop f ((s + 1) mod ?n) b"
        using occ False bd btw by (subst ib_relocate_loop.simps) (simp add: Let_def)
      then show ?thesis using less.hyps [of b f "(s + 1) mod ?n"] m by simp
    qed
  qed
qed

definition bag_removed :: "int_bag \<Rightarrow> u32 \<Rightarrow> int_bag \<Rightarrow> bool" where
  "bag_removed b k b' \<longleftrightarrow> bag_wf b' \<and> ib_size b' = ib_size b \<and> sum_list (ib_freqs b') + 1 = sum_list (ib_freqs b) \<and>
     (\<forall>k'. bag_count b' k' + (if k' = k then 1 else 0) = bag_count b k')"

lemma reloc_start:
  assumes wf: "bag_wf b" and z: "z < ib_size b" "\<not> occupied b z" and s: "s < ib_size b" "occupied b s"
  shows "reloc_inv z (ib_put b s (ib_keys b ! s) 0) s ((s + 1) mod ib_size b)"
proof -
  let ?n = "ib_size b" and ?c = "ib_put b s (ib_keys b ! s) 0"
  have b: "length (ib_keys b) = ?n" "chained None b" "keys_once b" using wf by (simp_all add: bag_wf_def bag_shape_def)
  note nth = ib_put_nth [OF s(1) b(1)]
  have key: "ib_keys ?c ! u = ib_keys b ! u" for u by (simp add: nth)
  have occ: "occupied ?c u \<longleftrightarrow> u \<noteq> s \<and> occupied b u" and hm: "home ?c u = home b u" for u by (simp_all add: nth home_def)
  have ne: "z \<noteq> s" using z(2) s(2) by auto
  then have "1 < ?n" using z(1) s(1) by linarith
  then have one: "off ?n s ((s + 1) mod ?n) = 1" using off_next [OF s(1,1)] off_self [of ?n s] by simp
  have "off ?n s z \<noteq> 0" using off_0 [OF s(1) z(1)] ne by simp
  moreover have "keys_once ?c" using b(3) unfolding keys_once_def key ib_put_simps by (simp add: nth)
  then have "bag_shape ?c" using wf by (simp add: bag_wf_def bag_shape_def)
  moreover have "chained (Some s) ?c"
    unfolding chained_def hm occ ib_put_simps using chainedD [OF b(2)] by blast
  moreover have "(s + 1) mod ?n < ?n" using s(1) by (intro mod_less_divisor) linarith
  ultimately show ?thesis using s(1) z by (simp add: reloc_inv_def not_interrupted_def one [simplified] nth)
qed

lemma bag_removed_same: "same_counts c b' \<Longrightarrow> bag_wf b' \<Longrightarrow> ib_size c = ib_size b \<Longrightarrow> sum_list (ib_freqs c) + 1 = sum_list (ib_freqs b) \<Longrightarrow>
    (\<And>k'. bag_count c k' + (if k' = k then 1 else 0) = bag_count b k') \<Longrightarrow> bag_removed b k b'"
  by (simp add: bag_removed_def same_counts_def)

lemma ib_remove_eq:
  assumes wf: "bag_wf b" and free: "sum_list (ib_freqs b) < ib_size b" and k: "0 < bag_count b k"
  obtains b' where "ib_remove k b = Some (Inr (True, b'))" "bag_removed b k b'"
proof -
  obtain z where z: "z < ib_size b" "\<not> occupied b z" by (rule free_slot_exists [OF free])
  have shape: "bag_shape b" and l: "length (ib_keys b) = ib_size b" using wf by (simp_all add: bag_wf_def bag_shape_def)
  have F: "ib_remove_loop k s b = ib_remove_loop k ((s + 1) AND ib_mask b) b"
    if "s < ib_size b" "occupied b s" "ib_keys b ! s \<noteq> k" for s
    using that in_bounds [OF shape] by (subst ib_remove_loop.simps) simp
  obtain s where s: "probe_end b k s" "ib_remove_loop k (unat k AND ib_mask b) b = ib_remove_loop k s b"
    by (rule probe [OF wf z, where F = "\<lambda>s. ib_remove_loop k s b" and k = k, OF F])
  have e: "s < ib_size b" "occupied b s" "ib_keys b ! s = k" using s(1) k by (auto simp: probe_end_def)
  define f where "f = ib_freqs b ! s - 1"
  define c where "c = ib_put b s (ib_keys b ! s) f"
  have c: "c = b\<lparr>ib_freqs := (ib_freqs b)[s := f]\<rparr>" by (simp add: c_def ib_put_def)
  have sum: "sum_list (ib_freqs c) + 1 = sum_list (ib_freqs b)"
    using ib_put_sum [OF e(1), of "ib_keys b ! s" f] e(2) by (simp add: c_def f_def)
  have cnt: "bag_count c k' + (if k' = k then 1 else 0) = bag_count b k'" for k'
    using bag_count_put [OF e(1) l, of "ib_keys b ! s" f k'] e(2,3) unfolding c_def [symmetric] by (auto simp: f_def split: if_splits)
  have rem: "ib_remove_loop k s b = (if f = 0 then map_option (\<lambda>r. rbind r (\<lambda>b2. Inr (True, b2))) (ib_relocate s c) else Some (Inr (True, c)))"
    unfolding c f_def using e in_bounds [OF shape] by (subst ib_remove_loop.simps) (simp add: Let_def)
  show thesis
  proof (cases "f = 0")
    case True
    then obtain b' where b': "ib_relocate_loop s ((s + 1) mod ib_size b) c = Some (Inr b')" "bag_wf b'" "same_counts c b'"
      using ib_relocate_loop_ok [OF reloc_start [OF wf z e(1,2)]] unfolding c_def by blast
    then have "ib_relocate s c = Some (Inr b')" using mask_slot [OF shape] by (simp add: ib_relocate_def c)
    then have "ib_remove k b = Some (Inr (True, b'))" using s(2) rem True by (simp add: ib_remove_def)
    moreover have "bag_removed b k b'" by (rule bag_removed_same [OF b'(3,2) _ sum cnt]) (simp add: c)
    ultimately show thesis by (rule that)
  next
    case False
    then have "bag_wf c" unfolding c_def by (intro bag_wf_freq [OF wf e(1,2)]) simp
    then have "bag_removed b k c" using sum cnt by (simp add: bag_removed_def c_def)
    moreover have "ib_remove k b = Some (Inr (True, c))" using s(2) rem False by (simp add: ib_remove_def)
    ultimately show thesis by (intro that [of c])
  qed
qed

section \<open>The ring buffer counts the last uses\<close>

lemma next_power_from_ge: "0 < p \<Longrightarrow> n \<le> next_power_from p n"
proof (induction p n rule: next_power_from.induct)
  case (1 p n)
  then show ?case by (subst next_power_from.simps) auto
qed

lemma next_power_from_pow: "\<exists>j. next_power_from p n = p * 2 ^ j"
proof (induction p n rule: next_power_from.induct)
  case (1 p n)
  show ?case
  proof (cases "n \<le> p \<or> p = 0")
    case True
    then show ?thesis by (subst next_power_from.simps) (auto intro: exI [of _ 0])
  next
    case False
    then obtain j where "next_power_from (2 * p) n = 2 * p * 2 ^ j" using 1 by blast
    then have "next_power_from p n = p * 2 ^ Suc j" using False by (subst next_power_from.simps) simp
    then show ?thesis by blast
  qed
qed

lemma bag_wf_empty: "0 < n \<Longrightarrow> n = 2 ^ e \<Longrightarrow> bag_wf \<lparr>ib_keys = replicate n 0, ib_freqs = replicate n 0, ib_mask = n - 1\<rparr>"
  by (simp add: bag_wf_def bag_shape_def keys_once_def chained_def)

lemma ib_new_ok:
  assumes "2 \<le> m" "m < 2 ^ 32"
  obtains b where "ib_new m = Inr b" "bag_wf b" "m < ib_size b" "sum_list (ib_freqs b) = 0"
proof -
  define c where "c = next_power_of_two (max 2 (m * 3 div 2))"
  have "max 2 (m * 3 div 2) \<le> c" unfolding c_def next_power_of_two_def by (rule next_power_from_ge) simp
  then have c: "m < c" using assms(1) by simp
  obtain e where e: "c = 2 ^ e" using next_power_from_pow [of 1] unfolding c_def next_power_of_two_def by auto
  have "ib_new m = Inr \<lparr>ib_keys = replicate c 0, ib_freqs = replicate c 0, ib_mask = c - 1\<rparr>"
    using assms(2) c by (simp add: ib_new_def c_def [symmetric] Let_def)
  then show thesis using bag_wf_empty [of c e] c e
    by (intro that [of "\<lparr>ib_keys = replicate c 0, ib_freqs = replicate c 0, ib_mask = c - 1\<rparr>"]) (simp_all add: sum_list_replicate)
qed

lemma ib_add_times_ok:
  assumes "bag_wf b" "sum_list (ib_freqs b) + n < ib_size b" "sum_list (ib_freqs b) + n < 2 ^ 32"
  shows "\<exists>b'. ib_add_times n k b = Some (Inr b') \<and> bag_wf b' \<and> ib_size b' = ib_size b \<and> sum_list (ib_freqs b') = sum_list (ib_freqs b) + n \<and>
    (\<forall>k'. bag_count b' k' = bag_count b k' + (if k' = k then n else 0))"
  using assms
proof (induction n arbitrary: b)
  case 0
  then show ?case by simp
next
  case (Suc n)
  have "sum_list (ib_freqs b) < ib_size b" "sum_list (ib_freqs b) + 1 < 2 ^ 32" using Suc.prems by simp_all
  then obtain f b1 where b1: "ib_add k b = Some (Inr (f, b1))" "bag_added b k b1" by (rule ib_add_eq [OF Suc.prems(1)])
  then obtain b' where "ib_add_times n k b1 = Some (Inr b')" "bag_wf b'" "ib_size b' = ib_size b1"
    "sum_list (ib_freqs b') = sum_list (ib_freqs b1) + n" "\<forall>k'. bag_count b' k' = bag_count b1 k' + (if k' = k then n else 0)"
    using Suc.IH [of b1] Suc.prems by (auto simp: bag_added_def)
  then show ?case using b1 by (intro exI [of _ b']) (simp add: bag_added_def)
qed

text \<open>The window of the ring buffer, oldest use first, and the frequencies that go with it.\<close>

definition fr_window :: "frequency_ring \<Rightarrow> u32 list" where
  "fr_window r = drop (fr_position r) (fr_buffer r) @ take (fr_position r) (fr_buffer r)"

definition ring_ok :: "frequency_ring \<Rightarrow> bool" where
  "ring_ok r \<longleftrightarrow> length (fr_buffer r) = fr_max_size r \<and> fr_position r < fr_max_size r \<and> fr_max_size r < 2 ^ 32 \<and> bag_wf (fr_frequencies r) \<and>
     fr_max_size r < ib_size (fr_frequencies r) \<and> sum_list (ib_freqs (fr_frequencies r)) = fr_max_size r \<and>
     (\<forall>k. bag_count (fr_frequencies r) k = count_list (fr_window r) k)"

lemma count_list_replicate: "count_list (replicate n x) k = (if k = x then n else 0)"
  by (induction n) auto

lemma fr_new_ok:
  assumes m: "2 \<le> m" "m < 2 ^ 32"
  shows "\<exists>r. fr_new m x = Some (Inr r) \<and> ring_ok r \<and> fr_window r = replicate m x"
proof -
  obtain b0 where b0: "ib_new m = Inr b0" "bag_wf b0" "m < ib_size b0" "sum_list (ib_freqs b0) = 0" by (rule ib_new_ok [OF m])
  have zero: "bag_count b0 k = 0" for k using bag_count_le [of b0 k] b0(4) by simp
  obtain b where b: "ib_add_times m x b0 = Some (Inr b)" "bag_wf b" "ib_size b = ib_size b0" "sum_list (ib_freqs b) = m"
    "\<And>k. bag_count b k = (if k = x then m else 0)"
    using ib_add_times_ok [OF b0(2), of m x] b0(3,4) m(2) zero by auto
  have "ib_frequency x b = Some (Inr m)" using ib_frequency_eq [OF b(2), of x] b(3-5) b0(3) by simp
  then show ?thesis
    using m b0 b by (auto simp: fr_new_def ring_ok_def fr_window_def count_list_replicate)
qed

lemma window_step:
  assumes "length xs = m" "p < m"
  shows "drop ((p + 1) mod m) (xs[p := x]) @ take ((p + 1) mod m) (xs[p := x]) = tl (drop p xs @ take p xs) @ [x]"
    and "xs ! p = hd (drop p xs @ take p xs)"
proof -
  have t: "take (Suc p) (xs[p := x]) = take p xs @ [x]" using assms by (simp add: take_Suc_conv_app_nth)
  have d: "drop p xs = xs ! p # drop (Suc p) xs" using assms by (simp add: Cons_nth_drop_Suc)
  then show "xs ! p = hd (drop p xs @ take p xs)" by simp
  show "drop ((p + 1) mod m) (xs[p := x]) @ take ((p + 1) mod m) (xs[p := x]) = tl (drop p xs @ take p xs) @ [x]"
  proof (cases "Suc p = m")
    case True
    then have "xs[p := x] = take p xs @ [x]" using t assms by simp
    then show ?thesis using True d assms by simp
  next
    case False
    then show ?thesis using t d assms by simp
  qed
qed

lemma fr_add_ok:
  assumes r: "ring_ok r"
  shows "\<exists>r'. fr_add i r = Some (Inr r') \<and> ring_ok r' \<and> fr_max_size r' = fr_max_size r \<and> fr_window r' = tl (fr_window r) @ [i]"
proof -
  let ?b = "fr_frequencies r" and ?x = "fr_buffer r ! fr_position r"
  have b: "length (fr_buffer r) = fr_max_size r" "fr_position r < fr_max_size r" "fr_max_size r < 2 ^ 32" "bag_wf ?b"
    "fr_max_size r < ib_size ?b" "sum_list (ib_freqs ?b) = fr_max_size r" "\<And>k. bag_count ?b k = count_list (fr_window r) k"
    using r by (simp_all add: ring_ok_def)
  note w = window_step [OF b(1,2)]
  have "fr_window r \<noteq> []" using b(1,2) by (simp add: fr_window_def)
  then have x: "fr_window r = ?x # tl (fr_window r)" using w(2) by (simp add: fr_window_def)
  have "0 < bag_count ?b ?x" unfolding b(7) by (subst x) simp
  moreover have "sum_list (ib_freqs ?b) < ib_size ?b" using b(5,6) by simp
  ultimately obtain b1 where b1: "ib_remove ?x ?b = Some (Inr (True, b1))" "bag_removed ?b ?x b1"
    using ib_remove_eq [OF b(4)] by metis
  then have "bag_wf b1" "sum_list (ib_freqs b1) < ib_size b1" "sum_list (ib_freqs b1) + 1 < 2 ^ 32"
    using b(3,5,6) by (simp_all add: bag_removed_def)
  then obtain f b2 where b2: "ib_add i b1 = Some (Inr (f, b2))" "bag_added b1 i b2" by (rule ib_add_eq)
  let ?r = "r\<lparr>fr_buffer := (fr_buffer r)[fr_position r := i], fr_frequencies := b2, fr_position := (fr_position r + 1) mod fr_max_size r\<rparr>"
  have win: "fr_window ?r = tl (fr_window r) @ [i]" using w(1) [of i] by (simp add: fr_window_def)
  have "bag_count b2 k = count_list (fr_window ?r) k" for k
  proof -
    have "bag_count b1 k + (if k = ?x then 1 else 0) = count_list (fr_window r) k" using b1(2) b(7) by (simp add: bag_removed_def)
    moreover have "count_list (fr_window r) k = count_list (tl (fr_window r)) k + (if k = ?x then 1 else 0)" by (subst x) simp
    moreover have "bag_count b2 k = bag_count b1 k + (if k = i then 1 else 0)" using b2(2) by (simp add: bag_added_def)
    ultimately show ?thesis unfolding win by (simp add: count_list_append)
  qed
  then have "ring_ok ?r" using b b1(2) b2(2) by (simp add: ring_ok_def bag_added_def bag_removed_def)
  moreover have "fr_add i r = Some (Inr ?r)" using b(1,2) b1(1) b2(1) by (simp add: fr_add_def Let_def)
  ultimately show ?thesis using win by (intro exI [of _ ?r]) simp
qed

lemma fr_frequency_ok: "ring_ok r \<Longrightarrow> fr_frequency k r = Some (Inr (count_list (fr_window r) k))"
  by (simp add: fr_frequency_def ring_ok_def ib_frequency_eq)

section \<open>The policy\<close>

text \<open>A sequence of uses: the type and the hash code of each weight that was used.\<close>

fun policy_uses :: "(string \<times> u32) list \<Rightarrow> frequency_ring \<Rightarrow> frequency_ring result option" where
  "policy_uses [] p = Some (Inr p)"
| "policy_uses ((query_type, hash_code) # uses) p =
     (case policy_on_use query_type hash_code p of
        None \<Rightarrow> None | Some (Inl e) \<Rightarrow> Some (Inl e) | Some (Inr p') \<Rightarrow> policy_uses uses p')"

lemma policy_uses_ok:
  assumes "ring_ok r" "\<forall>(ty, h) \<in> set uses. ty \<noteq> CONSTANT"
  shows "\<exists>r'. policy_uses uses r = Some (Inr r') \<and> ring_ok r' \<and> fr_window r' = drop (length uses) (fr_window r @ map snd uses)"
  using assms
proof (induction uses arbitrary: r)
  case Nil
  then show ?case by simp
next
  case (Cons u uses)
  obtain ty h where u: "u = (ty, h)" by (cases u)
  obtain r1 where r1: "fr_add h r = Some (Inr r1)" "ring_ok r1" "fr_window r1 = tl (fr_window r) @ [h]"
    using fr_add_ok [OF Cons.prems(1), of h] by blast
  obtain r' where r': "policy_uses uses r1 = Some (Inr r')" "ring_ok r'" "fr_window r' = drop (length uses) (fr_window r1 @ map snd uses)"
    using Cons.IH [OF r1(2)] Cons.prems(2) by auto
  have "fr_window r \<noteq> []" using Cons.prems(1) by (auto simp: ring_ok_def fr_window_def)
  then have "fr_window r1 @ map snd uses = drop 1 (fr_window r @ map snd (u # uses))" using r1(3) u by (cases "fr_window r") simp_all
  then have "fr_window r' = drop (length uses) (drop 1 (fr_window r @ map snd (u # uses)))" using r'(3) by (simp only:)
  then have "fr_window r' = drop (length (u # uses)) (fr_window r @ map snd (u # uses))" by (simp only: drop_drop list.size One_nat_def)
  moreover have "policy_uses (u # uses) r = Some (Inr r')" using r'(1) r1(1) Cons.prems(2) u by (simp add: policy_on_use_def)
  ultimately show ?case using r'(2) by blast
qed

text \<open>
  C8: the usage policy answers every question about every history. With a history size from 2 to
  2 ^ 32 - 1 the policy can be made; every sequence of uses of weights other than constant ones is
  recorded (no probe or relocation loop of the hash table runs on, no assertion fails and no
  frequency overflows); and then should_cache says to cache a weight exactly when it is not a
  match-all one and its hash code occurs, among the last history_size uses, the number of times that
  its type asks for, where unused places of the history count as the sentinel.
\<close>

theorem usage_policy_counts:
  assumes "2 \<le> m" "m < 2 ^ 32" "\<forall>(ty, h) \<in> set uses. ty \<noteq> CONSTANT"
  shows "\<exists>p0 p. policy_new m = Some (Inr p0) \<and> policy_uses uses p0 = Some (Inr p) \<and>
    (\<forall>ty h. ty \<noteq> CONSTANT \<longrightarrow> policy_should_cache ty h p =
       Some (Inr (ty \<noteq> MATCH_ALL \<and>
         policy_cache_min_frequency ty \<le> count_list (drop (length uses) (replicate m SENTINEL @ map snd uses)) h)))"
proof -
  obtain p0 where p0: "policy_new m = Some (Inr p0)" "ring_ok p0" "fr_window p0 = replicate m SENTINEL"
    using fr_new_ok [OF assms(1,2)] unfolding policy_new_def by blast
  obtain p where p: "policy_uses uses p0 = Some (Inr p)" "ring_ok p" "fr_window p = drop (length uses) (fr_window p0 @ map snd uses)"
    using policy_uses_ok [OF p0(2) assms(3)] by blast
  have "policy_should_cache ty h p = Some (Inr (ty \<noteq> MATCH_ALL \<and>
         policy_cache_min_frequency ty \<le> count_list (drop (length uses) (replicate m SENTINEL @ map snd uses)) h))" if "ty \<noteq> CONSTANT" for ty h
    using that fr_frequency_ok [OF p(2), of h] p(3) p0(3)
    by (cases "ty = MATCH_ALL") (simp_all add: policy_should_cache_def policy_frequency_def)
  then show ?thesis using p0(1) p(1) by blast
qed

theorem usage_policy_counts_witness:
  "\<exists>p0 p. policy_new 4 = Some (Inr p0) \<and> policy_uses [(''term'', 7), (''bool'', 9), (''point_range'', 3), (''point_range'', 3)] p0 = Some (Inr p) \<and>
     policy_should_cache ''point_range'' 3 p = Some (Inr True) \<and> policy_should_cache ''term'' 7 p = Some (Inr False)"
proof -
  have c: "\<forall>(ty, h) \<in> set [(''term'', 7 :: u32), (''bool'', 9), (''point_range'', 3), (''point_range'', 3)]. ty \<noteq> CONSTANT"
    by (simp add: CONSTANT_def)
  from usage_policy_counts [of 4, OF _ _ c] show ?thesis
    by (fastforce simp: CONSTANT_def MATCH_ALL_def SENTINEL_def policy_cache_min_frequency_def policy_is_costly_def policy_is_cheap_def POINT_RANGE_def TERM_QUERY_def)
qed

end
