(* ===== verification/Sorter.thy ===== *)
theory Sorter
  imports Rucene_Prelude "HOL-Library.Multiset"
begin

text \<open>
  The in-place sorts of \<^verbatim>\<open>util/sorter.rs\<close>: the default methods of the trait \<open>Sorter\<close> (binary insertion
  sort, heap sort, the quick sort that falls back to them, and the in-place merge). A default method
  takes the implementor's methods as an argument; its loops are partial functions, so that running on
  is the value \<open>None\<close>. The locale \<open>comparison_sorter\<close> states what an implementor promises about the
  array it sorts.

  An index is an \<open>i32\<close>, here an \<open>int\<close>. Indices are not negative, so that their differences fit; the
  sums of two indices, which may overflow, are checked, and a left shift drops the bits above the
  sign.
\<close>

section \<open>The trait\<close>

datatype cmp_ordering = Less | Equal | Greater

definition cmp :: "'k::linorder \<Rightarrow> 'k \<Rightarrow> cmp_ordering" where
  "cmp x y = (if x < y then Less else if x = y then Equal else Greater)"

record 's sorter_ops =
  sr_compare :: "int \<Rightarrow> int \<Rightarrow> 's \<Rightarrow> cmp_ordering run"
  sr_swap :: "int \<Rightarrow> int \<Rightarrow> 's \<Rightarrow> 's run"
  sr_set_pivot :: "int \<Rightarrow> 's \<Rightarrow> 's run"
  sr_compare_pivot :: "int \<Rightarrow> 's \<Rightarrow> cmp_ordering run"

text \<open>\<open>x.unsigned_shift(1)\<close> of an \<open>i32\<close>.\<close>

definition ushr1 :: "int \<Rightarrow> int" where
  "ushr1 x = (if x < 0 then (x + 2 ^ 32) div 2 else x div 2)"

section \<open>Binary sort\<close>

partial_function (option) binary_search :: "('s, 'e) sorter_ops_scheme \<Rightarrow> int \<Rightarrow> int \<Rightarrow> 's \<Rightarrow> int run" where
  "binary_search S l h s =
     (if l \<le> h
      then run_bind (i32_checked (l + h)) (\<lambda>sum.
           run_bind (sr_compare_pivot S (ushr1 sum) s) (\<lambda>c.
             if c = Less then binary_search S l (ushr1 sum - 1) s else binary_search S (ushr1 sum + 1) h s))
      else Some (Inr l))"

partial_function (option) shift_down :: "('s, 'e) sorter_ops_scheme \<Rightarrow> int \<Rightarrow> int \<Rightarrow> 's \<Rightarrow> 's run" where
  "shift_down S l j s =
     (if l < j then run_bind (sr_swap S (j - 1) j s) (\<lambda>s1. shift_down S l (j - 1) s1) else Some (Inr s))"

partial_function (option) binary_sort_loop :: "('s, 'e) sorter_ops_scheme \<Rightarrow> int \<Rightarrow> int \<Rightarrow> int \<Rightarrow> 's \<Rightarrow> 's run" where
  "binary_sort_loop S from to i s =
     (if i < to
      then run_bind (sr_set_pivot S i s) (\<lambda>s1.
           run_bind (binary_search S from (i - 1) s1) (\<lambda>l.
           run_bind (shift_down S l i s1) (\<lambda>s2. binary_sort_loop S from to (i + 1) s2)))
      else Some (Inr s))"

definition binary_sort :: "('s, 'e) sorter_ops_scheme \<Rightarrow> int \<Rightarrow> int \<Rightarrow> 's \<Rightarrow> 's run" where
  "binary_sort S from to s = run_bind (i32_checked (from + 1)) (\<lambda>i. binary_sort_loop S from to i s)"

section \<open>Heap sort\<close>

definition heap_parent :: "int \<Rightarrow> int \<Rightarrow> int run" where
  "heap_parent from i = i32_checked (ushr1 (i - 1 - from) + from)"

definition heap_child :: "int \<Rightarrow> int \<Rightarrow> int run" where
  "heap_child from i = run_bind (i32_checked (signed_take_bit 31 ((i - from) * 2) + 1)) (\<lambda>c. i32_checked (c + from))"

definition sift_target :: "('s, 'e) sorter_ops_scheme \<Rightarrow> int \<Rightarrow> int \<Rightarrow> int \<Rightarrow> 's \<Rightarrow> int option run" where
  "sift_target S to i left_child s =
     (let right_child = left_child + 1
      in run_bind (sr_compare S i left_child s) (\<lambda>c.
           if c = Less
           then if right_child < to
                then run_bind (sr_compare S left_child right_child s)
                       (\<lambda>c2. Some (Inr (Some (if c2 = Less then right_child else left_child))))
                else Some (Inr (Some left_child))
           else if right_child < to
           then run_bind (sr_compare S i right_child s) (\<lambda>c2. Some (Inr (if c2 = Less then Some right_child else None)))
           else Some (Inr None)))"

partial_function (option) sift_loop :: "('s, 'e) sorter_ops_scheme \<Rightarrow> int \<Rightarrow> int \<Rightarrow> int \<Rightarrow> int \<Rightarrow> 's \<Rightarrow> 's run" where
  "sift_loop S from to i left_child s =
     (if left_child < to
      then run_bind (sift_target S to i left_child s) (\<lambda>target.
             case target of
               None \<Rightarrow> Some (Inr s)
             | Some j \<Rightarrow>
                 run_bind (sr_swap S i j s) (\<lambda>s1.
                 run_bind (heap_child from j) (\<lambda>left. sift_loop S from to j left s1)))
      else Some (Inr s))"

definition heap_sift_down :: "('s, 'e) sorter_ops_scheme \<Rightarrow> int \<Rightarrow> int \<Rightarrow> int \<Rightarrow> 's \<Rightarrow> 's run" where
  "heap_sift_down S i from to s = run_bind (heap_child from i) (\<lambda>left. sift_loop S from to i left s)"

partial_function (option) heapify_loop :: "('s, 'e) sorter_ops_scheme \<Rightarrow> int \<Rightarrow> int \<Rightarrow> int \<Rightarrow> 's \<Rightarrow> 's run" where
  "heapify_loop S from to i s =
     (if from \<le> i then run_bind (heap_sift_down S i from to s) (\<lambda>s1. heapify_loop S from to (i - 1) s1) else Some (Inr s))"

definition heapify :: "('s, 'e) sorter_ops_scheme \<Rightarrow> int \<Rightarrow> int \<Rightarrow> 's \<Rightarrow> 's run" where
  "heapify S from to s = run_bind (heap_parent from (to - 1)) (\<lambda>i. heapify_loop S from to i s)"

partial_function (option) heap_sort_loop :: "('s, 'e) sorter_ops_scheme \<Rightarrow> int \<Rightarrow> int \<Rightarrow> 's \<Rightarrow> 's run" where
  "heap_sort_loop S from end1 s =
     (if from < end1
      then run_bind (sr_swap S from end1 s) (\<lambda>s1.
           run_bind (heap_sift_down S from from end1 s1) (\<lambda>s2. heap_sort_loop S from (end1 - 1) s2))
      else Some (Inr s))"

definition heap_sort :: "('s, 'e) sorter_ops_scheme \<Rightarrow> int \<Rightarrow> int \<Rightarrow> 's \<Rightarrow> 's run" where
  "heap_sort S from to s =
     (if to - from \<le> 1 then Some (Inr s)
      else run_bind (heapify S from to s) (\<lambda>s1. heap_sort_loop S from (to - 1) s1))"

section \<open>Quick sort\<close>

definition BINARY_SORT_THRESHOLD :: int where
  "BINARY_SORT_THRESHOLD = 20"

partial_function (option) skip_right :: "('s, 'e) sorter_ops_scheme \<Rightarrow> int \<Rightarrow> 's \<Rightarrow> int run" where
  "skip_right S right s =
     run_bind (sr_compare_pivot S right s) (\<lambda>c. if c = Less then skip_right S (right - 1) s else Some (Inr right))"

partial_function (option) skip_left :: "('s, 'e) sorter_ops_scheme \<Rightarrow> int \<Rightarrow> int \<Rightarrow> 's \<Rightarrow> int run" where
  "skip_left S left right s =
     (if left < right
      then run_bind (sr_compare_pivot S left s) (\<lambda>c. if c \<noteq> Less then skip_left S (left + 1) right s else Some (Inr left))
      else Some (Inr left))"

partial_function (option) partition_loop :: "('s, 'e) sorter_ops_scheme \<Rightarrow> int \<Rightarrow> int \<Rightarrow> 's \<Rightarrow> (int \<times> 's) run" where
  "partition_loop S left right s =
     run_bind (skip_right S right s) (\<lambda>r.
     run_bind (skip_left S left r s) (\<lambda>l.
       if l < r then run_bind (sr_swap S l r s) (\<lambda>s1. partition_loop S l (r - 1) s1) else Some (Inr (l, s))))"

definition swap_if_greater :: "('s, 'e) sorter_ops_scheme \<Rightarrow> int \<Rightarrow> int \<Rightarrow> 's \<Rightarrow> (bool \<times> 's) run" where
  "swap_if_greater S i j s =
     run_bind (sr_compare S i j s) (\<lambda>c.
       if c = Greater then run_bind (sr_swap S i j s) (\<lambda>s1. Some (Inr (True, s1))) else Some (Inr (False, s)))"

definition median_of_three :: "('s, 'e) sorter_ops_scheme \<Rightarrow> int \<Rightarrow> int \<Rightarrow> int \<Rightarrow> 's \<Rightarrow> 's run" where
  "median_of_three S from mid to s =
     run_bind (swap_if_greater S from mid s) (\<lambda>(_, s1).
     run_bind (swap_if_greater S mid (to - 1) s1) (\<lambda>(swapped, s2).
       if swapped then run_bind (swap_if_greater S from mid s2) (\<lambda>(_, s3). Some (Inr s3)) else Some (Inr s2)))"

partial_function (option) quick_sort :: "('s, 'e) sorter_ops_scheme \<Rightarrow> int \<Rightarrow> int \<Rightarrow> int \<Rightarrow> 's \<Rightarrow> 's run" where
  "quick_sort S from to max_depth s =
     run_bind (i32_checked (max_depth - 1)) (\<lambda>depth.
       if to - from < BINARY_SORT_THRESHOLD then binary_sort S from to s
       else if depth < 0 then heap_sort S from to s
       else run_bind (i32_checked (from + to)) (\<lambda>sum.
            run_bind (median_of_three S from (ushr1 sum) to s) (\<lambda>s1.
            run_bind (sr_set_pivot S (ushr1 sum) s1) (\<lambda>s2.
            run_bind (partition_loop S (from + 1) (to - 2) s2) (\<lambda>p.
            run_bind (quick_sort S from (fst p + 1) depth (snd p)) (\<lambda>s3. quick_sort S (fst p + 1) to depth s3))))))"

section \<open>In-place merge\<close>

partial_function (option) lower_loop :: "('s, 'e) sorter_ops_scheme \<Rightarrow> int \<Rightarrow> int \<Rightarrow> int \<Rightarrow> 's \<Rightarrow> int run" where
  "lower_loop S from len val s =
     (if 0 < len
      then run_bind (sr_compare S (from + ushr1 len) val s) (\<lambda>c.
             if c = Less then lower_loop S (from + ushr1 len + 1) (len - ushr1 len - 1) val s
             else lower_loop S from (ushr1 len) val s)
      else Some (Inr from))"

definition lower :: "('s, 'e) sorter_ops_scheme \<Rightarrow> int \<Rightarrow> int \<Rightarrow> int \<Rightarrow> 's \<Rightarrow> int run" where
  "lower S from to val s = lower_loop S from (to - from) val s"

partial_function (option) upper_loop :: "('s, 'e) sorter_ops_scheme \<Rightarrow> int \<Rightarrow> int \<Rightarrow> int \<Rightarrow> 's \<Rightarrow> int run" where
  "upper_loop S from len val s =
     (if 0 < len
      then run_bind (sr_compare S val (from + ushr1 len) s) (\<lambda>c.
             if c = Less then upper_loop S from (ushr1 len) val s
             else upper_loop S (from + ushr1 len + 1) (len - ushr1 len - 1) val s)
      else Some (Inr from))"

definition upper :: "('s, 'e) sorter_ops_scheme \<Rightarrow> int \<Rightarrow> int \<Rightarrow> int \<Rightarrow> 's \<Rightarrow> int run" where
  "upper S from to val s = upper_loop S from (to - from) val s"

partial_function (option) reverse_loop :: "('s, 'e) sorter_ops_scheme \<Rightarrow> int \<Rightarrow> int \<Rightarrow> 's \<Rightarrow> 's run" where
  "reverse_loop S from to s =
     (if from < to then run_bind (sr_swap S from to s) (\<lambda>s1. reverse_loop S (from + 1) (to - 1) s1) else Some (Inr s))"

definition reverse :: "('s, 'e) sorter_ops_scheme \<Rightarrow> int \<Rightarrow> int \<Rightarrow> 's \<Rightarrow> 's run" where
  "reverse S from to s = reverse_loop S from (to - 1) s"

partial_function (option) exchange_loop :: "('s, 'e) sorter_ops_scheme \<Rightarrow> int \<Rightarrow> int \<Rightarrow> int \<Rightarrow> 's \<Rightarrow> 's run" where
  "exchange_loop S low mid high s =
     (if mid < high then run_bind (sr_swap S low mid s) (\<lambda>s1. exchange_loop S (low + 1) (mid + 1) high s1) else Some (Inr s))"

definition rotate_range :: "('s, 'e) sorter_ops_scheme \<Rightarrow> int \<Rightarrow> int \<Rightarrow> int \<Rightarrow> 's \<Rightarrow> 's run" where
  "rotate_range S low mid high s =
     (if \<not> (low < mid \<and> mid < high) then Some (Inl (Panic ''low < mid && mid < high''))
      else if mid - low = high - mid then exchange_loop S low mid high s
      else run_bind (reverse S low mid s) (\<lambda>s1. run_bind (reverse S mid high s1) (\<lambda>s2. reverse S low high s2)))"

partial_function (option) merge_front :: "('s, 'e) sorter_ops_scheme \<Rightarrow> int \<Rightarrow> int \<Rightarrow> 's \<Rightarrow> int run" where
  "merge_front S from mid s =
     run_bind (sr_compare S from mid s) (\<lambda>c. if c \<noteq> Greater then merge_front S (from + 1) mid s else Some (Inr from))"

partial_function (option) merge_back :: "('s, 'e) sorter_ops_scheme \<Rightarrow> int \<Rightarrow> int \<Rightarrow> 's \<Rightarrow> int run" where
  "merge_back S mid to s =
     run_bind (sr_compare S (mid - 1) (to - 1) s) (\<lambda>c. if c \<noteq> Greater then merge_back S mid (to - 1) s else Some (Inr to))"

definition merge_cuts :: "('s, 'e) sorter_ops_scheme \<Rightarrow> int \<Rightarrow> int \<Rightarrow> int \<Rightarrow> 's \<Rightarrow> (int \<times> int \<times> int) run" where
  "merge_cuts S from mid to s =
     (if to - mid < mid - from
      then let first_cut = from + ushr1 (mid - from)
           in run_bind (lower S mid to first_cut s) (\<lambda>second_cut. Some (Inr (first_cut, second_cut, second_cut - mid)))
      else let len22 = ushr1 (to - mid); second_cut = mid + len22
           in run_bind (upper S from mid second_cut s) (\<lambda>first_cut. Some (Inr (first_cut, second_cut, len22))))"

partial_function (option) merge_in_place :: "('s, 'e) sorter_ops_scheme \<Rightarrow> int \<Rightarrow> int \<Rightarrow> int \<Rightarrow> 's \<Rightarrow> 's run" where
  "merge_in_place S from mid to s =
     (if from = mid \<or> mid = to then Some (Inr s)
      else run_bind (sr_compare S (mid - 1) mid s) (\<lambda>c.
             if c \<noteq> Greater then Some (Inr s)
             else if to - from = 2 then sr_swap S (mid - 1) mid s
             else run_bind (merge_front S from mid s) (\<lambda>from1.
                  run_bind (merge_back S mid to s) (\<lambda>to1.
                  run_bind (merge_cuts S from1 mid to1 s) (\<lambda>(first_cut, second_cut, len22).
                  run_bind (rotate_range S first_cut mid second_cut s) (\<lambda>s1.
                  run_bind (merge_in_place S from1 first_cut (first_cut + len22) s1) (\<lambda>s2.
                    merge_in_place S (first_cut + len22) second_cut to1 s2)))))))"

section \<open>Ranges of an array\<close>

definition el :: "'a list \<Rightarrow> int \<Rightarrow> 'a" where
  "el xs i = xs ! nat i"

definition swapped :: "int \<Rightarrow> int \<Rightarrow> 'a list \<Rightarrow> 'a list" where
  "swapped i j xs = xs[nat i := el xs j, nat j := el xs i]"

definition perm_in :: "int \<Rightarrow> int \<Rightarrow> 'a list \<Rightarrow> 'a list \<Rightarrow> bool" where
  "perm_in a b xs ys \<longleftrightarrow> mset ys = mset xs \<and> (\<forall>i. 0 \<le> i \<longrightarrow> i < a \<or> b \<le> i \<longrightarrow> i < int (length xs) \<longrightarrow> el ys i = el xs i)"

lemma length_swapped [simp]: "length (swapped i j xs) = length xs"
  by (simp add: swapped_def)

lemma el_swapped:
  assumes "0 \<le> i" "i < int (length xs)" "0 \<le> j" "j < int (length xs)" "0 \<le> p"
  shows "el (swapped i j xs) p = (if p = j then el xs i else if p = i then el xs j else el xs p)"
  using assms by (auto simp: swapped_def el_def nth_list_update)

lemma perm_in_length: "perm_in a b xs ys \<Longrightarrow> length ys = length xs"
  unfolding perm_in_def by (metis size_mset)

lemma perm_in_refl [simp]: "perm_in a b xs xs"
  by (simp add: perm_in_def)

lemma perm_in_trans: "perm_in a b xs ys \<Longrightarrow> perm_in a b ys zs \<Longrightarrow> perm_in a b xs zs"
  using perm_in_length [of a b xs ys] by (auto simp: perm_in_def)

lemma perm_in_mono: "perm_in a b xs ys \<Longrightarrow> a' \<le> a \<Longrightarrow> b \<le> b' \<Longrightarrow> perm_in a' b' xs ys"
  by (auto simp: perm_in_def)

lemma perm_in_outside: "perm_in a b xs ys \<Longrightarrow> 0 \<le> i \<Longrightarrow> i < int (length xs) \<Longrightarrow> i < a \<or> b \<le> i \<Longrightarrow> el ys i = el xs i"
  by (auto simp: perm_in_def)

lemma perm_in_swapped:
  assumes "0 \<le> a" "b \<le> int (length xs)" "a \<le> i" "i < b" "a \<le> j" "j < b"
  shows "perm_in a b xs (swapped i j xs)"
proof -
  have "mset (swapped i j xs) = mset xs"
    using assms mset_swap [of "nat j" xs "nat i"] by (simp add: swapped_def el_def)
  then show ?thesis using assms by (auto simp: perm_in_def el_swapped)
qed

definition segment :: "int \<Rightarrow> int \<Rightarrow> 'a list \<Rightarrow> 'a list" where
  "segment a b xs = take (nat b - nat a) (drop (nat a) xs)"

lemma length_segment: "0 \<le> a \<Longrightarrow> a \<le> b \<Longrightarrow> b \<le> int (length xs) \<Longrightarrow> length (segment a b xs) = nat (b - a)"
  by (simp add: segment_def nat_diff_distrib)

lemma nth_segment: "0 \<le> a \<Longrightarrow> a \<le> b \<Longrightarrow> b \<le> int (length xs) \<Longrightarrow> k < nat (b - a) \<Longrightarrow> segment a b xs ! k = el xs (a + int k)"
  by (simp add: segment_def el_def nat_add_distrib nat_diff_distrib)

lemma set_segment:
  assumes "0 \<le> a" "a \<le> b" "b \<le> int (length xs)"
  shows "set (segment a b xs) = el xs ` {a..<b}"
proof -
  have "set (segment a b xs) = (\<lambda>k. el xs (a + int k)) ` {..<nat (b - a)}"
    using map_nth [of "segment a b xs"] nth_segment [OF assms] length_segment [OF assms]
    by (metis (no_types, lifting) atLeast_upt image_cong lessThan_iff list.set_map)
  also have "\<dots> = el xs ` (\<lambda>k. a + int k) ` {..<nat (b - a)}" by (simp add: image_image)
  also have "(\<lambda>k. a + int k) ` {..<nat (b - a)} = {a..<b}"
  proof (intro equalityI subsetI)
    fix x assume "x \<in> {a..<b}"
    then show "x \<in> (\<lambda>k. a + int k) ` {..<nat (b - a)}" by (intro image_eqI [of _ _ "nat (x - a)"]) auto
  qed auto
  finally show ?thesis .
qed

lemma perm_in_segment:
  assumes p: "perm_in a b xs ys" and ab: "0 \<le> a" "a \<le> b" "b \<le> int (length xs)"
  shows "mset (segment a b ys) = mset (segment a b xs)"
proof -
  have parts: "take (nat a) zs @ segment a b zs @ drop (nat b) zs = zs" for zs :: "'a list"
    using ab take_add [of "nat a" "nat b - nat a" zs] append_take_drop_id [of "nat b" zs] by (simp add: segment_def)
  have len: "length ys = length xs" by (rule perm_in_length [OF p])
  have out: "ys ! k = xs ! k" if "k < length xs" "k < nat a \<or> nat b \<le> k" for k
  proof -
    have "int k < a \<or> b \<le> int k" using that(2) by linarith
    then show ?thesis using perm_in_outside [OF p, of "int k"] that(1) by (simp add: el_def)
  qed
  have "take (nat a) ys = take (nat a) xs" "drop (nat b) ys = drop (nat b) xs"
    using len out by (auto intro!: nth_equalityI)
  then show ?thesis
    using p parts [of xs] parts [of ys] unfolding perm_in_def by (metis add_left_cancel add_right_cancel mset_append)
qed

lemma perm_in_all:
  assumes p: "perm_in a b xs ys" and ab: "0 \<le> a" "b \<le> int (length xs)"
    and P: "\<And>i. a \<le> i \<Longrightarrow> i < b \<Longrightarrow> P (el xs i)" and j: "a \<le> j" "j < b"
  shows "P (el ys j)"
proof -
  have le: "a \<le> b" using j by simp
  have len: "b \<le> int (length ys)" using ab(2) perm_in_length [OF p] by simp
  have "el ys ` {a..<b} = el xs ` {a..<b}"
    using perm_in_segment [OF p ab(1) le ab(2)] set_segment [OF ab(1) le len] set_segment [OF ab(1) le ab(2)] by (metis set_mset_mset)
  then obtain i where "a \<le> i" "i < b" "el ys j = el xs i" using j by (metis atLeastLessThan_iff imageE image_eqI)
  then show ?thesis using P by simp
qed

lemma card_segment:
  assumes "0 \<le> a" "a \<le> b" "b \<le> int (length xs)"
  shows "card {p \<in> {a..<b}. P (el xs p)} = size (filter_mset P (mset (segment a b xs)))"
proof -
  have "size (filter_mset P (mset (segment a b xs))) = length (filter P (segment a b xs))" by (metis mset_filter size_mset)
  also have "\<dots> = card {k. k < nat (b - a) \<and> P (el xs (a + int k))}"
    using nth_segment [OF assms] unfolding length_filter_conv_card length_segment [OF assms] by (metis (lifting))
  also have "\<dots> = card {p \<in> {a..<b}. P (el xs p)}"
  proof (rule bij_betw_same_card [of "\<lambda>k. a + int k"], unfold bij_betw_def, intro conjI)
    show "(\<lambda>k. a + int k) ` {k. k < nat (b - a) \<and> P (el xs (a + int k))} = {p \<in> {a..<b}. P (el xs p)}"
    proof (intro equalityI subsetI)
      fix x assume "x \<in> {p \<in> {a..<b}. P (el xs p)}"
      then show "x \<in> (\<lambda>k. a + int k) ` {k. k < nat (b - a) \<and> P (el xs (a + int k))}" by (intro image_eqI [of _ _ "nat (x - a)"]) auto
    qed auto
  qed (auto intro: inj_onI)
  finally show ?thesis by simp
qed

lemma perm_in_card:
  assumes "perm_in a b xs ys" "0 \<le> a" "b \<le> int (length xs)"
  shows "card {p \<in> {a..<b}. P (el ys p)} = card {p \<in> {a..<b}. P (el xs p)}"
proof (cases "a \<le> b")
  case True
  then show ?thesis
    using card_segment [of a b xs P] card_segment [of a b ys P] perm_in_segment [of a b xs ys] perm_in_length [of a b xs ys] assms by simp
qed simp

section \<open>What an implementor promises\<close>

text \<open>
  The implementor sorts an array \<open>elems s\<close> by \<open>key\<close>; the pivot is the key of an element, kept by value.
  It need only work on the indices from \<open>first\<close> to \<open>final\<close>.
\<close>

locale comparison_sorter =
  fixes S :: "('s, 'e) sorter_ops_scheme" and elems :: "'s \<Rightarrow> 'a list" and key :: "'a \<Rightarrow> 'k::linorder"
    and pivot :: "'s \<Rightarrow> 'k" and invar :: "'s \<Rightarrow> bool" and first final :: int
  assumes compare_eq: "invar s \<Longrightarrow> first \<le> i \<Longrightarrow> i < final \<Longrightarrow> first \<le> j \<Longrightarrow> j < final \<Longrightarrow>
      sr_compare S i j s = Some (Inr (cmp (key (el (elems s) i)) (key (el (elems s) j))))"
    and swap_ok: "invar s \<Longrightarrow> first \<le> i \<Longrightarrow> i < final \<Longrightarrow> first \<le> j \<Longrightarrow> j < final \<Longrightarrow>
      returns (sr_swap S i j s) (\<lambda>s'. invar s' \<and> elems s' = swapped i j (elems s) \<and> pivot s' = pivot s)"
    and set_pivot_ok: "invar s \<Longrightarrow> first \<le> i \<Longrightarrow> i < final \<Longrightarrow>
      returns (sr_set_pivot S i s) (\<lambda>s'. invar s' \<and> elems s' = elems s \<and> pivot s' = key (el (elems s) i))"
    and compare_pivot_eq: "invar s \<Longrightarrow> first \<le> i \<Longrightarrow> i < final \<Longrightarrow>
      sr_compare_pivot S i s = Some (Inr (cmp (pivot s) (key (el (elems s) i))))"
begin

definition k_at :: "'s \<Rightarrow> int \<Rightarrow> 'k" where
  "k_at s i = key (el (elems s) i)"

definition sorted_in :: "int \<Rightarrow> int \<Rightarrow> 's \<Rightarrow> bool" where
  "sorted_in a b s \<longleftrightarrow> (\<forall>i j. a \<le> i \<longrightarrow> i \<le> j \<longrightarrow> j < b \<longrightarrow> k_at s i \<le> k_at s j)"

text \<open>A step from \<open>s\<close> that only rearranges a range.\<close>

definition rearranged :: "int \<Rightarrow> int \<Rightarrow> 's \<Rightarrow> 's \<Rightarrow> bool" where
  "rearranged a b s s' \<longleftrightarrow> invar s' \<and> perm_in a b (elems s) (elems s')"

abbreviation range_ok :: "int \<Rightarrow> int \<Rightarrow> 's \<Rightarrow> bool" where
  "range_ok a b s \<equiv> invar s \<and> 0 \<le> a \<and> b \<le> int (length (elems s)) \<and> first \<le> a \<and> b \<le> final"

lemma sorted_in_short:
  assumes "hi - lo \<le> 1"
  shows "sorted_in lo hi s"
  unfolding sorted_in_def
proof (intro allI impI)
  fix i j assume "lo \<le> i" "i \<le> j" "j < hi"
  then have "i = j" using assms by linarith
  then show "k_at s i \<le> k_at s j" by simp
qed

lemma rearranged_refl: "invar s \<Longrightarrow> rearranged a b s s"
  by (simp add: rearranged_def)

lemma rearranged_trans: "rearranged a b s s1 \<Longrightarrow> rearranged a b s1 s2 \<Longrightarrow> rearranged a b s s2"
  by (auto simp: rearranged_def intro: perm_in_trans)

lemma rearranged_mono: "rearranged a b s s1 \<Longrightarrow> a' \<le> a \<Longrightarrow> b \<le> b' \<Longrightarrow> rearranged a' b' s s1"
  by (auto simp: rearranged_def intro: perm_in_mono)

lemma rearranged_ok: "rearranged a b s s1 \<Longrightarrow> range_ok c d s \<Longrightarrow> range_ok c d s1"
  using perm_in_length by (fastforce simp: rearranged_def)

lemma rearranged_length: "rearranged a b s s1 \<Longrightarrow> length (elems s1) = length (elems s)"
  using perm_in_length by (auto simp: rearranged_def)

lemma rearranged_outside:
  "rearranged a b s s1 \<Longrightarrow> 0 \<le> i \<Longrightarrow> i < int (length (elems s)) \<Longrightarrow> i < a \<or> b \<le> i \<Longrightarrow> k_at s1 i = k_at s i"
  unfolding rearranged_def k_at_def using perm_in_outside by metis

lemma rearranged_all:
  assumes "rearranged a b s s1" "range_ok a b s" "\<And>i. a \<le> i \<Longrightarrow> i < b \<Longrightarrow> P (k_at s i)" "a \<le> j" "j < b"
  shows "P (k_at s1 j)"
  using perm_in_all [of a b "elems s" "elems s1" "\<lambda>x. P (key x)" j] assms by (simp add: rearranged_def k_at_def)

lemma swap_returns:
  assumes "range_ok a b s" "a \<le> i" "i < b" "a \<le> j" "j < b"
  shows "returns (sr_swap S i j s) (\<lambda>s'. rearranged a b s s' \<and> pivot s' = pivot s \<and>
    (\<forall>p\<ge>0. k_at s' p = (if p = j then k_at s i else if p = i then k_at s j else k_at s p)))"
proof (rule returns_mono)
  show "returns (sr_swap S i j s) (\<lambda>s'. invar s' \<and> elems s' = swapped i j (elems s) \<and> pivot s' = pivot s)"
    using assms by (intro swap_ok) auto
  show "rearranged a b s s' \<and> pivot s' = pivot s \<and> (\<forall>p\<ge>0. k_at s' p = (if p = j then k_at s i else if p = i then k_at s j else k_at s p))"
    if "invar s' \<and> elems s' = swapped i j (elems s) \<and> pivot s' = pivot s" for s'
    using that assms by (auto simp: rearranged_def k_at_def el_swapped intro: perm_in_swapped)
qed

lemma compare_at: "range_ok a b s \<Longrightarrow> a \<le> i \<Longrightarrow> i < b \<Longrightarrow> a \<le> j \<Longrightarrow> j < b \<Longrightarrow>
    sr_compare S i j s = Some (Inr (cmp (k_at s i) (k_at s j)))"
  by (auto simp: k_at_def intro!: compare_eq)

lemma compare_pivot_at: "range_ok a b s \<Longrightarrow> a \<le> i \<Longrightarrow> i < b \<Longrightarrow>
    sr_compare_pivot S i s = Some (Inr (cmp (pivot s) (k_at s i)))"
  by (auto simp: k_at_def intro!: compare_pivot_eq)

end

lemma cmp_simps [simp]:
  "cmp x y = Less \<longleftrightarrow> x < y" "cmp x y = Greater \<longleftrightarrow> y < x" "cmp x y = Equal \<longleftrightarrow> x = y"
  by (auto simp: cmp_def)

lemma ushr1_bounds: "0 \<le> l \<Longrightarrow> l \<le> h \<Longrightarrow> l \<le> ushr1 (l + h) \<and> ushr1 (l + h) \<le> h"
  by (auto simp: ushr1_def)

section \<open>Binary sort sorts\<close>

context comparison_sorter
begin

lemma binary_search_ok:
  assumes r: "range_ok lo i s" "sorted_in lo i s" "i \<le> 2 ^ 30"
    and lh: "lo \<le> l" "h < i" "l \<le> h + 1"
    and le: "\<And>j. lo \<le> j \<Longrightarrow> j < l \<Longrightarrow> k_at s j \<le> pivot s" and gt: "\<And>j. h < j \<Longrightarrow> j < i \<Longrightarrow> pivot s < k_at s j"
  shows "returns (binary_search S l h s) (\<lambda>m. lo \<le> m \<and> m \<le> i \<and>
    (\<forall>j. lo \<le> j \<longrightarrow> j < m \<longrightarrow> k_at s j \<le> pivot s) \<and> (\<forall>j. m \<le> j \<longrightarrow> j < i \<longrightarrow> pivot s < k_at s j))"
  using lh le gt
proof (induction "nat (h - l + 1)" arbitrary: l h rule: less_induct)
  case less
  show ?case
  proof (cases "l \<le> h")
    case True
    let ?m = "ushr1 (l + h)"
    have m: "l \<le> ?m" "?m \<le> h" using ushr1_bounds [of l h] r(1) less.prems(1) True by auto
    have sum: "i32_checked (l + h) = Some (Inr (l + h))" using r less.prems(1,2) True by simp
    have cmp: "sr_compare_pivot S ?m s = Some (Inr (cmp (pivot s) (k_at s ?m)))"
      using m less.prems(1,2) by (intro compare_pivot_at [OF r(1)]) auto
    show ?thesis
    proof (cases "pivot s < k_at s ?m")
      case lt: True
      have "pivot s < k_at s j" if "?m - 1 < j" "j < i" for j
      proof -
        have "k_at s ?m \<le> k_at s j" using r(2) that m less.prems(1) unfolding sorted_in_def by auto
        then show ?thesis using lt by simp
      qed
      then show ?thesis
        using less.hyps [of "?m - 1" l] less.prems m lt True by (subst binary_search.simps) (simp add: sum cmp)
    next
      case ge: False
      have "k_at s j \<le> pivot s" if "lo \<le> j" "j < ?m + 1" for j
      proof -
        have "k_at s j \<le> k_at s ?m" using r(2) that m less.prems(2) unfolding sorted_in_def by auto
        then show ?thesis using ge by simp
      qed
      then show ?thesis
        using less.hyps [of h "?m + 1"] less.prems m ge True by (subst binary_search.simps) (simp add: sum cmp)
    qed
  next
    case False
    then show ?thesis using less.prems by (subst binary_search.simps) auto
  qed
qed

lemma shift_down_ok:
  assumes "range_ok lo hi s" "lo \<le> l" "l \<le> j" "j < hi"
  shows "returns (shift_down S l j s) (\<lambda>s'. rearranged lo hi s s' \<and>
    (\<forall>p\<ge>0. k_at s' p = (if p = l then k_at s j else if l < p \<and> p \<le> j then k_at s (p - 1) else k_at s p)))"
  using assms
proof (induction "nat (j - l)" arbitrary: j s)
  case 0
  then show ?case by (subst shift_down.simps) (auto simp: rearranged_refl)
next
  case (Suc n)
  have lj: "l < j" using Suc.hyps(2) by simp
  have sw: "returns (sr_swap S (j - 1) j s) (\<lambda>s1. rearranged lo hi s s1 \<and> pivot s1 = pivot s \<and>
    (\<forall>p\<ge>0. k_at s1 p = (if p = j then k_at s (j - 1) else if p = j - 1 then k_at s j else k_at s p)))"
    using Suc.prems lj by (intro swap_returns) auto
  show ?case
    unfolding shift_down.simps [of S l j s] if_P [OF lj]
  proof (rule returns_bind [OF sw])
    fix s1 assume s1: "rearranged lo hi s s1 \<and> pivot s1 = pivot s \<and>
      (\<forall>p\<ge>0. k_at s1 p = (if p = j then k_at s (j - 1) else if p = j - 1 then k_at s j else k_at s p))"
    have "returns (shift_down S l (j - 1) s1) (\<lambda>s'. rearranged lo hi s1 s' \<and>
      (\<forall>p\<ge>0. k_at s' p = (if p = l then k_at s1 (j - 1) else if l < p \<and> p \<le> j - 1 then k_at s1 (p - 1) else k_at s1 p)))"
      using Suc.hyps Suc.prems lj rearranged_ok [of lo hi s s1] s1 by (intro Suc.hyps(1)) auto
    then show "returns (shift_down S l (j - 1) s1) (\<lambda>s'. rearranged lo hi s s' \<and>
      (\<forall>p\<ge>0. k_at s' p = (if p = l then k_at s j else if l < p \<and> p \<le> j then k_at s (p - 1) else k_at s p)))"
      by (rule returns_mono) (use s1 lj Suc.prems in \<open>auto intro: rearranged_trans\<close>)
  qed
qed

lemma insert_sorted:
  assumes "sorted_in lo i s" "0 \<le> lo" "lo \<le> l" "l \<le> i"
    and "\<forall>j. lo \<le> j \<longrightarrow> j < l \<longrightarrow> k_at s j \<le> k_at s i" "\<forall>j. l \<le> j \<longrightarrow> j < i \<longrightarrow> k_at s i < k_at s j"
    and k: "\<forall>p\<ge>0. k_at s' p = (if p = l then k_at s i else if l < p \<and> p \<le> i then k_at s (p - 1) else k_at s p)"
  shows "sorted_in lo (i + 1) s'"
  unfolding sorted_in_def
proof (intro allI impI)
  fix p q assume pq: "lo \<le> p" "p \<le> q" "q < i + 1"
  have s: "k_at s p' \<le> k_at s q'" if "lo \<le> p'" "p' \<le> q'" "q' < i" for p' q'
    using assms(1) that by (simp add: sorted_in_def)
  consider "q < l" | "q = l" "p < l" | "q = l" "p = l" | "l < q" "p < l" | "l < q" "p = l" | "l < q" "l < p" using pq by linarith
  then show "k_at s' p \<le> k_at s' q"
  proof cases
    case 1 then show ?thesis using k assms(2,4) pq s [of p q] by simp
  next
    case 2 then show ?thesis using k assms(2,4,5) pq by simp
  next
    case 3 then show ?thesis by simp
  next
    case 4 then show ?thesis using k assms(2) pq s [of p "q - 1"] by simp
  next
    case 5
    then have "k_at s i < k_at s (q - 1)" using assms(6) pq by simp
    then show ?thesis using 5 k assms(2,3) pq by simp
  next
    case 6 then show ?thesis using k assms(2,3) pq s [of "p - 1" "q - 1"] by simp
  qed
qed

lemma binary_sort_loop_ok:
  assumes "range_ok lo hi s" "hi \<le> 2 ^ 30" "lo < i" "sorted_in lo i s"
  shows "returns (binary_sort_loop S lo hi i s) (\<lambda>s'. rearranged lo hi s s' \<and> sorted_in lo hi s')"
  using assms
proof (induction "nat (hi - i)" arbitrary: i s)
  case 0
  then show ?case by (subst binary_sort_loop.simps) (auto simp: rearranged_refl sorted_in_def)
next
  case (Suc n)
  then have i: "i < hi" "0 \<le> i" by auto
  show ?case
    unfolding binary_sort_loop.simps [of S lo hi i s] if_P [OF i(1)]
  proof (rule returns_bind [OF set_pivot_ok])
    fix s1 assume s1: "invar s1 \<and> elems s1 = elems s \<and> pivot s1 = key (el (elems s) i)"
    then have k1: "k_at s1 = k_at s" "pivot s1 = k_at s i" by (auto simp: k_at_def fun_eq_iff)
    have r1: "range_ok lo i s1" "range_ok lo hi s1" "sorted_in lo i s1" using s1 i Suc.prems k1 by (auto simp: sorted_in_def)
    have "returns (binary_search S lo (i - 1) s1) (\<lambda>m. lo \<le> m \<and> m \<le> i \<and>
      (\<forall>j. lo \<le> j \<longrightarrow> j < m \<longrightarrow> k_at s1 j \<le> pivot s1) \<and> (\<forall>j. m \<le> j \<longrightarrow> j < i \<longrightarrow> pivot s1 < k_at s1 j))"
      using r1 i Suc.prems by (intro binary_search_ok) auto
    then show "returns (run_bind (binary_search S lo (i - 1) s1) (\<lambda>l. run_bind (shift_down S l i s1) (\<lambda>s2. binary_sort_loop S lo hi (i + 1) s2)))
      (\<lambda>s'. rearranged lo hi s s' \<and> sorted_in lo hi s')"
    proof (rule returns_bind)
      fix l assume l: "lo \<le> l \<and> l \<le> i \<and> (\<forall>j. lo \<le> j \<longrightarrow> j < l \<longrightarrow> k_at s1 j \<le> pivot s1) \<and> (\<forall>j. l \<le> j \<longrightarrow> j < i \<longrightarrow> pivot s1 < k_at s1 j)"
      show "returns (run_bind (shift_down S l i s1) (\<lambda>s2. binary_sort_loop S lo hi (i + 1) s2)) (\<lambda>s'. rearranged lo hi s s' \<and> sorted_in lo hi s')"
      proof (rule returns_bind [OF shift_down_ok [OF r1(2)]])
        fix s2 assume s2: "rearranged lo hi s1 s2 \<and>
          (\<forall>p\<ge>0. k_at s2 p = (if p = l then k_at s1 i else if l < p \<and> p \<le> i then k_at s1 (p - 1) else k_at s1 p))"
        then have "sorted_in lo (i + 1) s2" using insert_sorted [OF r1(3), of l s2] l r1(1) k1 by simp
        then have "returns (binary_sort_loop S lo hi (i + 1) s2) (\<lambda>s'. rearranged lo hi s2 s' \<and> sorted_in lo hi s')"
          using Suc.hyps Suc.prems rearranged_ok [of lo hi s1 s2 lo hi] r1(2) s2 by (intro Suc.hyps(1)) auto
        moreover have "rearranged lo hi s s2" using s2 s1 by (simp add: rearranged_def)
        ultimately show "returns (binary_sort_loop S lo hi (i + 1) s2) (\<lambda>s'. rearranged lo hi s s' \<and> sorted_in lo hi s')"
          by (auto elim!: returns_mono intro: rearranged_trans)
      qed (use l i in auto)
    qed
  qed (use i Suc.prems in auto)
qed

lemma binary_sort_ok:
  assumes "range_ok lo hi s" "lo \<le> hi" "hi \<le> 2 ^ 30"
  shows "returns (binary_sort S lo hi s) (\<lambda>s'. rearranged lo hi s s' \<and> sorted_in lo hi s')"
  using assms binary_sort_loop_ok [of s lo hi "lo + 1"] by (simp add: binary_sort_def sorted_in_short)

end

section \<open>Heap sort sorts\<close>

definition child :: "int \<Rightarrow> int \<Rightarrow> int \<Rightarrow> bool" where
  "child lo p c \<longleftrightarrow> c = 2 * (p - lo) + lo + 1 \<or> c = 2 * (p - lo) + lo + 2"

lemma child_less: "lo \<le> p \<Longrightarrow> child lo p c \<Longrightarrow> p < c"
  by (auto simp: child_def)

lemma child_parent: "child lo p c \<Longrightarrow> child lo q c \<Longrightarrow> p = q"
  unfolding child_def by presburger

context comparison_sorter
begin

definition heap_above :: "int \<Rightarrow> int \<Rightarrow> int \<Rightarrow> 's \<Rightarrow> bool" where
  "heap_above lo a hi s \<longleftrightarrow> (\<forall>p c. a \<le> p \<longrightarrow> child lo p c \<longrightarrow> c < hi \<longrightarrow> k_at s c \<le> k_at s p)"

text \<open>A heap but for the value at \<open>i\<close>, which may be too small.\<close>

definition heap_but :: "int \<Rightarrow> int \<Rightarrow> int \<Rightarrow> int \<Rightarrow> 's \<Rightarrow> bool" where
  "heap_but lo a hi i s \<longleftrightarrow> (\<forall>p c. a \<le> p \<longrightarrow> p \<noteq> i \<longrightarrow> child lo p c \<longrightarrow> c < hi \<longrightarrow> k_at s c \<le> k_at s p) \<and>
     (\<forall>p c. a \<le> p \<longrightarrow> child lo p i \<longrightarrow> child lo i c \<longrightarrow> c < hi \<longrightarrow> k_at s c \<le> k_at s p)"

definition target_ok :: "int \<Rightarrow> int \<Rightarrow> int \<Rightarrow> 's \<Rightarrow> int option \<Rightarrow> bool" where
  "target_ok lo hi i s t \<longleftrightarrow> (case t of
     None \<Rightarrow> \<forall>c. child lo i c \<longrightarrow> c < hi \<longrightarrow> k_at s c \<le> k_at s i
   | Some j \<Rightarrow> child lo i j \<and> j < hi \<and> k_at s i < k_at s j \<and> (\<forall>c. child lo i c \<longrightarrow> c < hi \<longrightarrow> k_at s c \<le> k_at s j))"

lemma sift_target_ok:
  assumes r: "range_ok lo hi s" and i: "lo \<le> i" and l: "left = 2 * (i - lo) + lo + 1" "left < hi"
  shows "returns (sift_target S hi i left s) (target_ok lo hi i s)"
proof -
  have c1: "sr_compare S i left s = Some (Inr (cmp (k_at s i) (k_at s left)))"
    using i l by (intro compare_at [OF r]) auto
  have c2: "sr_compare S left (left + 1) s = Some (Inr (cmp (k_at s left) (k_at s (left + 1))))"
    "sr_compare S i (left + 1) s = Some (Inr (cmp (k_at s i) (k_at s (left + 1))))" if "left + 1 < hi"
    using i l that by (auto intro!: compare_at [OF r])
  have ch: "child lo i c \<longleftrightarrow> c = left \<or> c = left + 1" for c using l by (auto simp: child_def)
  show ?thesis
    using l(2) by (cases "left + 1 < hi") (auto simp: sift_target_def Let_def c1 c2 target_ok_def ch)
qed

lemma heap_but_swap:
  assumes h: "heap_but lo a hi i s" and a: "0 \<le> lo" "lo \<le> a" "a \<le> i" and t: "target_ok lo hi i s (Some j)"
    and k: "\<forall>p\<ge>0. k_at s1 p = (if p = j then k_at s i else if p = i then k_at s j else k_at s p)"
  shows "heap_but lo a hi j s1"
proof -
  have j: "child lo i j" "k_at s i < k_at s j" "i < j" "\<And>c. child lo i c \<Longrightarrow> c < hi \<Longrightarrow> k_at s c \<le> k_at s j"
    using t a child_less [of lo i j] by (auto simp: target_ok_def)
  have h1: "k_at s c \<le> k_at s p" if "a \<le> p" "p \<noteq> i" "child lo p c" "c < hi" for p c
    using h that by (auto simp: heap_but_def)
  have h2: "k_at s c \<le> k_at s p" if "a \<le> p" "child lo p i" "child lo i c" "c < hi" for p c
    using h that by (auto simp: heap_but_def)
  have "k_at s1 c \<le> k_at s1 p" if pc: "a \<le> p" "p \<noteq> j" "child lo p c" "c < hi" for p c
  proof -
    have "p < c" using child_less [of lo p c] pc(1,3) a(2) by simp
    then have nn: "0 \<le> p" "0 \<le> c" using pc(1) a by auto
    consider "p = i" | "p \<noteq> i" "c = i" | "p \<noteq> i" "c \<noteq> i" by blast
    then show ?thesis
    proof cases
      case 1 then show ?thesis using k nn j pc(3,4) \<open>p < c\<close> by (auto simp: less_imp_le)
    next
      case 2 then show ?thesis using k nn j(1,3) h2 [of p j] pc t by (auto simp: target_ok_def)
    next
      case 3
      then have "c \<noteq> j" using child_parent [of lo p c i] pc(3) j(1) by auto
      then show ?thesis using 3 k nn h1 pc by simp
    qed
  qed
  moreover have "k_at s1 c \<le> k_at s1 p" if pc: "a \<le> p" "child lo p j" "child lo j c" "c < hi" for p c
  proof -
    have p: "p = i" using child_parent pc(2) j(1) by blast
    have "j < c" using child_less [of lo j c] pc(3) a j(3) by simp
    then show ?thesis using k a j(3) p h1 [of j c] pc(3,4) by simp
  qed
  ultimately show ?thesis by (simp add: heap_but_def)
qed

lemma heap_but_done: "heap_but lo a hi i s \<Longrightarrow> \<forall>c. child lo i c \<longrightarrow> c < hi \<longrightarrow> k_at s c \<le> k_at s i \<Longrightarrow> heap_above lo a hi s"
  unfolding heap_but_def heap_above_def by blast

lemma heap_child_eq: "0 \<le> lo \<Longrightarrow> lo \<le> i \<Longrightarrow> i < 2 ^ 30 \<Longrightarrow> heap_child lo i = Some (Inr (2 * (i - lo) + lo + 1))"
  using signed_take_bit_int_eq_self [of 31 "(i - lo) * 2"] by (simp add: heap_child_def algebra_simps)

lemma sift_loop_ok:
  assumes "range_ok lo hi s" "hi \<le> 2 ^ 30" "lo \<le> a" "a \<le> i" "i < hi" "left = 2 * (i - lo) + lo + 1" "heap_but lo a hi i s"
  shows "returns (sift_loop S lo hi i left s) (\<lambda>s'. rearranged lo hi s s' \<and> heap_above lo a hi s')"
  using assms
proof (induction "nat (hi - i)" arbitrary: i left s rule: less_induct)
  case less
  show ?case
  proof (cases "left < hi")
    case True
    show ?thesis
      unfolding sift_loop.simps [of S lo hi i left s] if_P [OF True]
    proof (rule returns_bind [OF sift_target_ok])
      fix t assume t: "target_ok lo hi i s t"
      show "returns (case t of None \<Rightarrow> Some (Inr s) | Some j \<Rightarrow> run_bind (sr_swap S i j s) (\<lambda>s1.
          run_bind (heap_child lo j) (\<lambda>left. sift_loop S lo hi j left s1))) (\<lambda>s'. rearranged lo hi s s' \<and> heap_above lo a hi s')"
      proof (cases t)
        case None
        then have "heap_above lo a hi s" using t less.prems(7) by (intro heap_but_done) (simp_all add: target_ok_def)
        then show ?thesis using None less.prems(1) by (simp add: rearranged_refl)
      next
        case (Some j)
        have j: "i < j" "j < hi" using t Some child_less [of lo i j] less.prems(3,4) by (auto simp: target_ok_def)
        have "returns (run_bind (sr_swap S i j s) (\<lambda>s1. run_bind (heap_child lo j) (\<lambda>left. sift_loop S lo hi j left s1)))
          (\<lambda>s'. rearranged lo hi s s' \<and> heap_above lo a hi s')"
        proof (rule returns_bind [OF swap_returns [OF less.prems(1)]])
          fix s1 assume s1: "rearranged lo hi s s1 \<and> pivot s1 = pivot s \<and>
            (\<forall>p\<ge>0. k_at s1 p = (if p = j then k_at s i else if p = i then k_at s j else k_at s p))"
          have "heap_but lo a hi j s1"
            using heap_but_swap [OF less.prems(7), of j s1] less.prems(1,3,4) t Some s1 by simp
          then have "returns (sift_loop S lo hi j (2 * (j - lo) + lo + 1) s1) (\<lambda>s'. rearranged lo hi s1 s' \<and> heap_above lo a hi s')"
            using less.prems j s1 rearranged_ok [of lo hi s s1 lo hi] by (intro less.hyps) auto
          then show "returns (run_bind (heap_child lo j) (\<lambda>left. sift_loop S lo hi j left s1)) (\<lambda>s'. rearranged lo hi s s' \<and> heap_above lo a hi s')"
            using heap_child_eq [of lo j] j less.prems(1-4) s1 by (auto elim!: returns_mono intro: rearranged_trans)
        qed (use j less.prems in auto)
        then show ?thesis using Some by simp
      qed
    qed (use less.prems True in auto)
  next
    case False
    then have "heap_above lo a hi s" using less.prems(6,7) by (intro heap_but_done) (auto simp: child_def)
    then show ?thesis using False less.prems(1) by (subst sift_loop.simps) (simp add: rearranged_refl)
  qed
qed

lemma heap_sift_down_ok:
  assumes "range_ok lo hi s" "hi \<le> 2 ^ 30" "lo \<le> a" "a \<le> i" "i < hi" "heap_but lo a hi i s"
  shows "returns (heap_sift_down S i lo hi s) (\<lambda>s'. rearranged lo hi s s' \<and> heap_above lo a hi s')"
  using assms sift_loop_ok [of s lo hi a i "2 * (i - lo) + lo + 1"] by (simp add: heap_sift_down_def heap_child_eq)

lemma heapify_loop_ok:
  assumes "range_ok lo hi s" "hi \<le> 2 ^ 30" "i < hi" "heap_above lo (i + 1) hi s" "lo - 1 \<le> i"
  shows "returns (heapify_loop S lo hi i s) (\<lambda>s'. rearranged lo hi s s' \<and> heap_above lo lo hi s')"
  using assms
proof (induction "nat (i + 1 - lo)" arbitrary: i s)
  case 0
  then have "i + 1 = lo" by simp
  then show ?case using 0 by (subst heapify_loop.simps) (simp add: rearranged_refl)
next
  case (Suc n)
  have i: "lo \<le> i" using Suc.hyps(2) by simp
  have "k_at s c \<le> k_at s p" if "i \<le> p" "p \<noteq> i" "child lo p c" "c < hi" for p c
    using Suc.prems(4) that by (auto simp: heap_above_def)
  moreover have "\<not> child lo p i" if "i \<le> p" for p using child_less [of lo p i] i that by auto
  ultimately have "heap_but lo i hi i s" by (auto simp: heap_but_def)
  then have "returns (heap_sift_down S i lo hi s) (\<lambda>s1. rearranged lo hi s s1 \<and> heap_above lo i hi s1)"
    using Suc.prems i by (intro heap_sift_down_ok) auto
  then show ?case
    unfolding heapify_loop.simps [of S lo hi i s] if_P [OF i]
  proof (rule returns_bind)
    fix s1 assume s1: "rearranged lo hi s s1 \<and> heap_above lo i hi s1"
    then have "returns (heapify_loop S lo hi (i - 1) s1) (\<lambda>s'. rearranged lo hi s1 s' \<and> heap_above lo lo hi s')"
      using Suc.hyps Suc.prems i rearranged_ok [of lo hi s s1 lo hi] by (intro Suc.hyps(1)) auto
    then show "returns (heapify_loop S lo hi (i - 1) s1) (\<lambda>s'. rearranged lo hi s s' \<and> heap_above lo lo hi s')"
      using s1 by (auto elim!: returns_mono intro: rearranged_trans)
  qed
qed

lemma heapify_ok:
  assumes "range_ok lo hi s" "hi \<le> 2 ^ 30" "lo + 1 < hi"
  shows "returns (heapify S lo hi s) (\<lambda>s'. rearranged lo hi s s' \<and> heap_above lo lo hi s')"
proof -
  define i where "i = (hi - 2 - lo) div 2 + lo"
  have i: "lo \<le> i" "i < hi" using assms by (auto simp: i_def)
  have "ushr1 (hi - 1 - 1 - lo) + lo = i" using assms by (simp add: ushr1_def i_def)
  moreover have "i32_checked i = Some (Inr i)" using assms i by simp
  ultimately have "heap_parent lo (hi - 1) = Some (Inr i)" by (simp add: heap_parent_def)
  moreover have "heap_above lo (i + 1) hi s" by (auto simp: heap_above_def child_def i_def)
  ultimately show ?thesis using heapify_loop_ok [of s lo hi i] assms i by (simp add: heapify_def)
qed

lemma heap_root_max:
  assumes h: "heap_above lo lo hi s" and c: "lo \<le> c" "c < hi"
  shows "k_at s c \<le> k_at s lo"
  using c
proof (induction "nat (c - lo)" arbitrary: c rule: less_induct)
  case less
  show ?case
  proof (cases "c = lo")
    case False
    define p where "p = (c - lo - 1) div 2 + lo"
    have p: "lo \<le> p" "p < c" "child lo p c" using False less.prems by (auto simp: p_def child_def)
    then have "k_at s c \<le> k_at s p" using h less.prems by (auto simp: heap_above_def)
    then show ?thesis using less.hyps [of p] p less.prems by simp
  qed simp
qed

text \<open>The state of the heap sort: a heap, and behind it the greater values in order.\<close>

definition heap_tail :: "int \<Rightarrow> int \<Rightarrow> int \<Rightarrow> 's \<Rightarrow> bool" where
  "heap_tail lo e hi s \<longleftrightarrow> sorted_in (e + 1) hi s \<and> (\<forall>i j. lo \<le> i \<longrightarrow> i \<le> e \<longrightarrow> e < j \<longrightarrow> j < hi \<longrightarrow> k_at s i \<le> k_at s j)"

lemma heap_tail_step:
  assumes r: "range_ok lo hi s" "lo < e" "e < hi" and t: "heap_tail lo e hi s" "heap_above lo lo (e + 1) s"
    and s1: "\<forall>p\<ge>0. k_at s1 p = (if p = e then k_at s lo else if p = lo then k_at s e else k_at s p)"
      "length (elems s1) = length (elems s)" "range_ok lo e s1"
    and s2: "rearranged lo e s1 s2"
  shows "heap_tail lo (e - 1) hi s2"
proof -
  have max: "k_at s i \<le> k_at s lo" if "lo \<le> i" "i \<le> e" for i using heap_root_max [OF t(2)] that by simp
  have tail: "k_at s i \<le> k_at s j" if "lo \<le> i" "i \<le> e" "e < j" "j < hi" for i j using t(1) that by (auto simp: heap_tail_def)
  have k2: "k_at s2 p = k_at s1 p" if "e \<le> p" "p < hi" for p using rearranged_outside [OF s2, of p] that r s1(2) by simp
  have up: "k_at s2 p = (if p = e then k_at s lo else k_at s p)" if "e \<le> p" "p < hi" for p using k2 s1(1) that r by simp
  have low: "k_at s2 i \<le> k_at s lo" if "lo \<le> i" "i < e" for i
  proof (rule rearranged_all [where P = "\<lambda>k. k \<le> k_at s lo", OF s2 s1(3) _ that])
    show "k_at s1 p \<le> k_at s lo" if "lo \<le> p" "p < e" for p using s1(1) r(1,2) max [of p] max [of e] that by simp
  qed
  have "k_at s2 i \<le> k_at s2 j" if "lo \<le> i" "i \<le> e - 1" "e - 1 < j" "j < hi" for i j
    using low [of i] up [of j] tail [of lo j] that r by (cases "j = e") (auto intro: order_trans)
  moreover have "k_at s2 i \<le> k_at s2 j" if "e \<le> i" "i \<le> j" "j < hi" for i j
    using up [of i] up [of j] tail [of lo j] t(1) that r by (cases "i = e"; cases "j = e") (auto simp: heap_tail_def sorted_in_def)
  ultimately show ?thesis by (simp add: heap_tail_def sorted_in_def)
qed

lemma heap_sort_loop_ok:
  assumes "range_ok lo hi s" "hi \<le> 2 ^ 30" "lo \<le> e" "e < hi" "heap_tail lo e hi s" "heap_above lo lo (e + 1) s"
  shows "returns (heap_sort_loop S lo e s) (\<lambda>s'. rearranged lo hi s s' \<and> sorted_in lo hi s')"
  using assms
proof (induction "nat (e - lo)" arbitrary: e s)
  case 0
  then have "e = lo" by simp
  have "k_at s i \<le> k_at s j" if "lo \<le> i" "i \<le> j" "j < hi" for i j
    using 0(6) that \<open>e = lo\<close> by (cases "i = lo"; cases "j = lo") (auto simp: heap_tail_def sorted_in_def)
  then show ?case using 0 \<open>e = lo\<close> by (subst heap_sort_loop.simps) (simp add: rearranged_refl sorted_in_def)
next
  case (Suc n)
  have e: "lo < e" using Suc.hyps(2) by simp
  show ?case
    unfolding heap_sort_loop.simps [of S lo e s] if_P [OF e]
  proof (rule returns_bind [OF swap_returns [OF Suc.prems(1)]])
    fix s1 assume s1: "rearranged lo hi s s1 \<and> pivot s1 = pivot s \<and>
      (\<forall>p\<ge>0. k_at s1 p = (if p = e then k_at s lo else if p = lo then k_at s e else k_at s p))"
    then have r1: "range_ok lo hi s1" "range_ok lo e s1" using rearranged_ok [of lo hi s s1 lo hi] Suc.prems(1,4) by auto
    have "k_at s1 c \<le> k_at s1 p" if "lo \<le> p" "p \<noteq> lo" "child lo p c" "c < e" for p c
      using s1 child_less [of lo p c] that Suc.prems(1,6) by (auto simp: heap_above_def)
    moreover have "\<not> child lo p lo" if "lo \<le> p" for p using child_less [of lo p lo] that by auto
    ultimately have "heap_but lo lo e lo s1" by (auto simp: heap_but_def)
    then have "returns (heap_sift_down S lo lo e s1) (\<lambda>s2. rearranged lo e s1 s2 \<and> heap_above lo lo e s2)"
      using r1 Suc.prems e by (intro heap_sift_down_ok) auto
    then show "returns (run_bind (heap_sift_down S lo lo e s1) (\<lambda>s2. heap_sort_loop S lo (e - 1) s2)) (\<lambda>s'. rearranged lo hi s s' \<and> sorted_in lo hi s')"
    proof (rule returns_bind)
      fix s2 assume s2: "rearranged lo e s1 s2 \<and> heap_above lo lo e s2"
      have m: "rearranged lo hi s1 s2" using s2 Suc.prems(4) by (auto intro: rearranged_mono)
      have "heap_tail lo (e - 1) hi s2"
        using heap_tail_step [OF Suc.prems(1) e Suc.prems(4-6), of s1 s2] s1 s2 r1 rearranged_length [of lo hi s s1] by simp
      then have "returns (heap_sort_loop S lo (e - 1) s2) (\<lambda>s'. rearranged lo hi s2 s' \<and> sorted_in lo hi s')"
        using Suc.hyps Suc.prems e s2 rearranged_ok [OF m, of lo hi] r1 by (intro Suc.hyps(1)) auto
      moreover have "rearranged lo hi s s2" using s1 m rearranged_trans by blast
      ultimately show "returns (heap_sort_loop S lo (e - 1) s2) (\<lambda>s'. rearranged lo hi s s' \<and> sorted_in lo hi s')"
        by (auto elim!: returns_mono intro: rearranged_trans)
    qed
  qed (use e Suc.prems in auto)
qed

lemma heap_sort_ok:
  assumes "range_ok lo hi s" "hi \<le> 2 ^ 30" "lo \<le> hi"
  shows "returns (heap_sort S lo hi s) (\<lambda>s'. rearranged lo hi s s' \<and> sorted_in lo hi s')"
proof (cases "hi - lo \<le> 1")
  case True
  then show ?thesis using assms(1) by (simp add: heap_sort_def rearranged_refl sorted_in_short)
next
  case False
  then have "returns (run_bind (heapify S lo hi s) (\<lambda>s1. heap_sort_loop S lo (hi - 1) s1)) (\<lambda>s'. rearranged lo hi s s' \<and> sorted_in lo hi s')"
  proof (intro returns_bind [OF heapify_ok [OF assms(1,2)]])
    fix s1 assume s1: "rearranged lo hi s s1 \<and> heap_above lo lo hi s1"
    then have "returns (heap_sort_loop S lo (hi - 1) s1) (\<lambda>s'. rearranged lo hi s1 s' \<and> sorted_in lo hi s')"
      using assms False rearranged_ok [of lo hi s s1 lo hi] by (intro heap_sort_loop_ok) (auto simp: heap_tail_def sorted_in_def)
    then show "returns (heap_sort_loop S lo (hi - 1) s1) (\<lambda>s'. rearranged lo hi s s' \<and> sorted_in lo hi s')"
      using s1 by (auto elim!: returns_mono intro: rearranged_trans)
  qed simp
  then show ?thesis using False by (simp add: heap_sort_def)
qed

end

section \<open>Quick sort sorts\<close>

context comparison_sorter
begin

lemma swap_if_greater_ok:
  assumes r: "range_ok lo hi s" "lo \<le> i" "i < hi" "lo \<le> j" "j < hi"
  shows "returns (swap_if_greater S i j s) (\<lambda>(b, s'). rearranged lo hi s s' \<and> b = (k_at s j < k_at s i) \<and>
    (\<forall>p\<ge>0. k_at s' p = (if b then if p = j then k_at s i else if p = i then k_at s j else k_at s p else k_at s p)))"
proof (cases "k_at s j < k_at s i")
  case True
  have "returns (run_bind (sr_swap S i j s) (\<lambda>s1. Some (Inr (True, s1)))) (\<lambda>(b, s'). rearranged lo hi s s' \<and> b = (k_at s j < k_at s i) \<and>
    (\<forall>p\<ge>0. k_at s' p = (if b then if p = j then k_at s i else if p = i then k_at s j else k_at s p else k_at s p)))"
    by (rule returns_bind [OF swap_returns [OF r]]) (use True in simp)
  then show ?thesis using True compare_at [OF r] by (simp add: swap_if_greater_def)
next
  case False
  then show ?thesis using compare_at [OF r] r(1) by (simp add: swap_if_greater_def rearranged_refl)
qed

lemma median_of_three_ok:
  assumes r: "range_ok lo hi s" and m: "lo < m" "m < hi - 1"
  shows "returns (median_of_three S lo m hi s) (\<lambda>s'. rearranged lo hi s s' \<and> k_at s' lo \<le> k_at s' m \<and> k_at s' m \<le> k_at s' (hi - 1))"
  unfolding median_of_three_def
proof (rule returns_bind [OF swap_if_greater_ok [OF r]], goal_cases)
  case (5 x)
  obtain b s1 where x: "x = (b, s1)" by (cases x)
  have s1: "rearranged lo hi s s1" "k_at s1 lo \<le> k_at s1 m"
    using 5 x m r by (auto simp: less_imp_le)
  have r1: "range_ok lo hi s1" using rearranged_ok [OF s1(1) r] .
  have "returns (run_bind (swap_if_greater S m (hi - 1) s1) (\<lambda>(swapped, s2).
       if swapped then run_bind (swap_if_greater S lo m s2) (\<lambda>(_, s3). Some (Inr s3)) else Some (Inr s2)))
     (\<lambda>s'. rearranged lo hi s s' \<and> k_at s' lo \<le> k_at s' m \<and> k_at s' m \<le> k_at s' (hi - 1))"
  proof (rule returns_bind [OF swap_if_greater_ok [OF r1]], goal_cases)
    case (5 y)
    obtain c s2 where y: "y = (c, s2)" by (cases y)
    have s2: "rearranged lo hi s s2" using 5 y s1(1) rearranged_trans by auto
    have r2: "range_ok lo hi s2" using rearranged_ok [OF s2 r] .
    show ?case
    proof (cases c)
      case True
      then have k2: "k_at s2 m \<le> k_at s2 (hi - 1)" "k_at s2 lo \<le> k_at s2 (hi - 1)" using 5 y m r s1(2) by auto
      have "returns (run_bind (swap_if_greater S lo m s2) (\<lambda>(_, s3). Some (Inr s3)))
        (\<lambda>s'. rearranged lo hi s s' \<and> k_at s' lo \<le> k_at s' m \<and> k_at s' m \<le> k_at s' (hi - 1))"
      proof (rule returns_bind [OF swap_if_greater_ok [OF r2]], goal_cases)
        case (5 z)
        obtain d s3 where z: "z = (d, s3)" by (cases z)
        have "rearranged lo hi s s3" using 5 z s2 rearranged_trans by auto
        moreover have "k_at s3 lo \<le> k_at s3 m \<and> k_at s3 m \<le> k_at s3 (hi - 1)" using 5 z m r k2 by (auto simp: less_imp_le)
        ultimately show ?case using z by simp
      qed (use m in auto)
      then show ?thesis using y True by simp
    next
      case False
      then show ?thesis using 5 y m r s1(2) s2 by auto
    qed
  qed (use m in auto)
  then show ?case using x by simp
qed (use m in auto)

lemma skip_right_ok:
  assumes "range_ok lo hi s" "lo \<le> p" "p \<le> right" "right < hi" "k_at s p \<le> pivot s"
  shows "returns (skip_right S right s) (\<lambda>r. p \<le> r \<and> r \<le> right \<and> k_at s r \<le> pivot s \<and> (\<forall>i. r < i \<longrightarrow> i \<le> right \<longrightarrow> pivot s < k_at s i))"
  using assms
proof (induction "nat (right - p)" arbitrary: right)
  case 0
  then have "right = p" by simp
  then show ?case using 0 compare_pivot_at [OF 0(2), of right] by (subst skip_right.simps) (simp add: leD)
next
  case (Suc n)
  have cmp: "sr_compare_pivot S right s = Some (Inr (cmp (pivot s) (k_at s right)))"
    using Suc.prems by (intro compare_pivot_at) auto
  show ?case
  proof (cases "pivot s < k_at s right")
    case True
    have "returns (skip_right S (right - 1) s) (\<lambda>r. p \<le> r \<and> r \<le> right - 1 \<and> k_at s r \<le> pivot s \<and> (\<forall>i. r < i \<longrightarrow> i \<le> right - 1 \<longrightarrow> pivot s < k_at s i))"
      using Suc.hyps Suc.prems by (intro Suc.hyps(1)) auto
    then have "returns (skip_right S (right - 1) s) (\<lambda>r. p \<le> r \<and> r \<le> right \<and> k_at s r \<le> pivot s \<and> (\<forall>i. r < i \<longrightarrow> i \<le> right \<longrightarrow> pivot s < k_at s i))"
    proof (rule returns_mono, intro conjI allI impI)
      fix r i assume r: "p \<le> r \<and> r \<le> right - 1 \<and> k_at s r \<le> pivot s \<and> (\<forall>i. r < i \<longrightarrow> i \<le> right - 1 \<longrightarrow> pivot s < k_at s i)"
        and i: "r < i" "i \<le> right"
      then show "pivot s < k_at s i" using True by (cases "i = right") auto
    qed auto
    then show ?thesis using True cmp by (subst skip_right.simps) simp
  next
    case False
    then show ?thesis using cmp Suc.prems by (subst skip_right.simps) simp
  qed
qed

lemma skip_left_ok:
  assumes "range_ok lo hi s" "lo \<le> left" "left \<le> r" "r < hi"
  shows "returns (skip_left S left r s) (\<lambda>l. left \<le> l \<and> l \<le> r \<and> (\<forall>i. left \<le> i \<longrightarrow> i < l \<longrightarrow> k_at s i \<le> pivot s) \<and> (l < r \<longrightarrow> pivot s < k_at s l))"
  using assms
proof (induction "nat (r - left)" arbitrary: left)
  case 0
  then show ?case by (subst skip_left.simps) simp
next
  case (Suc n)
  have cmp: "sr_compare_pivot S left s = Some (Inr (cmp (pivot s) (k_at s left)))"
    using Suc.prems by (intro compare_pivot_at) auto
  have lt: "left < r" using Suc.hyps(2) by simp
  show ?case
  proof (cases "pivot s < k_at s left")
    case True
    then show ?thesis using cmp lt by (subst skip_left.simps) simp
  next
    case False
    have "returns (skip_left S (left + 1) r s) (\<lambda>l. left + 1 \<le> l \<and> l \<le> r \<and> (\<forall>i. left + 1 \<le> i \<longrightarrow> i < l \<longrightarrow> k_at s i \<le> pivot s) \<and> (l < r \<longrightarrow> pivot s < k_at s l))"
      using Suc.hyps Suc.prems by (intro Suc.hyps(1)) auto
    then have "returns (skip_left S (left + 1) r s) (\<lambda>l. left \<le> l \<and> l \<le> r \<and> (\<forall>i. left \<le> i \<longrightarrow> i < l \<longrightarrow> k_at s i \<le> pivot s) \<and> (l < r \<longrightarrow> pivot s < k_at s l))"
    proof (rule returns_mono, intro conjI allI impI)
      fix l i assume l: "left + 1 \<le> l \<and> l \<le> r \<and> (\<forall>i. left + 1 \<le> i \<longrightarrow> i < l \<longrightarrow> k_at s i \<le> pivot s) \<and> (l < r \<longrightarrow> pivot s < k_at s l)"
        and i: "left \<le> i" "i < l"
      then show "k_at s i \<le> pivot s" using False by (cases "i = left") auto
    qed auto
    then show ?thesis using False cmp lt by (subst skip_left.simps) simp
  qed
qed

text \<open>What the partition has settled: no key up to \<open>left\<close> is above the pivot value and none from \<open>right\<close> on is below it.\<close>

definition split_at :: "int \<Rightarrow> int \<Rightarrow> int \<Rightarrow> int \<Rightarrow> 'k \<Rightarrow> 's \<Rightarrow> bool" where
  "split_at lo left right hi v s \<longleftrightarrow> (\<forall>i. lo \<le> i \<longrightarrow> i < left \<longrightarrow> k_at s i \<le> v) \<and> (\<forall>i. right < i \<longrightarrow> i < hi \<longrightarrow> v \<le> k_at s i)"

lemma partition_loop_ok:
  assumes "range_ok lo hi s" "lo \<le> left" "left \<le> p" "p \<le> right" "right < hi" "k_at s p \<le> pivot s" "split_at lo left right hi (pivot s) s"
  shows "returns (partition_loop S left right s) (\<lambda>(l, s'). rearranged lo hi s s' \<and> lo \<le> l \<and> l < hi \<and> split_at lo (l + 1) l hi (pivot s) s')"
  using assms
proof (induction "nat (right - left)" arbitrary: left right p s rule: less_induct)
  case less
  note r = less.prems(1)
  have "returns (skip_right S right s) (\<lambda>r. p \<le> r \<and> r \<le> right \<and> k_at s r \<le> pivot s \<and> (\<forall>i. r < i \<longrightarrow> i \<le> right \<longrightarrow> pivot s < k_at s i))"
    using less.prems by (intro skip_right_ok) auto
  then show ?case
    unfolding partition_loop.simps [of S left right s]
  proof (rule returns_bind)
    fix r' assume r': "p \<le> r' \<and> r' \<le> right \<and> k_at s r' \<le> pivot s \<and> (\<forall>i. r' < i \<longrightarrow> i \<le> right \<longrightarrow> pivot s < k_at s i)"
    have up: "pivot s \<le> k_at s i" if "r' < i" "i < hi" for i
      using r' less.prems(7) that by (cases "i \<le> right") (auto simp: split_at_def less_imp_le)
    have "returns (skip_left S left r' s) (\<lambda>l. left \<le> l \<and> l \<le> r' \<and> (\<forall>i. left \<le> i \<longrightarrow> i < l \<longrightarrow> k_at s i \<le> pivot s) \<and> (l < r' \<longrightarrow> pivot s < k_at s l))"
      using less.prems r' by (intro skip_left_ok [OF r]) auto
    then show "returns (run_bind (skip_left S left r' s) (\<lambda>l. if l < r' then run_bind (sr_swap S l r' s) (\<lambda>s1. partition_loop S l (r' - 1) s1) else Some (Inr (l, s))))
      (\<lambda>(l, s'). rearranged lo hi s s' \<and> lo \<le> l \<and> l < hi \<and> split_at lo (l + 1) l hi (pivot s) s')"
    proof (rule returns_bind)
      fix l assume l: "left \<le> l \<and> l \<le> r' \<and> (\<forall>i. left \<le> i \<longrightarrow> i < l \<longrightarrow> k_at s i \<le> pivot s) \<and> (l < r' \<longrightarrow> pivot s < k_at s l)"
      have down: "k_at s i \<le> pivot s" if "lo \<le> i" "i < l" for i
        using l less.prems(7) that by (cases "i < left") (auto simp: split_at_def)
      show "returns (if l < r' then run_bind (sr_swap S l r' s) (\<lambda>s1. partition_loop S l (r' - 1) s1) else Some (Inr (l, s)))
        (\<lambda>(l, s'). rearranged lo hi s s' \<and> lo \<le> l \<and> l < hi \<and> split_at lo (l + 1) l hi (pivot s) s')"
      proof (cases "l < r'")
        case True
        have "returns (run_bind (sr_swap S l r' s) (\<lambda>s1. partition_loop S l (r' - 1) s1))
          (\<lambda>(l, s'). rearranged lo hi s s' \<and> lo \<le> l \<and> l < hi \<and> split_at lo (l + 1) l hi (pivot s) s')"
        proof (rule returns_bind [OF swap_returns [OF r]])
          fix s1 assume s1: "rearranged lo hi s s1 \<and> pivot s1 = pivot s \<and>
            (\<forall>q\<ge>0. k_at s1 q = (if q = r' then k_at s l else if q = l then k_at s r' else k_at s q))"
          have "split_at lo l (r' - 1) hi (pivot s1) s1"
            using s1 up down l r True less.prems(2) by (auto simp: split_at_def less_imp_le)
          moreover have "k_at s1 l \<le> pivot s1" using s1 r' True l r less.prems(2) by auto
          ultimately have "returns (partition_loop S l (r' - 1) s1) (\<lambda>(l, s'). rearranged lo hi s1 s' \<and> lo \<le> l \<and> l < hi \<and> split_at lo (l + 1) l hi (pivot s1) s')"
            using less.prems True l r' s1 rearranged_ok [of lo hi s s1 lo hi] by (intro less.hyps [where p = l]) auto
          then show "returns (partition_loop S l (r' - 1) s1) (\<lambda>(l, s'). rearranged lo hi s s' \<and> lo \<le> l \<and> l < hi \<and> split_at lo (l + 1) l hi (pivot s) s')"
            by (rule returns_mono) (use s1 in \<open>auto intro: rearranged_trans\<close>)
        qed (use l r' True less.prems in auto)
        then show ?thesis using True by simp
      next
        case False
        then have "l = r'" using l by simp
        then have "split_at lo (l + 1) l hi (pivot s) s"
          using up down r' unfolding split_at_def by (metis zle_add1_eq_le order_le_less)
        then show ?thesis using False r l r' less.prems(2,5) by (auto simp: rearranged_refl)
      qed
    qed
  qed
qed

lemma sorted_halves:
  assumes r: "range_ok lo hi s" "lo \<le> l" "l < hi" and sp: "split_at lo (l + 1) l hi v s"
    and s1: "rearranged lo (l + 1) s s1" "sorted_in lo (l + 1) s1" and s2: "rearranged (l + 1) hi s1 s2" "sorted_in (l + 1) hi s2"
  shows "rearranged lo hi s s2" and "sorted_in lo hi s2"
proof -
  show "rearranged lo hi s s2"
    using rearranged_mono [OF s1(1), of lo hi] rearranged_mono [OF s2(1), of lo hi] rearranged_trans r by auto
  have r1: "range_ok (l + 1) hi s1" using rearranged_ok [OF s1(1), of "l + 1" hi] r by simp
  have len: "length (elems s1) = length (elems s)" by (rule rearranged_length [OF s1(1)])
  have k2: "k_at s2 i = k_at s1 i" if "lo \<le> i" "i \<le> l" for i using rearranged_outside [OF s2(1), of i] that r len by simp
  have low: "k_at s1 i \<le> v" if "lo \<le> i" "i < l + 1" for i
    by (rule rearranged_all [where P = "\<lambda>k. k \<le> v", OF s1(1) _ _ that]) (use r sp in \<open>auto simp: split_at_def\<close>)
  have k1: "k_at s1 i = k_at s i" if "l < i" "i < hi" for i using rearranged_outside [OF s1(1), of i] that r by simp
  have high: "v \<le> k_at s2 i" if "l + 1 \<le> i" "i < hi" for i
    by (rule rearranged_all [where P = "\<lambda>k. v \<le> k", OF s2(1) r1 _ that]) (use k1 sp in \<open>auto simp: split_at_def\<close>)
  show "sorted_in lo hi s2"
    unfolding sorted_in_def
  proof (intro allI impI)
    fix i j assume ij: "lo \<le> i" "i \<le> j" "j < hi"
    consider "j \<le> l" | "i \<le> l" "l < j" | "l < i" by linarith
    then show "k_at s2 i \<le> k_at s2 j"
    proof cases
      case 1 then show ?thesis using ij k2 s1(2) by (simp add: sorted_in_def)
    next
      case 2 then show ?thesis using ij k2 [of i] low [of i] high [of j] by simp
    next
      case 3 then show ?thesis using ij s2(2) by (simp add: sorted_in_def)
    qed
  qed
qed

lemma partition_ok:
  assumes r: "range_ok lo hi s" and m: "lo < m" "m < hi - 1" and k: "k_at s lo \<le> k_at s m" "k_at s m \<le> k_at s (hi - 1)"
  shows "returns (run_bind (sr_set_pivot S m s) (partition_loop S (lo + 1) (hi - 2)))
    (\<lambda>(l, s'). rearranged lo hi s s' \<and> lo \<le> l \<and> l < hi \<and> split_at lo (l + 1) l hi (k_at s m) s')"
proof (rule returns_bind [OF set_pivot_ok])
  fix s1 assume s1: "invar s1 \<and> elems s1 = elems s \<and> pivot s1 = key (el (elems s) m)"
  then have k1: "k_at s1 = k_at s" "pivot s1 = k_at s m" by (auto simp: k_at_def fun_eq_iff)
  have "i = lo" if "lo \<le> i" "i < lo + 1" for i using that by simp
  moreover have "i = hi - 1" if "hi - 2 < i" "i < hi" for i using that by simp
  ultimately have "split_at lo (lo + 1) (hi - 2) hi (pivot s1) s1" using k k1 unfolding split_at_def by metis
  then have "returns (partition_loop S (lo + 1) (hi - 2) s1) (\<lambda>(l, s'). rearranged lo hi s1 s' \<and> lo \<le> l \<and> l < hi \<and> split_at lo (l + 1) l hi (pivot s1) s')"
    using s1 k1 r m by (intro partition_loop_ok [where p = m]) auto
  then show "returns (partition_loop S (lo + 1) (hi - 2) s1) (\<lambda>(l, s'). rearranged lo hi s s' \<and> lo \<le> l \<and> l < hi \<and> split_at lo (l + 1) l hi (k_at s m) s')"
    by (rule returns_mono) (use s1 k1 in \<open>auto simp: rearranged_def\<close>)
qed (use r m in auto)

lemma quick_sort_ok:
  assumes "range_ok lo hi s" "lo \<le> hi" "hi \<le> 2 ^ 30" "0 \<le> depth" "depth \<le> 2147483647"
  shows "returns (quick_sort S lo hi depth s) (\<lambda>s'. rearranged lo hi s s' \<and> sorted_in lo hi s')"
  using assms
proof (induction "nat depth" arbitrary: depth lo hi s rule: less_induct)
  case less
  note r = less.prems(1)
  have d: "i32_checked (depth - 1) = Some (Inr (depth - 1))" using less.prems by simp
  consider "hi - lo < 20" | "20 \<le> hi - lo" "depth - 1 < 0" | "20 \<le> hi - lo" "0 \<le> depth - 1" by linarith
  then show ?case
  proof cases
    case 1
    then show ?thesis using binary_sort_ok [OF r less.prems(2,3)] d by (subst quick_sort.simps) (simp add: BINARY_SORT_THRESHOLD_def)
  next
    case 2
    then show ?thesis using heap_sort_ok [OF r less.prems(3,2)] d by (subst quick_sort.simps) (simp add: BINARY_SORT_THRESHOLD_def)
  next
    case 3
    define m where "m = ushr1 (lo + hi)"
    have m: "lo < m" "m < hi - 1" using 3(1) r by (auto simp: m_def ushr1_def)
    have sum: "i32_checked (lo + hi) = Some (Inr (lo + hi))" using r less.prems 3(1) by simp
    have rec: "returns (quick_sort S a b (depth - 1) s') (\<lambda>s''. rearranged a b s' s'' \<and> sorted_in a b s'')"
      if "range_ok a b s'" "a \<le> b" "b \<le> hi" for a b s'
      using that less.prems 3(2) by (intro less.hyps) auto
    have "returns (run_bind (median_of_three S lo m hi s) (\<lambda>s1. run_bind (run_bind (sr_set_pivot S m s1) (partition_loop S (lo + 1) (hi - 2)))
        (\<lambda>p. run_bind (quick_sort S lo (fst p + 1) (depth - 1) (snd p)) (quick_sort S (fst p + 1) hi (depth - 1)))))
      (\<lambda>s'. rearranged lo hi s s' \<and> sorted_in lo hi s')"
    proof (rule returns_bind [OF median_of_three_ok [OF r m]])
      fix s1 assume s1: "rearranged lo hi s s1 \<and> k_at s1 lo \<le> k_at s1 m \<and> k_at s1 m \<le> k_at s1 (hi - 1)"
      have r1: "range_ok lo hi s1" using s1 rearranged_ok [of lo hi s s1 lo hi] r by blast
      show "returns (run_bind (run_bind (sr_set_pivot S m s1) (partition_loop S (lo + 1) (hi - 2)))
          (\<lambda>p. run_bind (quick_sort S lo (fst p + 1) (depth - 1) (snd p)) (quick_sort S (fst p + 1) hi (depth - 1))))
        (\<lambda>s'. rearranged lo hi s s' \<and> sorted_in lo hi s')"
      proof (rule returns_bind [OF partition_ok [OF r1 m]], goal_cases)
        case (3 p)
        obtain l s2 where p: "p = (l, s2)" by (cases p)
        have s2: "rearranged lo hi s1 s2" "lo \<le> l" "l < hi" "split_at lo (l + 1) l hi (k_at s1 m) s2" using 3 p by auto
        have r2: "range_ok lo hi s2" by (rule rearranged_ok [OF s2(1) r1])
        have "returns (quick_sort S lo (l + 1) (depth - 1) s2) (\<lambda>s3. rearranged lo (l + 1) s2 s3 \<and> sorted_in lo (l + 1) s3)"
          using r2 s2(2,3) by (intro rec) auto
        then show ?case
          unfolding p fst_conv snd_conv
        proof (rule returns_bind)
          fix s3 assume s3: "rearranged lo (l + 1) s2 s3 \<and> sorted_in lo (l + 1) s3"
          have "returns (quick_sort S (l + 1) hi (depth - 1) s3) (\<lambda>s4. rearranged (l + 1) hi s3 s4 \<and> sorted_in (l + 1) hi s4)"
            using rearranged_ok [of lo "l + 1" s2 s3 "l + 1" hi] s3 r2 s2(2,3) by (intro rec) auto
          then show "returns (quick_sort S (l + 1) hi (depth - 1) s3) (\<lambda>s'. rearranged lo hi s s' \<and> sorted_in lo hi s')"
          proof (rule returns_mono)
            fix s4 assume s4: "rearranged (l + 1) hi s3 s4 \<and> sorted_in (l + 1) hi s4"
            note h = sorted_halves [OF r2 s2(2-4) conjunct1 [OF s3] conjunct2 [OF s3] conjunct1 [OF s4] conjunct2 [OF s4]]
            show "rearranged lo hi s s4 \<and> sorted_in lo hi s4" using s1 s2(1) h rearranged_trans by blast
          qed
        qed
      qed (use s1 in auto)
    qed
    then show ?thesis using 3 d sum by (subst quick_sort.simps) (simp add: BINARY_SORT_THRESHOLD_def run_bind_assoc m_def)
  qed
qed

end

end
