(* ===== verification/Msb_Sorter.thy ===== *)
theory Msb_Sorter
  imports Sorter Bit_Util
begin

text \<open>
  Sorting byte strings by their most significant bytes: \<open>MSBRadixSorter\<close> of \<^verbatim>\<open>util/sorter.rs\<close>, which
  distributes the strings of a range over 257 buckets in place and sorts small buckets with the
  fallback sorter, and its use by the hash of terms of \<^verbatim>\<open>util/bytes_ref_hash.rs\<close>, whose strings are
  stored with their length in the blocks of \<^verbatim>\<open>util/byte_block_pool.rs\<close>. The fallback sorter holds a
  raw pointer to the sorter it comes from: here it holds its state and gives it back at the end.
  Of the hash the record keeps what sorting reads and writes; the fields \<open>hash_half_size\<close> and
  \<open>hash_mask\<close>, which only insertion uses, are left out.

  The trait \<open>MSBSorter\<close> is the record \<open>msb_ops\<close>; the locale \<open>string_sorter\<close> states what an implementor
  promises.
\<close>

unbundle bit_operations_syntax

section \<open>MSBRadixSorter\<close>

record 't msb_ops =
  mo_byte_at :: "int \<Rightarrow> int \<Rightarrow> 't \<Rightarrow> u8 option run"
  mo_swap :: "int \<Rightarrow> int \<Rightarrow> 't \<Rightarrow> 't run"
  mo_fallback_sort :: "int \<Rightarrow> int \<Rightarrow> int \<Rightarrow> 't \<Rightarrow> 't run"

record 't msb_radix_sorter =
  ms_histograms :: "int list list"
  ms_end_offsets :: "int list"
  ms_common_prefix :: "int list"
  ms_max_length :: int
  ms_sorter :: 't

definition LEVEL_THRESHOLD :: int where
  "LEVEL_THRESHOLD = 8"

definition MSB_HISTOGRAM_SIZE :: int where
  "MSB_HISTOGRAM_SIZE = 257"

definition LENGTH_THRESHOLD :: int where
  "LENGTH_THRESHOLD = 100"

definition msb_new :: "int \<Rightarrow> 't \<Rightarrow> 't msb_radix_sorter" where
  "msb_new max_length sorter =
     \<lparr>ms_histograms = replicate (nat LEVEL_THRESHOLD) (replicate (nat MSB_HISTOGRAM_SIZE) 0),
      ms_end_offsets = replicate (nat MSB_HISTOGRAM_SIZE) 0,
      ms_common_prefix = replicate (nat (min max_length 24)) 0,
      ms_max_length = max_length, ms_sorter = sorter\<rparr>"

text \<open>Reading and writing a vector by index.\<close>

definition vec_get :: "'a list \<Rightarrow> int \<Rightarrow> 'a run" where
  "vec_get xs i = Some (if 0 \<le> i \<and> i < int (length xs) then Inr (xs ! nat i) else Inl (Panic ''index out of bounds''))"

definition vec_set :: "'a list \<Rightarrow> int \<Rightarrow> 'a \<Rightarrow> 'a list run" where
  "vec_set xs i x = Some (if 0 \<le> i \<and> i < int (length xs) then Inr (xs[nat i := x]) else Inl (Panic ''index out of bounds''))"

definition hist_get :: "int \<Rightarrow> int \<Rightarrow> 't msb_radix_sorter \<Rightarrow> int run" where
  "hist_get l i m = run_bind (vec_get (ms_histograms m) l) (\<lambda>h. vec_get h i)"

definition hist_set :: "int \<Rightarrow> int \<Rightarrow> int \<Rightarrow> 't msb_radix_sorter \<Rightarrow> 't msb_radix_sorter run" where
  "hist_set l i v m =
     run_bind (vec_get (ms_histograms m) l) (\<lambda>h.
     run_bind (vec_set h i v) (\<lambda>h1.
     run_bind (vec_set (ms_histograms m) l h1) (\<lambda>hs. Some (Inr (m\<lparr>ms_histograms := hs\<rparr>)))))"

text \<open>\<open>for i in start..end\<close>, given the number of rounds.\<close>

fun for_range :: "nat \<Rightarrow> int \<Rightarrow> (int \<Rightarrow> 's \<Rightarrow> 's run) \<Rightarrow> 's \<Rightarrow> 's run" where
  "for_range 0 i f s = Some (Inr s)"
| "for_range (Suc n) i f s = run_bind (f i s) (\<lambda>s1. for_range n (i + 1) f s1)"

lemma for_range_mono [partial_function_mono]:
  assumes "\<And>j s. mono_option (B j s)"
  shows "mono_option (\<lambda>f. for_range n i (\<lambda>j s. B j s f) s)"
proof (induction n arbitrary: i s)
  case 0
  then show ?case by (simp add: monotone_def flat_ord_def)
next
  case (Suc n)
  then show ?case using assms by (simp add: run_bind_mono)
qed

definition byte_code :: "u8 option \<Rightarrow> int" where
  "byte_code b = (case b of Some v \<Rightarrow> uint v | None \<Rightarrow> - 1)"

definition get_bucket :: "('t, 'e) msb_ops_scheme \<Rightarrow> int \<Rightarrow> int \<Rightarrow> 't msb_radix_sorter \<Rightarrow> int run" where
  "get_bucket M i k m =
     run_bind (mo_byte_at M i k (ms_sorter m)) (\<lambda>byte. Some (Inr (case byte of Some b \<Rightarrow> uint b + 1 | None \<Rightarrow> - 1 + 1)))"

partial_function (option) prefix_loop ::
  "('t, 'e) msb_ops_scheme \<Rightarrow> int \<Rightarrow> int \<Rightarrow> int \<Rightarrow> int \<Rightarrow> 't msb_radix_sorter \<Rightarrow> (int \<times> 't msb_radix_sorter) run" where
  "prefix_loop M from k len j m =
     (if j < len
      then run_bind (mo_byte_at M from (k + j) (ms_sorter m)) (\<lambda>b.
           run_bind (vec_set (ms_common_prefix m) j (byte_code b)) (\<lambda>p.
             if b = None then Some (Inr (j + 1, m\<lparr>ms_common_prefix := p\<rparr>))
             else prefix_loop M from k len (j + 1) (m\<lparr>ms_common_prefix := p\<rparr>)))
      else Some (Inr (len, m)))"

partial_function (option) mismatch_loop ::
  "('t, 'e) msb_ops_scheme \<Rightarrow> int \<Rightarrow> int \<Rightarrow> int \<Rightarrow> int \<Rightarrow> 't msb_radix_sorter \<Rightarrow> (int \<times> int) option run" where
  "mismatch_loop M index k len j m =
     (if j < len
      then run_bind (mo_byte_at M index (k + j) (ms_sorter m)) (\<lambda>b.
           run_bind (vec_get (ms_common_prefix m) j) (\<lambda>p.
             if byte_code b \<noteq> p then Some (Inr (Some (j, byte_code b))) else mismatch_loop M index k len (j + 1) m))
      else Some (Inr None))"

partial_function (option) index_loop ::
  "('t, 'e) msb_ops_scheme \<Rightarrow> int \<Rightarrow> int \<Rightarrow> int \<Rightarrow> int \<Rightarrow> int \<Rightarrow> int \<Rightarrow> 't msb_radix_sorter \<Rightarrow>
   (int \<times> int \<times> 't msb_radix_sorter) run" where
  "index_loop M from to k l index len m =
     (if index < to
      then run_bind (mismatch_loop M index k len 0 m) (\<lambda>r.
             case r of
               None \<Rightarrow> index_loop M from to k l (index + 1) len m
             | Some (j, b) \<Rightarrow>
                 if j = 0
                 then run_bind (vec_get (ms_common_prefix m) 0) (\<lambda>p.
                      run_bind (hist_set l (p + 1) (index - from) m) (\<lambda>m1.
                      run_bind (hist_set l (b + 1) 1 m1) (\<lambda>m2. Some (Inr (index, 0, m2)))))
                 else index_loop M from to k l (index + 1) j m)
      else Some (Inr (index, len, m)))"

definition build_histogram ::
  "('t, 'e) msb_ops_scheme \<Rightarrow> int \<Rightarrow> int \<Rightarrow> int \<Rightarrow> int \<Rightarrow> 't msb_radix_sorter \<Rightarrow> 't msb_radix_sorter run" where
  "build_histogram M from to k l m =
     for_range (nat (to - from)) from (\<lambda>i m.
       run_bind (get_bucket M i k m) (\<lambda>bucket.
       run_bind (hist_get l bucket m) (\<lambda>c. hist_set l bucket (c + 1) m))) m"

definition compute_common_prefix_length_and_build_histogram ::
  "('t, 'e) msb_ops_scheme \<Rightarrow> int \<Rightarrow> int \<Rightarrow> int \<Rightarrow> int \<Rightarrow> 't msb_radix_sorter \<Rightarrow> (int \<times> 't msb_radix_sorter) run" where
  "compute_common_prefix_length_and_build_histogram M from to k l m =
     run_bind (prefix_loop M from k (min (int (length (ms_common_prefix m))) (ms_max_length m - k)) 0 m) (\<lambda>(len, m1).
     run_bind (index_loop M from to k l (from + 1) len m1) (\<lambda>(index, len1, m2).
       if index < to
       then if len1 \<noteq> 0 then Some (Inl (Panic ''common_prefix_length == 0''))
            else run_bind (build_histogram M (index + 1) to k l m2) (\<lambda>m3. Some (Inr (len1, m3)))
       else if \<not> 0 < len1 then Some (Inl (Panic ''common_prefix_length > 0''))
       else run_bind (vec_get (ms_common_prefix m2) 0) (\<lambda>p.
            run_bind (hist_set l (p + 1) (to - from) m2) (\<lambda>m3. Some (Inr (len1, m3))))))"

definition assert_histogram :: "int \<Rightarrow> int \<Rightarrow> 't msb_radix_sorter \<Rightarrow> unit run" where
  "assert_histogram len l m =
     run_bind (vec_get (ms_histograms m) l) (\<lambda>h.
       if length (filter (\<lambda>freq. 0 < freq) h) = 1
       then if 1 \<le> len then Some (Inr ()) else Some (Inl (Panic ''common_prefix_length >= 1''))
       else if len = 0 then Some (Inr ()) else Some (Inl (Panic ''common_prefix_length == 0'')))"

definition sum_histogram :: "int \<Rightarrow> 't msb_radix_sorter \<Rightarrow> 't msb_radix_sorter run" where
  "sum_histogram l m =
     run_bind (for_range (nat MSB_HISTOGRAM_SIZE) 0 (\<lambda>i (accum, m).
       run_bind (hist_get l i m) (\<lambda>count.
       run_bind (hist_set l i accum m) (\<lambda>m1.
       run_bind (vec_set (ms_end_offsets m1) i (accum + count)) (\<lambda>e.
         Some (Inr (accum + count, m1\<lparr>ms_end_offsets := e\<rparr>)))))) (0, m)) (\<lambda>(_, m1). Some (Inr m1))"

partial_function (option) reorder_loop ::
  "('t, 'e) msb_ops_scheme \<Rightarrow> int \<Rightarrow> int \<Rightarrow> int \<Rightarrow> int \<Rightarrow> int \<Rightarrow> int \<Rightarrow> 't msb_radix_sorter \<Rightarrow> 't msb_radix_sorter run" where
  "reorder_loop M from k l i limit h1 m =
     (if h1 < limit
      then run_bind (get_bucket M (from + h1) k m) (\<lambda>b.
           run_bind (hist_get l b m) (\<lambda>h2.
           run_bind (hist_set l b (h2 + 1) m) (\<lambda>m1.
           run_bind (mo_swap M (from + h1) (from + h2) (ms_sorter m1)) (\<lambda>t.
           run_bind (hist_get l i (m1\<lparr>ms_sorter := t\<rparr>)) (\<lambda>h3. reorder_loop M from k l i limit h3 (m1\<lparr>ms_sorter := t\<rparr>))))))
      else Some (Inr m))"

definition reorder :: "('t, 'e) msb_ops_scheme \<Rightarrow> int \<Rightarrow> int \<Rightarrow> int \<Rightarrow> 't msb_radix_sorter \<Rightarrow> 't msb_radix_sorter run" where
  "reorder M from k l m =
     for_range (nat MSB_HISTOGRAM_SIZE) 0 (\<lambda>i m.
       run_bind (vec_get (ms_end_offsets m) i) (\<lambda>limit.
       run_bind (hist_get l i m) (\<lambda>h1. reorder_loop M from k l i limit h1 m))) m"

definition fallback_range ::
  "('t, 'e) msb_ops_scheme \<Rightarrow> int \<Rightarrow> int \<Rightarrow> int \<Rightarrow> 't msb_radix_sorter \<Rightarrow> 't msb_radix_sorter run" where
  "fallback_range M from to k m =
     run_bind (mo_fallback_sort M k from to (ms_sorter m)) (\<lambda>t. Some (Inr (m\<lparr>ms_sorter := t\<rparr>)))"

partial_function (option) radix_sort ::
  "('t, 'e) msb_ops_scheme \<Rightarrow> int \<Rightarrow> int \<Rightarrow> int \<Rightarrow> int \<Rightarrow> 't msb_radix_sorter \<Rightarrow> 't msb_radix_sorter run" where
  "radix_sort M from to k l m =
     run_bind (vec_set (ms_histograms m) l (replicate (nat MSB_HISTOGRAM_SIZE) 0)) (\<lambda>hs.
     run_bind (compute_common_prefix_length_and_build_histogram M from to k l (m\<lparr>ms_histograms := hs\<rparr>)) (\<lambda>(len, m1).
       if 0 < len
       then run_bind (hist_get l 0 m1) (\<lambda>h0.
              if k + len < ms_max_length m1 \<and> h0 < to - from then radix_sort M from to (k + len) l m1 else Some (Inr m1))
       else run_bind (assert_histogram len l m1) (\<lambda>_.
            run_bind (sum_histogram l m1) (\<lambda>m2.
            run_bind (reorder M from k l m2) (\<lambda>m3.
            run_bind (vec_get (ms_histograms m3) l) (\<lambda>end_offsets.
              if k + 1 < ms_max_length m3
              then run_bind (vec_get end_offsets 0) (\<lambda>prev0.
                   run_bind (for_range (nat (MSB_HISTOGRAM_SIZE - 1)) 1 (\<lambda>i (prev, m).
                     run_bind (vec_get end_offsets i) (\<lambda>h.
                     run_bind (if 1 < h - prev
                               then if (from + h) - (from + prev) \<le> LENGTH_THRESHOLD \<or> LEVEL_THRESHOLD \<le> l + 1
                                    then fallback_range M (from + prev) (from + h) (k + 1) m
                                    else radix_sort M (from + prev) (from + h) (k + 1) (l + 1) m
                               else Some (Inr m)) (\<lambda>m'. Some (Inr (h, m'))))) (prev0, m3)) (\<lambda>(_, m4). Some (Inr m4)))
              else Some (Inr m3)))))))"

definition sort_inner ::
  "('t, 'e) msb_ops_scheme \<Rightarrow> int \<Rightarrow> int \<Rightarrow> int \<Rightarrow> int \<Rightarrow> 't msb_radix_sorter \<Rightarrow> 't msb_radix_sorter run" where
  "sort_inner M from to k l m =
     (if to - from \<le> LENGTH_THRESHOLD \<or> LEVEL_THRESHOLD \<le> l then fallback_range M from to k m
      else radix_sort M from to k l m)"

definition msb_sort :: "('t, 'e) msb_ops_scheme \<Rightarrow> int \<Rightarrow> int \<Rightarrow> 't msb_radix_sorter \<Rightarrow> 't msb_radix_sorter run" where
  "msb_sort M from to m =
     (if \<not> from \<le> to then Some (Inl (Panic ''from <= to'')) else sort_inner M from to 0 0 m)"

section \<open>The terms of a hash\<close>

definition BYTE_BLOCK_SHIFT :: nat where
  "BYTE_BLOCK_SHIFT = 15"

definition BYTE_BLOCK_SIZE :: nat where
  "BYTE_BLOCK_SIZE = 2 ^ BYTE_BLOCK_SHIFT"

definition slice_get :: "bytes \<Rightarrow> nat \<Rightarrow> u8 result" where
  "slice_get bs i = (if i < length bs then Inr (bs ! i) else Inl (Panic ''index out of bounds''))"

definition set_bytes_ref :: "bytes list \<Rightarrow> nat \<Rightarrow> bytes result" where
  "set_bytes_ref buffers text_start =
     (if \<not> text_start div BYTE_BLOCK_SIZE < length buffers then Inl (Panic ''index out of bounds'')
      else let bs = buffers ! (text_start div BYTE_BLOCK_SIZE); pos = text_start mod BYTE_BLOCK_SIZE
           in rbind (slice_get bs pos) (\<lambda>b0.
              rbind (if b0 AND 128 = 0 then Inr (unat b0, pos + 1)
                     else rbind (slice_get bs (pos + 1)) (\<lambda>b1. Inr (unat (b0 AND 127) + unat b1 * 128, pos + 2))) (\<lambda>(len, offset).
                if offset + len \<le> length bs then Inr (take len (drop offset bs)) else Inl (Panic ''slice index out of bounds''))))"

record bytes_ref_hash =
  brh_buffers :: "bytes list"
  brh_hash_size :: nat
  brh_count :: nat
  brh_last_count :: int
  brh_ids :: "int list"
  brh_bytes_start :: "nat list"

definition term_at :: "bytes list \<Rightarrow> nat list \<Rightarrow> int \<Rightarrow> bytes result" where
  "term_at buffers starts e =
     (if 0 \<le> e \<and> e < int (length starts) then set_bytes_ref buffers (starts ! nat e) else Inl (Panic ''index out of bounds''))"

definition msb_get :: "int \<Rightarrow> bytes_ref_hash \<Rightarrow> bytes run" where
  "msb_get i h = run_bind (vec_get (brh_ids h) i) (\<lambda>e. Some (term_at (brh_buffers h) (brh_bytes_start h) e))"

definition msb_byte_at :: "int \<Rightarrow> int \<Rightarrow> bytes_ref_hash \<Rightarrow> u8 option run" where
  "msb_byte_at i k h = run_bind (msb_get i h) (\<lambda>bs. Some (Inr (if int (length bs) \<le> k then None else Some (bs ! nat k))))"

definition msb_swap :: "int \<Rightarrow> int \<Rightarrow> bytes_ref_hash \<Rightarrow> bytes_ref_hash run" where
  "msb_swap i j h =
     run_bind (vec_get (brh_ids h) i) (\<lambda>x.
     run_bind (vec_get (brh_ids h) j) (\<lambda>y. Some (Inr (h\<lparr>brh_ids := (brh_ids h)[nat i := y, nat j := x]\<rparr>))))"

record fallback =
  fb_sorter :: bytes_ref_hash
  fb_pivot :: bytes
  fb_k :: int

definition fallback_get :: "int \<Rightarrow> fallback \<Rightarrow> bytes run" where
  "fallback_get i f =
     run_bind (msb_get i (fb_sorter f)) (\<lambda>bs.
       if fb_k f \<le> int (length bs) then Some (Inr (drop (nat (fb_k f)) bs)) else Some (Inl (Panic ''slice index out of bounds'')))"

definition fallback_ops :: "fallback sorter_ops" where
  "fallback_ops = \<lparr>
     sr_compare = (\<lambda>i j f. run_bind (fallback_get i f) (\<lambda>a. run_bind (fallback_get j f) (\<lambda>b. Some (Inr (cmp a b))))),
     sr_swap = (\<lambda>i j f. run_bind (msb_swap i j (fb_sorter f)) (\<lambda>h. Some (Inr (f\<lparr>fb_sorter := h\<rparr>)))),
     sr_set_pivot = (\<lambda>i f. run_bind (fallback_get i f) (\<lambda>bs. Some (Inr (f\<lparr>fb_pivot := bs\<rparr>)))),
     sr_compare_pivot = (\<lambda>j f. run_bind (fallback_get j f) (\<lambda>bs. Some (Inr (cmp (fb_pivot f) bs))))\<rparr>"

definition fb_sort :: "int \<Rightarrow> int \<Rightarrow> fallback \<Rightarrow> fallback run" where
  "fb_sort from to f =
     (if \<not> from \<le> to then Some (Inl (Panic ''from <= to''))
      else run_bind (Some (log (to - from) 2)) (\<lambda>d. quick_sort fallback_ops from to (2 * d) f))"

definition fallback_sorter :: "int \<Rightarrow> bytes_ref_hash \<Rightarrow> fallback" where
  "fallback_sorter k h = \<lparr>fb_sorter = h, fb_pivot = [0], fb_k = k\<rparr>"

definition bytes_ref_msb :: "bytes_ref_hash msb_ops" where
  "bytes_ref_msb = \<lparr>mo_byte_at = msb_byte_at, mo_swap = msb_swap,
     mo_fallback_sort = (\<lambda>k from to h. run_bind (fb_sort from to (fallback_sorter k h)) (\<lambda>f. Some (Inr (fb_sorter f))))\<rparr>"

definition compact :: "bytes_ref_hash \<Rightarrow> bytes_ref_hash run" where
  "compact h =
     run_bind (for_range (brh_hash_size h) 0 (\<lambda>i (filled, ids).
       run_bind (vec_get ids i) (\<lambda>e.
         if e \<noteq> - 1
         then if filled < i
              then run_bind (vec_set ids filled e) (\<lambda>ids1.
                   run_bind (vec_set ids1 i (- 1)) (\<lambda>ids2. Some (Inr (filled + 1, ids2))))
              else Some (Inr (filled + 1, ids))
         else Some (Inr (filled, ids)))) (0, brh_ids h)) (\<lambda>(filled, ids).
       if filled \<noteq> int (brh_count h) then Some (Inl (Panic ''upto == count''))
       else Some (Inr (h\<lparr>brh_ids := ids, brh_last_count := int (brh_count h)\<rparr>)))"

definition hash_sort :: "bytes_ref_hash \<Rightarrow> bytes_ref_hash run" where
  "hash_sort h =
     run_bind (compact h) (\<lambda>h1.
     run_bind (compact h1) (\<lambda>h2.
     run_bind (msb_sort bytes_ref_msb 0 (int (brh_count h1)) (msb_new 2147483647 h2)) (\<lambda>m. Some (Inr (ms_sorter m)))))"

section \<open>Loops and histograms\<close>

lemma for_range_ok:
  assumes "I a s" "\<And>i s. a \<le> i \<Longrightarrow> i < a + int n \<Longrightarrow> I i s \<Longrightarrow> returns (f i s) (I (i + 1))"
  shows "returns (for_range n a f s) (I (a + int n))"
  using assms
proof (induction n arbitrary: a s)
  case 0
  then show ?case by simp
next
  case (Suc n)
  have "returns (f a s) (I (a + 1))" using Suc.prems by simp
  then have "returns (run_bind (f a s) (\<lambda>s1. for_range n (a + 1) f s1)) (I (a + 1 + int n))"
    by (rule returns_bind) (use Suc.prems(2) in \<open>auto intro!: Suc.IH\<close>)
  then show ?case by (simp add: algebra_simps)
qed

lemma vec_get_ok [simp]: "0 \<le> i \<Longrightarrow> i < int (length xs) \<Longrightarrow> vec_get xs i = Some (Inr (el xs i))"
  by (simp add: vec_get_def el_def)

lemma vec_set_ok [simp]: "0 \<le> i \<Longrightarrow> i < int (length xs) \<Longrightarrow> vec_set xs i x = Some (Inr (xs[nat i := x]))"
  by (simp add: vec_set_def)

lemma el_update: "0 \<le> i \<Longrightarrow> i < int (length xs) \<Longrightarrow> 0 \<le> j \<Longrightarrow> el (xs[nat i := x]) j = (if j = i then x else el xs j)"
  by (auto simp: el_def nth_list_update)

definition hist :: "int \<Rightarrow> 't msb_radix_sorter \<Rightarrow> int \<Rightarrow> int" where
  "hist l m i = el (el (ms_histograms m) l) i"

definition hist_upd :: "int \<Rightarrow> int \<Rightarrow> int \<Rightarrow> 't msb_radix_sorter \<Rightarrow> 't msb_radix_sorter" where
  "hist_upd l i v m = m\<lparr>ms_histograms := (ms_histograms m)[nat l := (el (ms_histograms m) l)[nat i := v]]\<rparr>"

text \<open>The sizes of the vectors of a sorter.\<close>

definition ms_sized :: "'t msb_radix_sorter \<Rightarrow> bool" where
  "ms_sized m \<longleftrightarrow> length (ms_histograms m) = 8 \<and> (\<forall>h\<in>set (ms_histograms m). length h = 257) \<and> length (ms_end_offsets m) = 257 \<and>
     0 < length (ms_common_prefix m)"

lemma ms_sized_new: "0 < n \<Longrightarrow> ms_sized (msb_new n t)"
  by (auto simp: ms_sized_def msb_new_def LEVEL_THRESHOLD_def MSB_HISTOGRAM_SIZE_def)

lemma ms_sized_row: "ms_sized m \<Longrightarrow> 0 \<le> l \<Longrightarrow> l < 8 \<Longrightarrow> length (el (ms_histograms m) l) = 257"
  by (simp add: ms_sized_def el_def)

lemma hist_get_ok: "ms_sized m \<Longrightarrow> 0 \<le> l \<Longrightarrow> l < 8 \<Longrightarrow> 0 \<le> i \<Longrightarrow> i < 257 \<Longrightarrow> hist_get l i m = Some (Inr (hist l m i))"
  using ms_sized_row [of m l] by (simp add: hist_get_def hist_def ms_sized_def)

lemma hist_set_ok: "ms_sized m \<Longrightarrow> 0 \<le> l \<Longrightarrow> l < 8 \<Longrightarrow> 0 \<le> i \<Longrightarrow> i < 257 \<Longrightarrow> hist_set l i v m = Some (Inr (hist_upd l i v m))"
  using ms_sized_row [of m l] by (simp add: hist_set_def hist_upd_def ms_sized_def)

lemma ms_sized_upd: "ms_sized m \<Longrightarrow> 0 \<le> l \<Longrightarrow> l < 8 \<Longrightarrow> ms_sized (hist_upd l i v m)"
  using ms_sized_row [of m l] by (auto simp: ms_sized_def hist_upd_def dest!: set_update_subset_insert [THEN subsetD])

lemma hist_upd_simps [simp]:
  "ms_sorter (hist_upd l i v m) = ms_sorter m" "ms_max_length (hist_upd l i v m) = ms_max_length m"
  "ms_common_prefix (hist_upd l i v m) = ms_common_prefix m" "ms_end_offsets (hist_upd l i v m) = ms_end_offsets m"
  by (simp_all add: hist_upd_def)

lemma hist_upd_at: "ms_sized m \<Longrightarrow> 0 \<le> l \<Longrightarrow> l < 8 \<Longrightarrow> 0 \<le> i \<Longrightarrow> i < 257 \<Longrightarrow> 0 \<le> j \<Longrightarrow>
    hist l (hist_upd l i v m) j = (if j = i then v else hist l m j)"
  using ms_sized_row [of m l] by (simp add: hist_def hist_upd_def el_update ms_sized_def)

section \<open>What an implementor promises\<close>

text \<open>The code of a string at an index, as the sorter sees it.\<close>

definition code :: "int \<Rightarrow> bytes \<Rightarrow> int" where
  "code k x = (if int (length x) \<le> k then - 1 else uint (x ! nat k))"

lemma uint_neq_minus [simp]: "uint (w :: u8) \<noteq> - 1"
  using uint_nonnegative [of w] by linarith

lemma code_bounds: "- 1 \<le> code k x" "code k x < 256"
  using uint_lt2p [of "x ! nat k :: u8"] by (auto simp: code_def uint_nonnegative intro: order_trans [OF _ uint_nonnegative])

lemma code_end: "code k x = - 1 \<longleftrightarrow> int (length x) \<le> k"
  by (simp add: code_def)

locale string_sorter =
  fixes M :: "('t, 'e) msb_ops_scheme" and elems :: "'t \<Rightarrow> 'a list" and str :: "'a \<Rightarrow> bytes" and invar :: "'t \<Rightarrow> bool" and final :: int
  assumes byte_at_eq: "invar t \<Longrightarrow> 0 \<le> i \<Longrightarrow> i < final \<Longrightarrow> 0 \<le> k \<Longrightarrow>
      mo_byte_at M i k t = Some (Inr (let x = str (el (elems t) i) in if int (length x) \<le> k then None else Some (x ! nat k)))"
    and swap_ok: "invar t \<Longrightarrow> 0 \<le> i \<Longrightarrow> i < final \<Longrightarrow> 0 \<le> j \<Longrightarrow> j < final \<Longrightarrow>
      returns (mo_swap M i j t) (\<lambda>t'. invar t' \<and> elems t' = swapped i j (elems t))"
    and fallback_ok: "invar t \<Longrightarrow> 0 \<le> lo \<Longrightarrow> lo \<le> hi \<Longrightarrow> hi \<le> final \<Longrightarrow> hi \<le> 2 ^ 30 \<Longrightarrow> 0 \<le> k \<Longrightarrow>
      (\<And>i. lo \<le> i \<Longrightarrow> i < hi \<Longrightarrow> k \<le> int (length (str (el (elems t) i)))) \<Longrightarrow>
      returns (mo_fallback_sort M k lo hi t) (\<lambda>t'. invar t' \<and> perm_in lo hi (elems t) (elems t') \<and>
        (\<forall>i j. lo \<le> i \<longrightarrow> i \<le> j \<longrightarrow> j < hi \<longrightarrow> drop (nat k) (str (el (elems t') i)) \<le> drop (nat k) (str (el (elems t') j))))"
begin

definition s_at :: "'t msb_radix_sorter \<Rightarrow> int \<Rightarrow> bytes" where
  "s_at m i = str (el (elems (ms_sorter m)) i)"

definition ms_ok :: "int \<Rightarrow> int \<Rightarrow> 't msb_radix_sorter \<Rightarrow> bool" where
  "ms_ok lo hi m \<longleftrightarrow> ms_sized m \<and> invar (ms_sorter m) \<and> 0 \<le> lo \<and> hi \<le> int (length (elems (ms_sorter m))) \<and> hi \<le> 2 ^ 30 \<and> hi \<le> final"

lemma byte_at_code:
  assumes "ms_ok lo hi m" "lo \<le> i" "i < hi" "0 \<le> k"
  obtains b where "mo_byte_at M i k (ms_sorter m) = Some (Inr b)" "byte_code b = code k (s_at m i)" "b = None \<longleftrightarrow> code k (s_at m i) = - 1"
proof (rule that)
  show "mo_byte_at M i k (ms_sorter m) = Some (Inr (let x = s_at m i in if int (length x) \<le> k then None else Some (x ! nat k)))"
    using assms byte_at_eq [of "ms_sorter m" i k] by (auto simp: ms_ok_def s_at_def)
qed (auto simp: byte_code_def code_def Let_def intro: order_trans [OF _ uint_nonnegative] dest: sym)

lemma get_bucket_eq:
  assumes "ms_ok lo hi m" "lo \<le> i" "i < hi" "0 \<le> k"
  shows "get_bucket M i k m = Some (Inr (code k (s_at m i) + 1))"
proof -
  obtain b where b: "mo_byte_at M i k (ms_sorter m) = Some (Inr b)" "byte_code b = code k (s_at m i)" by (rule byte_at_code [OF assms])
  then show ?thesis by (auto simp: get_bucket_def byte_code_def split: option.splits)
qed

end

section \<open>The common prefix and the histogram\<close>

context string_sorter
begin

lemma prefix_loop_ok:
  assumes "ms_ok lo hi m" "lo < hi" "0 \<le> k" "0 \<le> j" "j < len" "len \<le> int (length (ms_common_prefix m))"
    "\<And>i. 0 \<le> i \<Longrightarrow> i < j \<Longrightarrow> el (ms_common_prefix m) i = code (k + i) (s_at m lo)"
  shows "returns (prefix_loop M lo k len j m) (\<lambda>(len', m'). \<exists>p. m' = m\<lparr>ms_common_prefix := p\<rparr> \<and>
    length p = length (ms_common_prefix m) \<and> 0 < len' \<and> len' \<le> len \<and> (\<forall>i. 0 \<le> i \<longrightarrow> i < len' \<longrightarrow> el p i = code (k + i) (s_at m lo)))"
  using assms
proof (induction "nat (len - j)" arbitrary: j m rule: less_induct)
  case less
  obtain b where b: "mo_byte_at M lo (k + j) (ms_sorter m) = Some (Inr b)" "byte_code b = code (k + j) (s_at m lo)"
    using byte_at_code [OF less.prems(1) order_refl less.prems(2), of "k + j"] less.prems(3,4) by auto
  define p where "p = (ms_common_prefix m)[nat j := byte_code b]"
  define m1 where "m1 = m\<lparr>ms_common_prefix := p\<rparr>"
  have p: "length p = length (ms_common_prefix m)" "el p i = code (k + i) (s_at m lo)" if "0 \<le> i" "i < j + 1" for i
    using that b(2) less.prems(4-7) by (auto simp: p_def el_update)
  have lenp: "length p = length (ms_common_prefix m)" by (simp add: p_def)
  have step: "prefix_loop M lo k len j m = (if b = None then Some (Inr (j + 1, m1)) else prefix_loop M lo k len (j + 1) m1)"
    using less.prems(4-6) b(1) by (subst prefix_loop.simps) (simp add: p_def m1_def)
  have ok1: "ms_ok lo hi m1" and at1: "s_at m1 = s_at m"
    using less.prems(1) lenp by (auto simp: ms_ok_def ms_sized_def m1_def s_at_def fun_eq_iff)
  show ?case
  proof (cases "b = None \<or> j + 1 = len")
    case True
    have "prefix_loop M lo k len j m = Some (Inr (j + 1, m1))"
      using True step by (auto simp: prefix_loop.simps [of M lo k len "j + 1" m1])
    then show ?thesis using p lenp less.prems(4,5) by (auto simp: m1_def)
  next
    case False
    have "returns (prefix_loop M lo k len (j + 1) m1) (\<lambda>(len', m'). \<exists>q. m' = m1\<lparr>ms_common_prefix := q\<rparr> \<and>
      length q = length (ms_common_prefix m1) \<and> 0 < len' \<and> len' \<le> len \<and> (\<forall>i. 0 \<le> i \<longrightarrow> i < len' \<longrightarrow> el q i = code (k + i) (s_at m1 lo)))"
      using less.prems False p lenp ok1 at1 by (intro less.hyps) (auto simp: m1_def)
    then have "returns (prefix_loop M lo k len (j + 1) m1) (\<lambda>(len', m'). \<exists>q. m' = m\<lparr>ms_common_prefix := q\<rparr> \<and>
      length q = length (ms_common_prefix m) \<and> 0 < len' \<and> len' \<le> len \<and> (\<forall>i. 0 \<le> i \<longrightarrow> i < len' \<longrightarrow> el q i = code (k + i) (s_at m lo)))"
      by (rule returns_mono) (auto simp: m1_def lenp at1 [unfolded m1_def])
    moreover have "prefix_loop M lo k len j m = prefix_loop M lo k len (j + 1) m1" using step False by auto
    ultimately show ?thesis by (simp only:)
  qed
qed

lemma mismatch_loop_ok:
  assumes "ms_ok lo hi m" "lo \<le> i" "i < hi" "0 \<le> k" "0 \<le> j" "len \<le> int (length (ms_common_prefix m))"
  shows "returns (mismatch_loop M i k len j m) (\<lambda>r. case r of
      None \<Rightarrow> \<forall>q. j \<le> q \<longrightarrow> q < len \<longrightarrow> code (k + q) (s_at m i) = el (ms_common_prefix m) q
    | Some (j', b) \<Rightarrow> j \<le> j' \<and> j' < len \<and> (\<forall>q. j \<le> q \<longrightarrow> q < j' \<longrightarrow> code (k + q) (s_at m i) = el (ms_common_prefix m) q) \<and>
        b = code (k + j') (s_at m i) \<and> b \<noteq> el (ms_common_prefix m) j')"
  using assms
proof (induction "nat (len - j)" arbitrary: j)
  case 0
  then show ?case by (subst mismatch_loop.simps) auto
next
  case (Suc n)
  have j: "j < len" using Suc.hyps(2) by simp
  obtain b where b: "mo_byte_at M i (k + j) (ms_sorter m) = Some (Inr b)" "byte_code b = code (k + j) (s_at m i)"
    using byte_at_code [OF Suc.prems(1-3), of "k + j"] Suc.prems(4,5) by auto
  have step: "mismatch_loop M i k len j m = (if code (k + j) (s_at m i) \<noteq> el (ms_common_prefix m) j
      then Some (Inr (Some (j, code (k + j) (s_at m i)))) else mismatch_loop M i k len (j + 1) m)"
    using j Suc.prems(5,6) b by (subst mismatch_loop.simps) simp
  show ?case
  proof (cases "code (k + j) (s_at m i) = el (ms_common_prefix m) j")
    case True
    have "returns (mismatch_loop M i k len (j + 1) m) (\<lambda>r. case r of
        None \<Rightarrow> \<forall>q. j + 1 \<le> q \<longrightarrow> q < len \<longrightarrow> code (k + q) (s_at m i) = el (ms_common_prefix m) q
      | Some (j', b) \<Rightarrow> j + 1 \<le> j' \<and> j' < len \<and> (\<forall>q. j + 1 \<le> q \<longrightarrow> q < j' \<longrightarrow> code (k + q) (s_at m i) = el (ms_common_prefix m) q) \<and>
          b = code (k + j') (s_at m i) \<and> b \<noteq> el (ms_common_prefix m) j')"
      using Suc.hyps Suc.prems by (intro Suc.hyps(1)) auto
    moreover have ext: "(\<forall>q. j \<le> q \<longrightarrow> q < e \<longrightarrow> code (k + q) (s_at m i) = el (ms_common_prefix m) q) \<longleftrightarrow>
        (\<forall>q. j + 1 \<le> q \<longrightarrow> q < e \<longrightarrow> code (k + q) (s_at m i) = el (ms_common_prefix m) q)" for e
      using True by (metis add1_zle_eq order_le_less)
    moreover have "mismatch_loop M i k len j m = mismatch_loop M i k len (j + 1) m" using step True by simp
    ultimately show ?thesis
      unfolding ext by (auto elim!: returns_mono split: option.splits)
  next
    case False
    then show ?thesis using step j by simp
  qed
qed

text \<open>The strings from \<open>lo\<close> to \<open>i\<close> agree with the first one on the next \<open>len\<close> codes.\<close>

definition agree :: "int \<Rightarrow> int \<Rightarrow> int \<Rightarrow> int \<Rightarrow> 't msb_radix_sorter \<Rightarrow> bool" where
  "agree lo i k len m \<longleftrightarrow> (\<forall>p q. lo \<le> p \<longrightarrow> p < i \<longrightarrow> 0 \<le> q \<longrightarrow> q < len \<longrightarrow> code (k + q) (s_at m p) = code (k + q) (s_at m lo))"

lemma agreeD: "agree lo i k len m \<Longrightarrow> lo \<le> p \<Longrightarrow> p < i \<Longrightarrow> 0 \<le> q \<Longrightarrow> q < len \<Longrightarrow> code (k + q) (s_at m p) = code (k + q) (s_at m lo)"
  unfolding agree_def by blast

lemma agree_extend:
  assumes "agree lo i k len m" "len' \<le> len" "\<And>q. 0 \<le> q \<Longrightarrow> q < len' \<Longrightarrow> code (k + q) (s_at m i) = code (k + q) (s_at m lo)"
  shows "agree lo (i + 1) k len' m"
  unfolding agree_def
proof (intro allI impI)
  fix p q assume pq: "lo \<le> p" "p < i + 1" "0 \<le> q" "q < len'"
  show "code (k + q) (s_at m p) = code (k + q) (s_at m lo)"
  proof (cases "p = i")
    case True
    then show ?thesis using assms(3) [OF pq(3,4)] by simp
  next
    case False
    then have "p < i" "q < len" using pq assms(2) by simp_all
    then show ?thesis using assms(1) pq(1,3) unfolding agree_def by blast
  qed
qed

lemma agree_mono: "agree lo i k len m \<Longrightarrow> len' \<le> len \<Longrightarrow> agree lo i k len' m"
  unfolding agree_def by (meson less_le_trans)

lemma index_loop_ok:
  assumes "ms_ok lo hi m" "lo < i" "i \<le> hi" "0 \<le> k" "0 \<le> l" "l < 8" "0 < len" "len \<le> int (length (ms_common_prefix m))"
    "\<And>q. 0 \<le> q \<Longrightarrow> q < len \<Longrightarrow> el (ms_common_prefix m) q = code (k + q) (s_at m lo)" "agree lo i k len m"
  shows "returns (index_loop M lo hi k l i len m) (\<lambda>(x, len', m').
    if x < hi then len' = 0 \<and> lo < x \<and> agree lo x k 1 m \<and> code k (s_at m x) \<noteq> code k (s_at m lo) \<and>
      m' = hist_upd l (code k (s_at m x) + 1) 1 (hist_upd l (code k (s_at m lo) + 1) (x - lo) m)
    else 0 < len' \<and> len' \<le> len \<and> agree lo hi k len' m \<and> m' = m)"
  using assms
proof (induction "nat (hi - i)" arbitrary: i len)
  case 0
  then show ?case by (subst index_loop.simps) auto
next
  case (Suc n)
  note ok = Suc.prems(1)
  have i: "i < hi" using Suc.hyps(2) by simp
  have p0: "el (ms_common_prefix m) 0 = code k (s_at m lo)" using Suc.prems(9) [of 0] Suc.prems(7) by simp
  have len: "0 < int (length (ms_common_prefix m))" using Suc.prems(7,8) by linarith
  show ?case
    unfolding index_loop.simps [of M lo hi k l i len m] if_P [OF i]
  proof (rule returns_bind [OF mismatch_loop_ok [OF ok]], goal_cases)
    case (6 r)
    show ?case
    proof (cases r)
      case None
      then have "agree lo (i + 1) k len m" using 6 Suc.prems(9) by (intro agree_extend [OF Suc.prems(10)]) auto
      then show ?thesis using None Suc.hyps Suc.prems i by simp
    next
      case (Some jb)
      then obtain j b where r: "r = Some (j, b)" by (cases jb) auto
      then have j: "0 \<le> j" "j < len" "\<And>q. 0 \<le> q \<Longrightarrow> q < j \<Longrightarrow> code (k + q) (s_at m i) = code (k + q) (s_at m lo)"
        "b = code (k + j) (s_at m i)" "b \<noteq> code (k + j) (s_at m lo)" using 6 Suc.prems(9) by auto
      show ?thesis
      proof (cases "j = 0")
        case True
        have bd: "0 \<le> code k x + 1" "code k x + 1 < 257" for x using code_bounds [of k x] by auto
        have "ms_sized m" using ok by (simp add: ms_ok_def)
        moreover have "agree lo i k 1 m" using Suc.prems(7) by (intro agree_mono [OF Suc.prems(10)]) simp
        ultimately show ?thesis
          using r True j(4,5) p0 len bd i Suc.prems(2,5,6) by (simp add: hist_set_ok ms_sized_upd)
      next
        case False
        have "agree lo (i + 1) k j m" using j by (intro agree_extend [OF Suc.prems(10)]) auto
        then have "returns (index_loop M lo hi k l (i + 1) j m) (\<lambda>(x, len', m').
          if x < hi then len' = 0 \<and> lo < x \<and> agree lo x k 1 m \<and> code k (s_at m x) \<noteq> code k (s_at m lo) \<and>
            m' = hist_upd l (code k (s_at m x) + 1) 1 (hist_upd l (code k (s_at m lo) + 1) (x - lo) m)
          else 0 < len' \<and> len' \<le> j \<and> agree lo hi k len' m \<and> m' = m)"
          using Suc.hyps Suc.prems i j False by (intro Suc.hyps(1)) auto
        then show ?thesis using r False j(2) by (auto elim!: returns_mono split: if_splits)
      qed
    qed
  qed (use Suc.prems i in auto)
qed

text \<open>How many strings of a range fall into a bucket.\<close>

definition cnt :: "int \<Rightarrow> int \<Rightarrow> int \<Rightarrow> int \<Rightarrow> 't msb_radix_sorter \<Rightarrow> int" where
  "cnt k b lo hi m = int (card {p \<in> {lo..<hi}. code k (s_at m p) + 1 = b})"

lemma cnt_Suc:
  assumes "lo \<le> i"
  shows "cnt k b lo (i + 1) m = cnt k b lo i m + (if code k (s_at m i) + 1 = b then 1 else 0)"
proof -
  define A where "A = {p \<in> {lo..<i}. code k (s_at m p) + 1 = b}"
  have "{p \<in> {lo..<i + 1}. code k (s_at m p) + 1 = b} = (if code k (s_at m i) + 1 = b then insert i A else A)"
    using assms by (auto simp: A_def order_le_less)
  moreover have "finite A" unfolding A_def by (rule finite_Collect_conjI) simp
  moreover have "i \<notin> A" by (simp add: A_def)
  ultimately show ?thesis unfolding cnt_def A_def [symmetric] by (simp only: card_insert_disjoint split: if_split) simp
qed

lemma cnt_agree:
  assumes "agree lo x k 1 m" "lo \<le> x"
  shows "cnt k b lo x m = (if b = code k (s_at m lo) + 1 then x - lo else 0)"
proof -
  have "code k (s_at m p) = code k (s_at m lo)" if "lo \<le> p" "p < x" for p
    using assms(1) that unfolding agree_def by (metis add.right_neutral order_refl zero_less_one)
  then have "{p \<in> {lo..<x}. code k (s_at m p) + 1 = b} = {p \<in> {lo..<x}. code k (s_at m lo) + 1 = b}"
    by (intro Collect_cong) (metis atLeastLessThan_iff)
  also have "\<dots> = (if b = code k (s_at m lo) + 1 then {lo..<x} else {})" by auto
  finally show ?thesis using assms(2) by (simp add: cnt_def)
qed

text \<open>Steps that change nothing but the working vectors.\<close>

definition same_data :: "'t msb_radix_sorter \<Rightarrow> 't msb_radix_sorter \<Rightarrow> bool" where
  "same_data m m' \<longleftrightarrow> ms_sized m' \<and> ms_sorter m' = ms_sorter m \<and> ms_max_length m' = ms_max_length m"

lemma same_data_at: "same_data m m' \<Longrightarrow> s_at m' = s_at m"
  by (simp add: same_data_def s_at_def fun_eq_iff)

lemma same_data_ok: "same_data m m' \<Longrightarrow> ms_ok lo hi m \<Longrightarrow> ms_ok lo hi m'"
  by (simp add: same_data_def ms_ok_def)

lemma same_data_trans: "same_data m m1 \<Longrightarrow> same_data m1 m2 \<Longrightarrow> same_data m m2"
  by (simp add: same_data_def)

lemma same_data_upd: "ms_sized m \<Longrightarrow> 0 \<le> l \<Longrightarrow> l < 8 \<Longrightarrow> same_data m (hist_upd l i v m)"
  by (simp add: same_data_def ms_sized_upd)

lemma bucket_bounds: "0 \<le> code k x + 1" "code k x + 1 < 257"
  using code_bounds [of k x] by auto

lemma build_histogram_ok:
  assumes ok: "ms_ok lo hi m" and a: "lo \<le> a" "a \<le> hi" and kl: "0 \<le> k" "0 \<le> l" "l < 8"
    and h: "\<And>b. 0 \<le> b \<Longrightarrow> b < 257 \<Longrightarrow> hist l m b = cnt k b lo a m"
  shows "returns (build_histogram M a hi k l m) (\<lambda>m'. same_data m m' \<and> (\<forall>b. 0 \<le> b \<longrightarrow> b < 257 \<longrightarrow> hist l m' b = cnt k b lo hi m))"
proof -
  define I where "I = (\<lambda>i m'. same_data m m' \<and> (\<forall>b. 0 \<le> b \<longrightarrow> b < 257 \<longrightarrow> hist l m' b = cnt k b lo i m))"
  have "returns (build_histogram M a hi k l m) (I (a + int (nat (hi - a))))"
    unfolding build_histogram_def
  proof (rule for_range_ok [where I = I])
    show "I a m" using h ok by (simp add: I_def same_data_def ms_ok_def)
    fix i m' assume i: "a \<le> i" "i < a + int (nat (hi - a))" and I: "I i m'"
    have ok': "ms_ok lo hi m'" and at: "s_at m' = s_at m" and sd: "same_data m m'" "ms_sized m'"
      using I ok same_data_ok same_data_at by (auto simp: I_def same_data_def)
    let ?b = "code k (s_at m i) + 1"
    have get: "get_bucket M i k m' = Some (Inr ?b)" using get_bucket_eq [OF ok', of i k] i a kl(1) at by simp
    have "hist l (hist_upd l ?b (hist l m' ?b + 1) m') b = cnt k b lo (i + 1) m" if "0 \<le> b" "b < 257" for b
      using I that cnt_Suc [of lo i k b m] i(1) a(1) hist_upd_at [OF sd(2) kl(2,3) bucket_bounds [of k "s_at m i"] that(1)]
      by (auto simp: I_def)
    then have "I (i + 1) (hist_upd l ?b (hist l m' ?b + 1) m')"
      using same_data_trans [OF sd(1) same_data_upd [OF sd(2) kl(2,3)]] by (simp add: I_def)
    then show "returns (run_bind (get_bucket M i k m') (\<lambda>bucket. run_bind (hist_get l bucket m') (\<lambda>c. hist_set l bucket (c + 1) m'))) (I (i + 1))"
      using hist_get_ok [OF sd(2) kl(2,3) bucket_bounds [of k "s_at m i"]] hist_set_ok [OF sd(2) kl(2,3) bucket_bounds [of k "s_at m i"]]
      by (simp add: get)
  qed
  then show ?thesis using a(2) by (simp add: I_def)
qed

definition prefix_post :: "int \<Rightarrow> int \<Rightarrow> int \<Rightarrow> int \<Rightarrow> 't msb_radix_sorter \<Rightarrow> int \<times> 't msb_radix_sorter \<Rightarrow> bool" where
  "prefix_post lo hi k l m = (\<lambda>(len, m'). same_data m m' \<and> 0 \<le> len \<and>
     (if 0 < len then agree lo hi k len m \<and> hist l m' 0 = (if code k (s_at m lo) = - 1 then hi - lo else 0)
      else (\<exists>p. lo \<le> p \<and> p < hi \<and> code k (s_at m p) \<noteq> code k (s_at m lo)) \<and> (\<forall>b. 0 \<le> b \<longrightarrow> b < 257 \<longrightarrow> hist l m' b = cnt k b lo hi m)))"

lemma prefix_post_differ:
  assumes ok: "ms_ok lo hi m" and kl: "0 \<le> k" "0 \<le> l" "l < 8" and z: "\<And>b. 0 \<le> b \<Longrightarrow> b < 257 \<Longrightarrow> hist l m b = 0"
    and x: "lo < x" "x < hi" "agree lo x k 1 m" "code k (s_at m x) \<noteq> code k (s_at m lo)"
    and m': "m' = hist_upd l (code k (s_at m x) + 1) 1 (hist_upd l (code k (s_at m lo) + 1) (x - lo) m)"
  shows "returns (run_bind (build_histogram M (x + 1) hi k l m') (\<lambda>m3. Some (Inr (0, m3)))) (prefix_post lo hi k l m)"
proof -
  have sz: "ms_sized m" using ok by (simp add: ms_ok_def)
  note sz1 = ms_sized_upd [OF sz kl(2,3)]
  have sd: "same_data m m'" unfolding m' using same_data_trans [OF same_data_upd [OF sz kl(2,3)] same_data_upd [OF sz1 kl(2,3)]] by simp
  have at: "s_at m' = s_at m" by (rule same_data_at [OF sd])
  then have cnt': "cnt k b lo i m' = cnt k b lo i m" for b i by (simp add: cnt_def)
  have "hist l m' b = cnt k b lo (x + 1) m" if "0 \<le> b" "b < 257" for b
    using cnt_Suc [of lo x k b m] cnt_agree [OF x(3), of b] x(1,4) z that
      hist_upd_at [OF sz1 kl(2,3) bucket_bounds [of k "s_at m x"] that(1)] hist_upd_at [OF sz kl(2,3) bucket_bounds [of k "s_at m lo"] that(1)]
    by (auto simp: m')
  then have "returns (build_histogram M (x + 1) hi k l m') (\<lambda>m3. same_data m' m3 \<and> (\<forall>b. 0 \<le> b \<longrightarrow> b < 257 \<longrightarrow> hist l m3 b = cnt k b lo hi m'))"
    using same_data_ok [OF sd ok] x kl cnt' by (intro build_histogram_ok) auto
  then show ?thesis
    by (rule returns_bind) (use sd x cnt' in \<open>auto simp: prefix_post_def intro: same_data_trans exI [of _ x]\<close>)
qed

lemma compute_ok:
  assumes ok: "ms_ok lo hi m" and r: "lo < hi" and kl: "0 \<le> k" "0 \<le> l" "l < 8" "k < ms_max_length m"
    and z: "\<And>b. 0 \<le> b \<Longrightarrow> b < 257 \<Longrightarrow> hist l m b = 0"
  shows "returns (compute_common_prefix_length_and_build_histogram M lo hi k l m) (prefix_post lo hi k l m)"
  unfolding compute_common_prefix_length_and_build_histogram_def
proof (rule returns_bind [OF prefix_loop_ok [OF ok r kl(1)]], goal_cases)
  case (5 y)
  obtain len p m1 where y: "y = (len, m1)" "m1 = m\<lparr>ms_common_prefix := p\<rparr>" "length p = length (ms_common_prefix m)" "0 < len"
    "len \<le> int (length p)" "\<And>i. 0 \<le> i \<Longrightarrow> i < len \<Longrightarrow> el p i = code (k + i) (s_at m lo)"
    using 5 by (cases y) auto
  have sd: "same_data m m1" using ok y(2,3) by (auto simp: same_data_def ms_ok_def ms_sized_def)
  have at: "s_at m1 = s_at m" and ok1: "ms_ok lo hi m1" by (rule same_data_at [OF sd], rule same_data_ok [OF sd ok])
  have agr: "agree a b c d m1 = agree a b c d m" for a b c d by (simp add: agree_def at)
  have z1: "hist l m1 b = 0" if "0 \<le> b" "b < 257" for b using z [OF that] y(2) by (simp add: hist_def)
  have pp: "prefix_post lo hi k l m1 w \<Longrightarrow> prefix_post lo hi k l m w" for w
    using sd by (auto simp: prefix_post_def agr at cnt_def intro: same_data_trans split: if_splits)
  have "agree lo (lo + 1) k len m1" by (auto simp: agree_def)
  then have "returns (index_loop M lo hi k l (lo + 1) len m1) (\<lambda>(x, len', m').
    if x < hi then len' = 0 \<and> lo < x \<and> agree lo x k 1 m1 \<and> code k (s_at m1 x) \<noteq> code k (s_at m1 lo) \<and>
      m' = hist_upd l (code k (s_at m1 x) + 1) 1 (hist_upd l (code k (s_at m1 lo) + 1) (x - lo) m1)
    else 0 < len' \<and> len' \<le> len \<and> agree lo hi k len' m1 \<and> m' = m1)"
    using ok1 r kl y at by (intro index_loop_ok) auto
  then show ?case
    unfolding y(1) prod.case
  proof (rule returns_bind, goal_cases)
    case (1 w)
    obtain x len' m2 where w: "w = (x, len', m2)" by (cases w) auto
    show ?case
    proof (cases "x < hi")
      case True
      then show ?thesis
        using 1 w prefix_post_differ [OF ok1 kl(1-3) z1, of x m2] pp by (auto elim: returns_mono)
    next
      case False
      then have l': "0 < len'" "agree lo hi k len' m1" "m2 = m1" using 1 w by auto
      have p0: "0 < int (length p)" "el p 0 = code k (s_at m1 lo)" using y(4-6) at by auto
      have sz1: "ms_sized m1" using ok1 by (simp add: ms_ok_def)
      have "hist l (hist_upd l (code k (s_at m1 lo) + 1) (hi - lo) m1) 0 = (if code k (s_at m1 lo) = - 1 then hi - lo else 0)"
        using hist_upd_at [OF sz1 kl(2,3) bucket_bounds order_refl, of k "s_at m1 lo"] z1 [of 0] by auto
      then have "prefix_post lo hi k l m1 (len', hist_upd l (code k (s_at m1 lo) + 1) (hi - lo) m1)"
        using l' same_data_upd [OF sz1 kl(2,3)] by (simp add: prefix_post_def)
      then show ?thesis
        using False w l' p0 y(2) pp hist_set_ok [OF sz1 kl(2,3) bucket_bounds] by simp
    qed
  qed
qed (use ok kl in \<open>auto simp: ms_ok_def ms_sized_def\<close>)

end

section \<open>Distribution over the buckets\<close>

lemma filter_two:
  assumes "i \<noteq> j" "i < length xs" "j < length xs" "P (xs ! i)" "P (xs ! j)"
  shows "length (filter P xs) \<noteq> 1"
proof
  assume "length (filter P xs) = 1"
  then obtain a where a: "{k. k < length xs \<and> P (xs ! k)} = {a}" by (metis length_filter_conv_card card_1_singletonE)
  have "i \<in> {k. k < length xs \<and> P (xs ! k)}" "j \<in> {k. k < length xs \<and> P (xs ! k)}" using assms(2-5) by simp_all
  then show False using assms(1) unfolding a by simp
qed

definition offset :: "(int \<Rightarrow> int) \<Rightarrow> int \<Rightarrow> int" where
  "offset c b = (\<Sum>i\<in>{0..<b}. c i)"

lemma offset_0 [simp]: "offset c 0 = 0"
  by (simp add: offset_def)

lemma offset_Suc: "0 \<le> b \<Longrightarrow> offset c (b + 1) = offset c b + c b"
proof -
  assume "0 \<le> b"
  then have "{0..<b + 1} = insert b {0..<b}" by auto
  then show ?thesis by (simp add: offset_def)
qed

lemma offset_mono: "(\<And>i. 0 \<le> c i) \<Longrightarrow> a \<le> b \<Longrightarrow> offset c a \<le> offset c b"
  unfolding offset_def by (rule sum_mono2) auto

text \<open>The region of a bucket is determined by any of its positions.\<close>

lemma region_unique:
  assumes "\<And>i. 0 \<le> c i" "offset c a \<le> p" "p < offset c (a + 1)" "offset c b \<le> p" "p < offset c (b + 1)"
  shows "a = b"
proof (rule ccontr)
  assume "a \<noteq> b"
  then have "a + 1 \<le> b \<or> b + 1 \<le> a" by linarith
  then show False using offset_mono [of c "a + 1" b] offset_mono [of c "b + 1" a] assms by auto
qed

lemma region_exists:
  assumes "0 \<le> p" "p < offset c (int n)"
  shows "\<exists>b. 0 \<le> b \<and> b < int n \<and> offset c b \<le> p \<and> p < offset c (b + 1)"
  using assms(2)
proof (induction n)
  case 0
  then show ?case using assms(1) by simp
next
  case (Suc n)
  show ?case
  proof (cases "p < offset c (int n)")
    case True
    then show ?thesis using Suc.IH by force
  next
    case False
    then show ?thesis using Suc.prems by (intro exI [of _ "int n"]) (simp add: add.commute)
  qed
qed

lemma sum_histogram_ok:
  assumes sz: "ms_sized m" and l: "0 \<le> l" "l < 8"
  shows "returns (sum_histogram l m) (\<lambda>m'. ms_sized m' \<and> ms_sorter m' = ms_sorter m \<and> ms_max_length m' = ms_max_length m \<and>
    (\<forall>b. 0 \<le> b \<longrightarrow> b < 257 \<longrightarrow> hist l m' b = offset (hist l m) b \<and> el (ms_end_offsets m') b = offset (hist l m) (b + 1)))"
proof -
  let ?S = "offset (hist l m)"
  define I where "I = (\<lambda>i (acc, m'). acc = ?S i \<and> ms_sized m' \<and> ms_sorter m' = ms_sorter m \<and> ms_max_length m' = ms_max_length m \<and>
    (\<forall>b. 0 \<le> b \<longrightarrow> b < i \<longrightarrow> hist l m' b = ?S b \<and> el (ms_end_offsets m') b = ?S (b + 1)) \<and> (\<forall>b. i \<le> b \<longrightarrow> hist l m' b = hist l m b))"
  let ?f = "\<lambda>i (accum, m). run_bind (hist_get l i m) (\<lambda>count. run_bind (hist_set l i accum m) (\<lambda>m1.
       run_bind (vec_set (ms_end_offsets m1) i (accum + count)) (\<lambda>e. Some (Inr (accum + count, m1\<lparr>ms_end_offsets := e\<rparr>)))))"
  have "returns (for_range 257 0 ?f (0, m)) (I (0 + int 257))"
  proof (rule for_range_ok)
    show "I 0 (0, m)" using sz by (simp add: I_def)
    fix i w assume i: "0 \<le> i" "i < 0 + int 257" and w: "I i w"
    obtain acc m1 where w': "w = (acc, m1)" by (cases w)
    have m1: "acc = ?S i" "ms_sized m1" "ms_sorter m1 = ms_sorter m" "ms_max_length m1 = ms_max_length m"
      "\<And>b. 0 \<le> b \<Longrightarrow> b < i \<Longrightarrow> hist l m1 b = ?S b \<and> el (ms_end_offsets m1) b = ?S (b + 1)" "\<And>b. i \<le> b \<Longrightarrow> hist l m1 b = hist l m b"
      using w w' by (auto simp: I_def)
    have i': "i < 257" and e: "length (ms_end_offsets m1) = 257" using i m1(2) by (auto simp: ms_sized_def)
    define m2 where "m2 = (hist_upd l i acc m1)\<lparr>ms_end_offsets := (ms_end_offsets m1)[nat i := acc + hist l m1 i]\<rparr>"
    have run: "?f i w = Some (Inr (acc + hist l m1 i, m2))"
      using w' i(1) i' e by (simp add: hist_get_ok [OF m1(2) l] hist_set_ok [OF m1(2) l] m2_def)
    have h2: "hist l m2 b = (if b = i then acc else hist l m1 b)" if "0 \<le> b" for b
      using hist_upd_at [OF m1(2) l i(1) i' that, of acc] by (simp add: m2_def hist_def)
    have e2: "el (ms_end_offsets m2) b = (if b = i then acc + hist l m1 i else el (ms_end_offsets m1) b)" if "0 \<le> b" for b
      using i(1) i' e that by (simp add: m2_def el_update)
    have "ms_sized m2" using ms_sized_upd [OF m1(2) l, of i acc] e by (simp add: m2_def ms_sized_def)
    then have "I (i + 1) (acc + hist l m1 i, m2)"
      using m1 h2 e2 i(1) offset_Suc [OF i(1), of "hist l m"] by (auto simp: I_def m2_def)
    then show "returns (?f i w) (I (i + 1))" using run by simp
  qed
  then have "returns (run_bind (for_range 257 0 ?f (0, m)) (\<lambda>(_, m1). Some (Inr m1))) (\<lambda>m'. ms_sized m' \<and> ms_sorter m' = ms_sorter m \<and>
      ms_max_length m' = ms_max_length m \<and> (\<forall>b. 0 \<le> b \<longrightarrow> b < 257 \<longrightarrow> hist l m' b = ?S b \<and> el (ms_end_offsets m') b = ?S (b + 1)))"
    by (rule returns_bind) (auto simp: I_def)
  then show ?thesis by (simp add: sum_histogram_def MSB_HISTOGRAM_SIZE_def)
qed

context string_sorter
begin

lemma cnt_perm:
  assumes "perm_in lo hi (elems (ms_sorter m)) (elems (ms_sorter m'))" "0 \<le> lo" "hi \<le> int (length (elems (ms_sorter m)))"
  shows "cnt k b lo hi m' = cnt k b lo hi m"
  using perm_in_card [OF assms, of "\<lambda>x. code k (str x) + 1 = b"] by (simp add: cnt_def s_at_def)

text \<open>
  The state of the distribution: each bucket \<open>b\<close> owns the positions from \<open>offset c b\<close> to
  \<open>offset c (b + 1)\<close>, and has been filled up to its entry in the histogram.
\<close>

definition filling :: "int \<Rightarrow> int \<Rightarrow> int \<Rightarrow> int \<Rightarrow> (int \<Rightarrow> int) \<Rightarrow> 't msb_radix_sorter \<Rightarrow> bool" where
  "filling lo hi k l c m \<longleftrightarrow> ms_ok lo hi m \<and> offset c 257 = hi - lo \<and> (\<forall>b. c b = cnt k b lo hi m) \<and>
     (\<forall>b. 0 \<le> b \<longrightarrow> b < 257 \<longrightarrow> offset c b \<le> hist l m b \<and> hist l m b \<le> offset c (b + 1) \<and>
       (\<forall>p. offset c b \<le> p \<longrightarrow> p < hist l m b \<longrightarrow> code k (s_at m (lo + p)) + 1 = b))"

definition refilled :: "int \<Rightarrow> int \<Rightarrow> int \<Rightarrow> 't msb_radix_sorter \<Rightarrow> 't msb_radix_sorter \<Rightarrow> bool" where
  "refilled lo hi l m m' \<longleftrightarrow> perm_in lo hi (elems (ms_sorter m)) (elems (ms_sorter m')) \<and> ms_max_length m' = ms_max_length m \<and>
     ms_end_offsets m' = ms_end_offsets m \<and> (\<forall>b. 0 \<le> b \<longrightarrow> b < 257 \<longrightarrow> hist l m b \<le> hist l m' b)"

lemma refilled_refl: "refilled lo hi l m m"
  by (simp add: refilled_def)

lemma refilled_trans: "refilled lo hi l m m1 \<Longrightarrow> refilled lo hi l m1 m2 \<Longrightarrow> refilled lo hi l m m2"
  unfolding refilled_def by (auto intro: perm_in_trans order_trans)

lemma filling_room:
  assumes f: "filling lo hi k l c m" and i: "0 \<le> i" "i < 257" and h: "hist l m i < offset c (i + 1)"
    and b: "b = code k (s_at m (lo + hist l m i)) + 1"
  shows "hist l m b < offset c (b + 1)"
proof -
  have b': "0 \<le> b" "b < 257" using b bucket_bounds by auto
  have c: "\<And>j. 0 \<le> c j" "c b = cnt k b lo hi m" using f by (auto simp: filling_def cnt_def)
  have fb: "offset c b \<le> hist l m b" "hist l m b \<le> offset c (b + 1)" "\<And>p. offset c b \<le> p \<Longrightarrow> p < hist l m b \<Longrightarrow> code k (s_at m (lo + p)) + 1 = b"
    and fi: "offset c i \<le> hist l m i" using f b' i by (auto simp: filling_def)
  have tot: "offset c (b' + 1) \<le> hi - lo" if "b' < 257" for b' using offset_mono [of c "b' + 1" 257] c(1) f that by (simp add: filling_def)
  have new: "\<not> (offset c b \<le> hist l m i \<and> hist l m i < hist l m b)"
    using region_unique [OF c(1) fi h, of b] fb(2) by auto
  have lo0: "0 \<le> offset c j" if "0 \<le> j" for j using offset_mono [of c 0 j] c(1) that by simp
  let ?A = "(\<lambda>p. lo + p) ` {offset c b..<hist l m b}"
  have "?A \<subseteq> {p \<in> {lo..<hi}. code k (s_at m p) + 1 = b}"
  proof (rule image_subsetI)
    fix p assume p: "p \<in> {offset c b..<hist l m b}"
    then show "lo + p \<in> {p \<in> {lo..<hi}. code k (s_at m p) + 1 = b}"
      using fb(3) [of p] fb(2) tot [OF b'(2)] lo0 [OF b'(1)] by simp
  qed
  moreover have "lo + hist l m i \<in> {p \<in> {lo..<hi}. code k (s_at m p) + 1 = b}"
    using fi h tot [OF i(2)] lo0 [OF i(1)] by (simp add: b)
  ultimately have "insert (lo + hist l m i) ?A \<subseteq> {p \<in> {lo..<hi}. code k (s_at m p) + 1 = b}" by blast
  then have "card (insert (lo + hist l m i) ?A) \<le> card {p \<in> {lo..<hi}. code k (s_at m p) + 1 = b}"
    by (rule card_mono [rotated]) (rule finite_Collect_conjI, simp)
  moreover have "lo + hist l m i \<notin> ?A" using new by auto
  moreover have "card ?A = nat (hist l m b - offset c b)" by (simp add: card_image)
  ultimately have "hist l m b - offset c b + 1 \<le> c b" using fb(1) c(2) by (simp add: cnt_def)
  then show ?thesis using offset_Suc [OF b'(1), of c] by simp
qed

lemma filling_step:
  assumes f: "filling lo hi k l c m" and l: "0 \<le> l" "l < 8" and i: "0 \<le> i" "i < 257" and h: "hist l m i < offset c (i + 1)"
    and b: "b = code k (s_at m (lo + hist l m i)) + 1" and m1: "m1 = hist_upd l b (hist l m b + 1) m"
    and t: "invar t" "elems t = swapped (lo + hist l m i) (lo + hist l m b) (elems (ms_sorter m))"
  shows "filling lo hi k l c (m1\<lparr>ms_sorter := t\<rparr>)" and "refilled lo hi l m (m1\<lparr>ms_sorter := t\<rparr>)"
    and "\<And>j. 0 \<le> j \<Longrightarrow> hist l (m1\<lparr>ms_sorter := t\<rparr>) j = (if j = b then hist l m b + 1 else hist l m j)"
proof -
  define m2 where "m2 = m1\<lparr>ms_sorter := t\<rparr>"
  have b': "0 \<le> b" "b < 257" using b bucket_bounds by auto
  have ok: "ms_ok lo hi m" and sz: "ms_sized m" and c: "\<And>j. 0 \<le> c j" and tot: "offset c 257 = hi - lo"
    using f by (auto simp: filling_def ms_ok_def cnt_def)
  have fj: "offset c j \<le> hist l m j" "hist l m j \<le> offset c (j + 1)" "\<And>p. offset c j \<le> p \<Longrightarrow> p < hist l m j \<Longrightarrow> code k (s_at m (lo + p)) + 1 = j"
    if "0 \<le> j" "j < 257" for j using f that by (auto simp: filling_def)
  have room: "hist l m b < offset c (b + 1)" by (rule filling_room [OF f i h b])
  have lo0: "0 \<le> offset c j" if "0 \<le> j" for j using offset_mono [of c 0 j] c that by simp
  have hi0: "offset c (j + 1) \<le> hi - lo" if "j < 257" for j using offset_mono [of c "j + 1" 257] c tot that by simp
  have ix: "0 \<le> lo" "lo \<le> lo + hist l m i" "lo + hist l m i < hi" "lo \<le> lo + hist l m b" "lo + hist l m b < hi" "hi \<le> int (length (elems (ms_sorter m)))"
    using ok fj(1) [OF i] fj(1) [OF b'] lo0 [OF i(1)] lo0 [OF b'(1)] h room hi0 [OF i(2)] hi0 [OF b'(2)] by (auto simp: ms_ok_def)
  have perm: "perm_in lo hi (elems (ms_sorter m)) (elems t)" unfolding t(2) by (rule perm_in_swapped [OF ix(1,6,2,3,4,5)])
  have at: "s_at m2 p = (if p = lo + hist l m b then s_at m (lo + hist l m i) else if p = lo + hist l m i then s_at m (lo + hist l m b) else s_at m p)"
    if "0 \<le> p" for p using el_swapped [of "lo + hist l m i" "elems (ms_sorter m)" "lo + hist l m b" p] ix that by (simp add: m2_def s_at_def t(2))
  show hs: "hist l (m1\<lparr>ms_sorter := t\<rparr>) j = (if j = b then hist l m b + 1 else hist l m j)" if "0 \<le> j" for j
    using hist_upd_at [OF sz l b' that, of "hist l m b + 1"] by (simp add: m1 hist_def)
  show "refilled lo hi l m (m1\<lparr>ms_sorter := t\<rparr>)" using perm hs by (auto simp: refilled_def m1)
  have sz2: "ms_sized m2" using ms_sized_upd [OF sz l, of b "hist l m b + 1"] by (simp add: m2_def m1 ms_sized_def)
  have ok2: "ms_ok lo hi m2" using ok t(1) perm_in_length [OF perm] sz2 by (simp add: ms_ok_def m2_def)
  have "code k (s_at m2 (lo + p)) + 1 = j" if j: "0 \<le> j" "j < 257" and p: "offset c j \<le> p" "p < hist l m2 j" for j p
  proof (cases "p = hist l m b")
    case True
    then have "j = b" using region_unique [of c j p b] c fj(1) [OF b'] room p fj(2) [OF j] hs [OF j(1)] by (auto simp: m2_def split: if_splits)
    then show ?thesis using True at [of "lo + p"] ix b by simp
  next
    case False
    then have p': "p < hist l m j" using p(2) hs [OF j(1)] by (auto simp: m2_def split: if_splits)
    then have "p \<noteq> hist l m i" using region_unique [of c j p i] c fj(1) [OF i] h p(1) fj(2) [OF j] by auto
    then have "s_at m2 (lo + p) = s_at m (lo + p)" using False at [of "lo + p"] ix(1) p(1) lo0 [OF j(1)] by simp
    then show ?thesis using fj(3) [OF j p(1) p'] by simp
  qed
  moreover have "offset c j \<le> hist l m2 j \<and> hist l m2 j \<le> offset c (j + 1)" if "0 \<le> j" "j < 257" for j
    using fj [OF that] room hs [OF that(1)] by (auto simp: m2_def)
  moreover have "c j = cnt k j lo hi m2" for j
    using f cnt_perm [of lo hi m m2 k j] perm ix by (simp add: filling_def m2_def)
  ultimately show "filling lo hi k l c (m1\<lparr>ms_sorter := t\<rparr>)"
    using ok2 tot unfolding filling_def m2_def [symmetric] by blast
qed

definition unfilled :: "int \<Rightarrow> (int \<Rightarrow> int) \<Rightarrow> 't msb_radix_sorter \<Rightarrow> int" where
  "unfilled l c m = (\<Sum>b\<in>{0..<257}. offset c (b + 1) - hist l m b)"

lemma unfilled_nonneg: "filling lo hi k l c m \<Longrightarrow> 0 \<le> unfilled l c m"
  unfolding unfilled_def by (rule sum_nonneg) (auto simp: filling_def)

lemma unfilled_step:
  assumes "0 \<le> b" "b < 257" "\<And>j. 0 \<le> j \<Longrightarrow> hist l m2 j = (if j = b then hist l m b + 1 else hist l m j)"
  shows "unfilled l c m2 = unfilled l c m - 1"
proof -
  have "unfilled l c m2 = (\<Sum>j\<in>{0..<257}. (offset c (j + 1) - hist l m j) - (if j = b then 1 else 0))"
    unfolding unfilled_def by (rule sum.cong) (auto simp: assms(3))
  also have "\<dots> = unfilled l c m - (\<Sum>j\<in>{0..<257}. if j = b then 1 else 0)" by (simp add: sum_subtractf unfilled_def)
  also have "(\<Sum>j\<in>{0..<257::int}. if j = b then 1 else 0 :: int) = 1" using assms(1,2) by simp
  finally show ?thesis .
qed

lemma reorder_loop_ok:
  assumes "filling lo hi k l c m" "0 \<le> k" "0 \<le> l" "l < 8" "0 \<le> i" "i < 257"
  shows "returns (reorder_loop M lo k l i (offset c (i + 1)) (hist l m i) m)
    (\<lambda>m'. filling lo hi k l c m' \<and> refilled lo hi l m m' \<and> hist l m' i = offset c (i + 1))"
  using assms
proof (induction "nat (unfilled l c m)" arbitrary: m rule: less_induct)
  case less
  note f = less.prems(1) and kl = less.prems(2-4) and i = less.prems(5,6)
  show ?case
  proof (cases "hist l m i < offset c (i + 1)")
    case False
    then have "hist l m i = offset c (i + 1)" using f i by (force simp: filling_def)
    then show ?thesis using False f by (subst reorder_loop.simps) (simp add: refilled_refl)
  next
    case True
    define b where "b = code k (s_at m (lo + hist l m i)) + 1"
    have b': "0 \<le> b" "b < 257" using bucket_bounds by (auto simp: b_def)
    define m1 where "m1 = hist_upd l b (hist l m b + 1) m"
    have ok: "ms_ok lo hi m" "ms_sized m" "invar (ms_sorter m)" using f by (auto simp: filling_def ms_ok_def)
    have c: "0 \<le> c j" for j using f by (simp add: filling_def cnt_def)
    have room: "hist l m b < offset c (b + 1)" by (rule filling_room [OF f i True b_def])
    have pos: "0 \<le> hist l m j" "offset c (j + 1) \<le> hi - lo" if "0 \<le> j" "j < 257" for j
      using f that offset_mono [of c 0 j] offset_mono [of c "j + 1" 257] c by (force simp: filling_def)+
    have ix: "0 \<le> lo" "lo + hist l m i < hi" "lo + hist l m b < hi" "hi \<le> int (length (elems (ms_sorter m)))"
      using ok(1) True room pos [OF i] pos [OF b'] by (auto simp: ms_ok_def)
    have run: "reorder_loop M lo k l i (offset c (i + 1)) (hist l m i) m =
      run_bind (mo_swap M (lo + hist l m i) (lo + hist l m b) (ms_sorter m)) (\<lambda>t.
        run_bind (hist_get l i (m1\<lparr>ms_sorter := t\<rparr>)) (\<lambda>h3. reorder_loop M lo k l i (offset c (i + 1)) h3 (m1\<lparr>ms_sorter := t\<rparr>)))"
      using True get_bucket_eq [OF ok(1), of "lo + hist l m i" k] pos(1) [OF i] ix kl(1) hist_get_ok [OF ok(2) kl(2,3) b'] hist_set_ok [OF ok(2) kl(2,3) b']
      by (subst reorder_loop.simps) (simp add: b_def [symmetric] m1_def)
    have "returns (mo_swap M (lo + hist l m i) (lo + hist l m b) (ms_sorter m))
        (\<lambda>t. invar t \<and> elems t = swapped (lo + hist l m i) (lo + hist l m b) (elems (ms_sorter m)))"
      using ok(1,3) ix pos(1) [OF i] pos(1) [OF b'] by (intro swap_ok) (auto simp: ms_ok_def)
    then show ?thesis
      unfolding run
    proof (rule returns_bind)
      fix t assume t: "invar t \<and> elems t = swapped (lo + hist l m i) (lo + hist l m b) (elems (ms_sorter m))"
      let ?m = "m1\<lparr>ms_sorter := t\<rparr>"
      note st = filling_step [OF f kl(2,3) i True b_def m1_def conjunct1 [OF t] conjunct2 [OF t]]
      have sz2: "ms_sized ?m" using st(1) by (simp add: filling_def ms_ok_def)
      have u: "unfilled l c ?m = unfilled l c m - 1" by (rule unfilled_step [OF b' st(3)])
      then have "nat (unfilled l c ?m) < nat (unfilled l c m)" using unfilled_nonneg [OF st(1)] by simp
      then have "returns (reorder_loop M lo k l i (offset c (i + 1)) (hist l ?m i) ?m)
          (\<lambda>m'. filling lo hi k l c m' \<and> refilled lo hi l ?m m' \<and> hist l m' i = offset c (i + 1))"
        by (rule less.hyps [OF _ st(1) kl i])
      then show "returns (run_bind (hist_get l i ?m) (\<lambda>h3. reorder_loop M lo k l i (offset c (i + 1)) h3 ?m))
          (\<lambda>m'. filling lo hi k l c m' \<and> refilled lo hi l m m' \<and> hist l m' i = offset c (i + 1))"
        unfolding hist_get_ok [OF sz2 kl(2,3) i] run_bind_simps by (rule returns_mono) (use refilled_trans [OF st(2)] in blast)
    qed
  qed
qed

lemma reorder_ok:
  assumes f: "filling lo hi k l c m" and kl: "0 \<le> k" "0 \<le> l" "l < 8"
    and e: "\<And>b. 0 \<le> b \<Longrightarrow> b < 257 \<Longrightarrow> el (ms_end_offsets m) b = offset c (b + 1)"
  shows "returns (reorder M lo k l m) (\<lambda>m'. filling lo hi k l c m' \<and> refilled lo hi l m m' \<and>
    (\<forall>b. 0 \<le> b \<longrightarrow> b < 257 \<longrightarrow> hist l m' b = offset c (b + 1)))"
proof -
  define I where "I = (\<lambda>i m'. filling lo hi k l c m' \<and> refilled lo hi l m m' \<and> (\<forall>b. 0 \<le> b \<longrightarrow> b < i \<longrightarrow> hist l m' b = offset c (b + 1)))"
  have "returns (for_range 257 0 (\<lambda>i m. run_bind (vec_get (ms_end_offsets m) i) (\<lambda>limit.
       run_bind (hist_get l i m) (\<lambda>h1. reorder_loop M lo k l i limit h1 m))) m) (I (0 + int 257))"
  proof (rule for_range_ok)
    show "I 0 m" using f by (simp add: I_def refilled_refl)
    fix i m1 assume i: "0 \<le> i" "i < 0 + int 257" and I: "I i m1"
    then have m1: "filling lo hi k l c m1" "refilled lo hi l m m1" "\<And>b. 0 \<le> b \<Longrightarrow> b < i \<Longrightarrow> hist l m1 b = offset c (b + 1)"
      and i': "i < 257" by (auto simp: I_def)
    have sz: "ms_sized m1" and len: "length (ms_end_offsets m1) = 257" using m1(1) by (auto simp: filling_def ms_ok_def ms_sized_def)
    have eo: "vec_get (ms_end_offsets m1) i = Some (Inr (offset c (i + 1)))" using i(1) i' len e m1(2) by (simp add: refilled_def)
    have "returns (reorder_loop M lo k l i (offset c (i + 1)) (hist l m1 i) m1) (I (i + 1))"
    proof (rule returns_mono [OF reorder_loop_ok [OF m1(1) kl i(1) i']])
      fix m2 assume m2: "filling lo hi k l c m2 \<and> refilled lo hi l m1 m2 \<and> hist l m2 i = offset c (i + 1)"
      have "hist l m2 b = offset c (b + 1)" if b: "0 \<le> b" "b < i + 1" for b
      proof (cases "b = i")
        case False
        then have "hist l m2 b \<le> offset c (b + 1)" "hist l m1 b \<le> hist l m2 b" "hist l m1 b = offset c (b + 1)"
          using m2 m1(3) b i' by (auto simp: filling_def refilled_def)
        then show ?thesis by simp
      qed (use m2 in simp)
      then show "I (i + 1) m2" using m2 refilled_trans [OF m1(2)] by (simp add: I_def)
    qed
    then show "returns (run_bind (vec_get (ms_end_offsets m1) i) (\<lambda>limit. run_bind (hist_get l i m1) (\<lambda>h1. reorder_loop M lo k l i limit h1 m1))) (I (i + 1))"
      unfolding eo run_bind_simps hist_get_ok [OF sz kl(2,3) i(1) i'] .
  qed
  then show ?thesis by (simp add: reorder_def MSB_HISTOGRAM_SIZE_def I_def)
qed

end

section \<open>The radix sort sorts\<close>

lemma drop_code:
  assumes "0 \<le> k" "\<not> int (length x) \<le> k"
  shows "drop (nat k) x = (x ! nat k) # drop (nat (k + 1)) x" "code k x = uint (x ! nat k)"
  using assms Cons_nth_drop_Suc [of "nat k" x] by (auto simp: code_def nat_add_distrib)

lemma code_less_drop:
  assumes "0 \<le> k" "k \<le> int (length x)" "k \<le> int (length y)" "code k x < code k y"
  shows "drop (nat k) x \<le> drop (nat k) y"
proof (cases "int (length x) \<le> k")
  case False
  then have "\<not> int (length y) \<le> k" using assms(4) code_bounds(1) [of k x] by (auto simp: code_def)
  then show ?thesis using drop_code [OF assms(1) False] drop_code [OF assms(1), of y] assms(4) by (simp add: word_less_def)
qed simp

lemma code_eq_drop:
  assumes "0 \<le> k" "code k x = code k y" "drop (nat (k + 1)) x \<le> drop (nat (k + 1)) y"
  shows "drop (nat k) x \<le> drop (nat k) y"
proof (cases "int (length x) \<le> k")
  case False
  then have y: "\<not> int (length y) \<le> k" using assms(2) drop_code(2) [OF assms(1) False] by (auto simp: code_def split: if_splits)
  have "x ! nat k = y ! nat k" using drop_code(2) [OF assms(1) False] drop_code(2) [OF assms(1) y] assms(2) by (simp add: word_uint_eq_iff)
  then show ?thesis using drop_code(1) [OF assms(1) False] drop_code(1) [OF assms(1) y] assms(3) by simp
qed simp

lemma codes_eq_drop:
  assumes "0 \<le> k" "\<And>q. 0 \<le> q \<Longrightarrow> q < int n \<Longrightarrow> code (k + q) x = code (k + q) y" "drop (nat (k + int n)) x \<le> drop (nat (k + int n)) y"
  shows "drop (nat k) x \<le> drop (nat k) y"
  using assms
proof (induction n arbitrary: k)
  case 0
  then show ?case by simp
next
  case (Suc n)
  have c: "code (k + 1 + q) x = code (k + 1 + q) y" if "0 \<le> q" "q < int n" for q
    using Suc.prems(2) [of "q + 1"] that by (simp add: algebra_simps)
  have d: "drop (nat (k + 1 + int n)) x \<le> drop (nat (k + 1 + int n)) y" using Suc.prems(3) by (simp add: algebra_simps)
  have "drop (nat (k + 1)) x \<le> drop (nat (k + 1)) y" by (rule Suc.IH [OF _ c d]) (use Suc.prems(1) in simp)
  then show ?case by (rule code_eq_drop [OF Suc.prems(1)  Suc.prems(2) [of 0, simplified]])
qed

context string_sorter
begin

definition sorted_from :: "int \<Rightarrow> int \<Rightarrow> int \<Rightarrow> 't msb_radix_sorter \<Rightarrow> bool" where
  "sorted_from k lo hi m \<longleftrightarrow> (\<forall>i j. lo \<le> i \<longrightarrow> i \<le> j \<longrightarrow> j < hi \<longrightarrow> drop (nat k) (s_at m i) \<le> drop (nat k) (s_at m j))"

definition strings_ok :: "int \<Rightarrow> int \<Rightarrow> int \<Rightarrow> 't msb_radix_sorter \<Rightarrow> bool" where
  "strings_ok k lo hi m \<longleftrightarrow> (\<forall>p. lo \<le> p \<longrightarrow> p < hi \<longrightarrow> k \<le> int (length (s_at m p)) \<and> int (length (s_at m p)) < ms_max_length m)"

definition permuted :: "int \<Rightarrow> int \<Rightarrow> 't msb_radix_sorter \<Rightarrow> 't msb_radix_sorter \<Rightarrow> bool" where
  "permuted lo hi m m' \<longleftrightarrow> ms_sized m' \<and> invar (ms_sorter m') \<and> ms_max_length m' = ms_max_length m \<and>
     perm_in lo hi (elems (ms_sorter m)) (elems (ms_sorter m'))"

lemma permuted_trans: "permuted lo hi m m1 \<Longrightarrow> permuted lo hi m1 m2 \<Longrightarrow> permuted lo hi m m2"
  unfolding permuted_def by (auto intro: perm_in_trans)

lemma permuted_mono: "permuted a b m m1 \<Longrightarrow> lo \<le> a \<Longrightarrow> b \<le> hi \<Longrightarrow> permuted lo hi m m1"
  unfolding permuted_def by (auto intro: perm_in_mono)

lemma permuted_ok: "permuted a b m m1 \<Longrightarrow> ms_ok lo hi m \<Longrightarrow> ms_ok lo hi m1"
  using perm_in_length unfolding permuted_def ms_ok_def by metis

lemma permuted_outside: "permuted a b m m1 \<Longrightarrow> ms_ok lo hi m \<Longrightarrow> lo \<le> p \<Longrightarrow> p < hi \<Longrightarrow> p < a \<or> b \<le> p \<Longrightarrow> s_at m1 p = s_at m p"
  unfolding permuted_def ms_ok_def s_at_def using perm_in_outside [of a b "elems (ms_sorter m)" "elems (ms_sorter m1)" p] by simp

lemma permuted_all:
  assumes "permuted lo hi m m1" "ms_ok lo hi m" "\<And>p. lo \<le> p \<Longrightarrow> p < hi \<Longrightarrow> P (s_at m p)" "lo \<le> q" "q < hi"
  shows "P (s_at m1 q)"
  using perm_in_all [of lo hi "elems (ms_sorter m)" "elems (ms_sorter m1)" "\<lambda>x. P (str x)" q] assms
  by (simp add: permuted_def ms_ok_def s_at_def)

lemma permuted_strings: "permuted lo hi m m1 \<Longrightarrow> ms_ok lo hi m \<Longrightarrow> strings_ok k lo hi m \<Longrightarrow> strings_ok k lo hi m1"
  unfolding strings_ok_def
  using permuted_all [of lo hi m m1 "\<lambda>x. k \<le> int (length x) \<and> int (length x) < ms_max_length m"] by (auto simp: permuted_def)

lemma same_data_permuted: "same_data m m' \<Longrightarrow> ms_ok lo hi m \<Longrightarrow> permuted a b m m'"
  by (simp add: same_data_def permuted_def ms_ok_def)

lemma ms_ok_sub: "ms_ok lo hi m \<Longrightarrow> lo \<le> a \<Longrightarrow> b \<le> hi \<Longrightarrow> ms_ok a b m"
  by (simp add: ms_ok_def)

text \<open>Sorting the buckets one after the other.\<close>

definition regions :: "int \<Rightarrow> int \<Rightarrow> (int \<Rightarrow> int) \<Rightarrow> 't msb_radix_sorter \<Rightarrow> bool" where
  "regions lo k c m \<longleftrightarrow> (\<forall>b p. 0 \<le> b \<longrightarrow> b < 257 \<longrightarrow> offset c b \<le> p \<longrightarrow> p < offset c (b + 1) \<longrightarrow> code k (s_at m (lo + p)) + 1 = b)"

definition buckets_done :: "int \<Rightarrow> int \<Rightarrow> (int \<Rightarrow> int) \<Rightarrow> int \<Rightarrow> 't msb_radix_sorter \<Rightarrow> bool" where
  "buckets_done lo k c i m \<longleftrightarrow> (\<forall>b. 0 \<le> b \<longrightarrow> b < i \<longrightarrow> sorted_from k (lo + offset c b) (lo + offset c (b + 1)) m)"

lemma buckets_sorted:
  assumes ok: "strings_ok k lo hi m" "0 \<le> k" and c: "\<And>j. 0 \<le> c j" "offset c 257 = hi - lo"
    and r: "regions lo k c m" "buckets_done lo k c 257 m"
  shows "sorted_from k lo hi m"
  unfolding sorted_from_def
proof (intro allI impI)
  fix i j assume ij: "lo \<le> i" "i \<le> j" "j < hi"
  obtain a where a: "0 \<le> a" "a < 257" "offset c a \<le> i - lo" "i - lo < offset c (a + 1)"
    using region_exists [of "i - lo" c 257] ij c(2) by auto
  obtain b where b: "0 \<le> b" "b < 257" "offset c b \<le> j - lo" "j - lo < offset c (b + 1)"
    using region_exists [of "j - lo" c 257] ij c(2) by auto
  have ab: "a \<le> b" using offset_mono [of c "b + 1" a] c(1) a(3) b(4) ij(2) by force
  have ca: "code k (s_at m i) + 1 = a" using r(1) a unfolding regions_def by (metis add_diff_cancel_left' diff_add_cancel add.commute)
  have cb: "code k (s_at m j) + 1 = b" using r(1) b unfolding regions_def by (metis add_diff_cancel_left' diff_add_cancel add.commute)
  show "drop (nat k) (s_at m i) \<le> drop (nat k) (s_at m j)"
  proof (cases "a = b")
    case True
    have "sorted_from k (lo + offset c a) (lo + offset c (a + 1)) m" using r(2) a by (simp add: buckets_done_def)
    then show ?thesis using a b True ij(2) by (auto simp: sorted_from_def)
  next
    case False
    then have "code k (s_at m i) < code k (s_at m j)" using ab ca cb by simp
    then show ?thesis using ok ij by (intro code_less_drop) (auto simp: strings_ok_def)
  qed
qed

lemma region_code:
  assumes "regions lo k c m" "0 \<le> b" "b < 257" "lo + offset c b \<le> p" "p < lo + offset c (b + 1)"
  shows "code k (s_at m p) + 1 = b"
  using assms(1) [unfolded regions_def, rule_format, of b "p - lo"] assms(2-5) by simp

lemma bucket_step:
  assumes ok: "ms_ok lo hi m" and c: "\<And>j. 0 \<le> c j" "offset c 257 = hi - lo" and r: "regions lo k c m" and k: "0 \<le> k"
    and i: "0 \<le> i" "i < 257" and d: "buckets_done lo k c i m"
    and m': "permuted (lo + offset c i) (lo + offset c (i + 1)) m m'" "sorted_from (k + 1) (lo + offset c i) (lo + offset c (i + 1)) m'"
  shows "regions lo k c m'" and "buckets_done lo k c (i + 1) m'"
proof -
  have rng: "0 \<le> offset c b" "offset c b \<le> offset c (b + 1)" "offset c (b + 1) \<le> hi - lo" if "0 \<le> b" "b < 257" for b
    using offset_mono [of c 0 b] offset_mono [of c b "b + 1"] offset_mono [of c "b + 1" 257] c that by auto
  have oki: "ms_ok (lo + offset c i) (lo + offset c (i + 1)) m" using ms_ok_sub [OF ok] rng [OF i] by simp
  have out: "s_at m' p = s_at m p" if "lo \<le> p" "p < hi" "p < lo + offset c i \<or> lo + offset c (i + 1) \<le> p" for p
    using permuted_outside [OF m'(1) ok that] .
  have in_i: "code k (s_at m' p) + 1 = i" if "lo + offset c i \<le> p" "p < lo + offset c (i + 1)" for p
    by (rule permuted_all [where P = "\<lambda>x. code k x + 1 = i", OF m'(1) oki _ that]) (rule region_code [OF r i])
  have reg: "code k (s_at m' (lo + p)) + 1 = b" if b: "0 \<le> b" "b < 257" and p: "offset c b \<le> p" "p < offset c (b + 1)" for b p
  proof (cases "offset c i \<le> p \<and> p < offset c (i + 1)")
    case True
    then have "b = i" using region_unique [of c b p i] c(1) p by simp
    then show ?thesis using in_i [of "lo + p"] True by simp
  next
    case False
    then have "s_at m' (lo + p) = s_at m (lo + p)" using out [of "lo + p"] rng [OF b] p by auto
    then show ?thesis using r b p by (simp add: regions_def)
  qed
  then show "regions lo k c m'" by (simp add: regions_def)
  have "sorted_from k (lo + offset c b) (lo + offset c (b + 1)) m'" if b: "0 \<le> b" "b < i + 1" for b
  proof (cases "b = i")
    case True
    have "drop (nat k) (s_at m' p) \<le> drop (nat k) (s_at m' q)" if pq: "lo + offset c i \<le> p" "p \<le> q" "q < lo + offset c (i + 1)" for p q
    proof (rule code_eq_drop [OF k])
      show "code k (s_at m' p) = code k (s_at m' q)" using in_i [of p] in_i [of q] pq by simp
      show "drop (nat (k + 1)) (s_at m' p) \<le> drop (nat (k + 1)) (s_at m' q)" using m'(2) pq by (simp add: sorted_from_def)
    qed
    then show ?thesis using True by (simp add: sorted_from_def)
  next
    case False
    then have b': "b < i" "b < 257" using b i by auto
    have "offset c (b + 1) \<le> offset c i" using offset_mono [of c "b + 1" i] c(1) b' by simp
    then have "s_at m' p = s_at m p" if "lo + offset c b \<le> p" "p < lo + offset c (b + 1)" for p
      using out [of p] rng [OF b(1) b'(2)] that by simp
    moreover have "sorted_from k (lo + offset c b) (lo + offset c (b + 1)) m" using d b b' by (simp add: buckets_done_def)
    ultimately show ?thesis by (simp add: sorted_from_def)
  qed
  then show "buckets_done lo k c (i + 1) m'" by (simp add: buckets_done_def)
qed

lemma cnt_total:
  assumes "lo \<le> hi"
  shows "offset (\<lambda>b. cnt k b lo hi m) 257 = hi - lo"
proof -
  have "cnt k b lo hi m = (\<Sum>p\<in>{lo..<hi}. if code k (s_at m p) + 1 = b then 1 else 0)" for b
    unfolding cnt_def by (subst sum.inter_filter [symmetric]) simp_all
  then have "offset (\<lambda>b. cnt k b lo hi m) 257 = (\<Sum>b\<in>{0..<257}. \<Sum>p\<in>{lo..<hi}. if code k (s_at m p) + 1 = b then 1 else 0)"
    unfolding offset_def by (simp only:)
  also have "\<dots> = (\<Sum>p\<in>{lo..<hi}. \<Sum>b\<in>{0..<257}. if code k (s_at m p) + 1 = b then 1 else 0)" by (rule sum.swap)
  also have "\<dots> = (\<Sum>p\<in>{lo..<hi}. 1)"
    using bucket_bounds by (intro sum.cong) auto
  finally show ?thesis using assms by simp
qed

lemma reset_histogram:
  assumes "ms_sized m" "0 \<le> l" "l < 8" and m0: "m0 = m\<lparr>ms_histograms := (ms_histograms m)[nat l := replicate 257 0]\<rparr>"
  shows "same_data m m0" and "0 \<le> b \<Longrightarrow> b < 257 \<Longrightarrow> hist l m0 b = 0"
proof -
  show "same_data m m0"
    using assms set_update_subset_insert [of "ms_histograms m" "nat l" "replicate 257 0"] by (auto simp: same_data_def ms_sized_def)
  show "hist l m0 b = 0" if "0 \<le> b" "b < 257" using assms that by (simp add: hist_def el_update ms_sized_def) (simp add: el_def)
qed

text \<open>The start of \<open>radix_sort\<close>, up to the decision between skipping a prefix and distributing.\<close>

lemma radix_start:
  assumes ok: "ms_ok lo hi m" and r: "lo < hi" and kl: "0 \<le> k" "0 \<le> l" "l < 8" "k < ms_max_length m"
    and next1: "\<And>len m1. prefix_post lo hi k l m (len, m1) \<Longrightarrow> returns (
       if 0 < len
       then run_bind (hist_get l 0 m1) (\<lambda>h0.
              if k + len < ms_max_length m1 \<and> h0 < hi - lo then radix_sort M lo hi (k + len) l m1 else Some (Inr m1))
       else run_bind (assert_histogram len l m1) (\<lambda>_.
            run_bind (sum_histogram l m1) (\<lambda>m2.
            run_bind (reorder M lo k l m2) (\<lambda>m3.
            run_bind (vec_get (ms_histograms m3) l) (\<lambda>end_offsets.
              if k + 1 < ms_max_length m3
              then run_bind (vec_get end_offsets 0) (\<lambda>prev0.
                   run_bind (for_range (nat (MSB_HISTOGRAM_SIZE - 1)) 1 (\<lambda>i (prev, m).
                     run_bind (vec_get end_offsets i) (\<lambda>h.
                     run_bind (if 1 < h - prev
                               then if (lo + h) - (lo + prev) \<le> LENGTH_THRESHOLD \<or> LEVEL_THRESHOLD \<le> l + 1
                                    then fallback_range M (lo + prev) (lo + h) (k + 1) m
                                    else radix_sort M (lo + prev) (lo + h) (k + 1) (l + 1) m
                               else Some (Inr m)) (\<lambda>m'. Some (Inr (h, m'))))) (prev0, m3)) (\<lambda>(_, m4). Some (Inr m4)))
              else Some (Inr m3)))))) Q"
  shows "returns (radix_sort M lo hi k l m) Q"
proof -
  define m0 where "m0 = m\<lparr>ms_histograms := (ms_histograms m)[nat l := replicate 257 0]\<rparr>"
  have sz: "ms_sized m" "length (ms_histograms m) = 8" using ok by (auto simp: ms_ok_def ms_sized_def)
  note rs = reset_histogram [OF sz(1) kl(2,3) m0_def]
  have ok0: "ms_ok lo hi m0" and at0: "s_at m0 = s_at m" and ml: "ms_max_length m0 = ms_max_length m"
    using same_data_ok [OF rs(1) ok] same_data_at [OF rs(1)] rs(1) by (auto simp: same_data_def)
  have pp: "prefix_post lo hi k l m w" if "prefix_post lo hi k l m0 w" for w
    using that same_data_trans [OF rs(1)] unfolding prefix_post_def agree_def cnt_def at0 by (auto split: if_splits)
  have set: "vec_set (ms_histograms m) l (replicate (nat MSB_HISTOGRAM_SIZE) 0) = Some (Inr ((ms_histograms m)[nat l := replicate 257 0]))"
    using kl sz(2) by (simp add: MSB_HISTOGRAM_SIZE_def)
  have "returns (compute_common_prefix_length_and_build_histogram M lo hi k l m0) (prefix_post lo hi k l m0)"
    using kl ml by (intro compute_ok [OF ok0 r] rs(2)) auto
  then show ?thesis
    unfolding radix_sort.simps [of M lo hi k l m] set run_bind_simps m0_def [symmetric]
  proof (rule returns_bind, goal_cases)
    case (1 w)
    obtain len m1 where w: "w = (len, m1)" by (cases w)
    then show ?case unfolding w prod.case by (intro next1 pp) (use 1 w in simp)
  qed
qed

lemma radix_ended:
  assumes ok: "ms_ok lo hi m" and r: "lo < hi" and kl: "0 \<le> k" "0 \<le> l" "l < 8" "k < ms_max_length m"
    and e: "\<And>p. lo \<le> p \<Longrightarrow> p < hi \<Longrightarrow> int (length (s_at m p)) \<le> k"
  shows "returns (radix_sort M lo hi k l m) (same_data m)"
proof (rule radix_start [OF ok r kl], goal_cases)
  case (1 len m1)
  have c: "code k (s_at m p) = - 1" if "lo \<le> p" "p < hi" for p using e [OF that] by (simp add: code_def)
  then have len: "0 < len" "same_data m m1" "hist l m1 0 = hi - lo" using 1 r by (auto simp: prefix_post_def split: if_splits)
  have "ms_sized m1" using len(2) by (simp add: same_data_def)
  then show ?case using len hist_get_ok [of m1 l 0] kl by simp
qed

definition distributed :: "int \<Rightarrow> int \<Rightarrow> int \<Rightarrow> int \<Rightarrow> 't msb_radix_sorter \<Rightarrow> (int \<Rightarrow> int) \<Rightarrow> 't msb_radix_sorter \<Rightarrow> bool" where
  "distributed lo hi k l m c m3 \<longleftrightarrow> permuted lo hi m m3 \<and> (\<forall>j. 0 \<le> c j) \<and> offset c 257 = hi - lo \<and> regions lo k c m3 \<and>
     (\<forall>b. 0 \<le> b \<longrightarrow> b < 257 \<longrightarrow> hist l m3 b = offset c (b + 1))"

lemma assert_histogram_ok:
  assumes sz: "ms_sized m1" and l: "0 \<le> l" "l < 8" and h: "\<And>b. 0 \<le> b \<Longrightarrow> b < 257 \<Longrightarrow> hist l m1 b = cnt k b lo hi m"
    and p: "lo \<le> p" "p < hi" "code k (s_at m p) \<noteq> code k (s_at m lo)"
  shows "assert_histogram 0 l m1 = Some (Inr ())"
proof -
  let ?row = "el (ms_histograms m1) l"
  have pos: "0 < ?row ! nat (code k (s_at m q) + 1)" if "lo \<le> q" "q < hi" for q
  proof -
    have "finite {p \<in> {lo..<hi}. code k (s_at m p) + 1 = code k (s_at m q) + 1}" by (rule finite_Collect_conjI) simp
    moreover have "q \<in> {p \<in> {lo..<hi}. code k (s_at m p) + 1 = code k (s_at m q) + 1}" using that by simp
    ultimately have "0 < cnt k (code k (s_at m q) + 1) lo hi m" unfolding cnt_def by (metis card_gt_0_iff empty_iff of_nat_0_less_iff)
    then show ?thesis using h [OF bucket_bounds, of k "s_at m q"] by (simp add: hist_def el_def)
  qed
  have row: "length ?row = 257" by (rule ms_sized_row [OF sz l])
  have lt: "nat (code k x + 1) < 257" for x using bucket_bounds [of k x] by simp
  have "nat (code k (s_at m p) + 1) \<noteq> nat (code k (s_at m lo) + 1)" using p(3) bucket_bounds by (metis add_right_cancel eq_nat_nat_iff)
  then have "length (filter (\<lambda>freq. 0 < freq) ?row) \<noteq> 1"
    using p(1,2) by (intro filter_two [of "nat (code k (s_at m p) + 1)" "nat (code k (s_at m lo) + 1)"] pos) (simp_all add: row lt)
  then show ?thesis using l sz by (simp add: assert_histogram_def ms_sized_def)
qed

lemma distribute_ok:
  assumes ok: "ms_ok lo hi m" and r: "lo < hi" and kl: "0 \<le> k" "0 \<le> l" "l < 8" and pp: "prefix_post lo hi k l m (0, m1)"
  shows "assert_histogram 0 l m1 = Some (Inr ())"
    and "returns (run_bind (sum_histogram l m1) (reorder M lo k l)) (\<lambda>m3. \<exists>c. distributed lo hi k l m c m3)"
proof -
  define c where "c = (\<lambda>b. cnt k b lo hi m)"
  have sd: "same_data m m1" and h: "\<And>b. 0 \<le> b \<Longrightarrow> b < 257 \<Longrightarrow> hist l m1 b = c b"
    and ex: "\<exists>p. lo \<le> p \<and> p < hi \<and> code k (s_at m p) \<noteq> code k (s_at m lo)" using pp by (auto simp: prefix_post_def c_def)
  have sz1: "ms_sized m1" using sd by (simp add: same_data_def)
  show "assert_histogram 0 l m1 = Some (Inr ())" using ex assert_histogram_ok [OF sz1 kl(2,3) h [unfolded c_def]] by blast
  have off: "offset (hist l m1) b = offset c b" if "b \<le> 257" for b
    unfolding offset_def by (rule sum.cong) (use h that in auto)
  have c: "\<And>j. 0 \<le> c j" "offset c 257 = hi - lo" using cnt_total [of lo hi k m] r by (simp_all add: c_def cnt_def)
  show "returns (run_bind (sum_histogram l m1) (reorder M lo k l)) (\<lambda>m3. \<exists>c. distributed lo hi k l m c m3)"
  proof (rule returns_bind [OF sum_histogram_ok [OF sz1 kl(2,3)]])
    fix m2 assume m2: "ms_sized m2 \<and> ms_sorter m2 = ms_sorter m1 \<and> ms_max_length m2 = ms_max_length m1 \<and>
      (\<forall>b. 0 \<le> b \<longrightarrow> b < 257 \<longrightarrow> hist l m2 b = offset (hist l m1) b \<and> el (ms_end_offsets m2) b = offset (hist l m1) (b + 1))"
    then have sd2: "same_data m m2" using sd by (simp add: same_data_def)
    have ok2: "ms_ok lo hi m2" and at2: "s_at m2 = s_at m" using same_data_ok [OF sd2 ok] same_data_at [OF sd2] by auto
    have "filling lo hi k l c m2"
      using ok2 c m2 off offset_mono [of c] by (auto simp: filling_def c_def cnt_def at2)
    then have "returns (reorder M lo k l m2) (\<lambda>m3. filling lo hi k l c m3 \<and> refilled lo hi l m2 m3 \<and>
        (\<forall>b. 0 \<le> b \<longrightarrow> b < 257 \<longrightarrow> hist l m3 b = offset c (b + 1)))"
      using kl m2 off by (intro reorder_ok) auto
    then show "returns (reorder M lo k l m2) (\<lambda>m3. \<exists>c. distributed lo hi k l m c m3)"
    proof (rule returns_mono)
      fix m3 assume m3: "filling lo hi k l c m3 \<and> refilled lo hi l m2 m3 \<and> (\<forall>b. 0 \<le> b \<longrightarrow> b < 257 \<longrightarrow> hist l m3 b = offset c (b + 1))"
      then have "permuted lo hi m m3" "regions lo k c m3"
        using sd2 by (auto simp: permuted_def filling_def refilled_def same_data_def ms_ok_def regions_def)
      then show "\<exists>c. distributed lo hi k l m c m3" using m3 c by (auto simp: distributed_def)
    qed
  qed
qed

lemma one_bucket_ok:
  fixes lo i :: int and c :: "int \<Rightarrow> int"
  defines "a \<equiv> lo + offset c i" and "b \<equiv> lo + offset c (i + 1)"
  assumes ok: "ms_ok lo hi m" "strings_ok k lo hi m" and rg: "regions lo k c m" and i: "1 \<le> i" "i < 257"
    and rng: "0 \<le> offset c i" "offset c i \<le> offset c (i + 1)" "offset c (i + 1) \<le> hi - lo"
    and f: "ms_ok a b m \<Longrightarrow> a + 1 < b \<Longrightarrow> strings_ok (k + 1) a b m \<Longrightarrow>
      returns (f a b m) (\<lambda>m2. permuted a b m m2 \<and> sorted_from (k + 1) a b m2)"
  shows "returns (if 1 < offset c (i + 1) - offset c i then f a b m else Some (Inr m)) (\<lambda>m2. permuted a b m m2 \<and> sorted_from (k + 1) a b m2)"
proof (cases "1 < offset c (i + 1) - offset c i")
  case True
  have "k + 1 \<le> int (length (s_at m p))" if "a \<le> p" "p < b" for p
    using region_code [OF rg _ i(2), of p] i(1) that by (auto simp: code_def a_def b_def split: if_splits)
  then have "strings_ok (k + 1) a b m" using ok(2) rng by (auto simp: strings_ok_def a_def b_def)
  then have "returns (f a b m) (\<lambda>m2. permuted a b m m2 \<and> sorted_from (k + 1) a b m2)"
    using True ms_ok_sub [OF ok(1), of a b] rng by (intro f) (auto simp: a_def b_def)
  then show ?thesis using True by simp
next
  case False
  have "sorted_from (k + 1) a b m" unfolding sorted_from_def
  proof (intro allI impI)
    fix p q assume "a \<le> p" "p \<le> q" "q < b"
    then have "p = q" using False by (simp add: a_def b_def)
    then show "drop (nat (k + 1)) (s_at m p) \<le> drop (nat (k + 1)) (s_at m q)" by simp
  qed
  then show ?thesis using False ok(1) by (simp add: permuted_def ms_ok_def)
qed

text \<open>The loop over the buckets, for any way of sorting one of them.\<close>

lemma bucket_loop_ok:
  assumes ok: "ms_ok lo hi m" "strings_ok k lo hi m" and r: "lo < hi" and kl: "0 \<le> k" "0 \<le> l" "l < 8" and d: "distributed lo hi k l m c m3"
    and row: "row = el (ms_histograms m3) l"
    and f: "\<And>a b m1. ms_ok a b m1 \<Longrightarrow> ms_max_length m1 = ms_max_length m \<Longrightarrow> a + 1 < b \<Longrightarrow> strings_ok (k + 1) a b m1 \<Longrightarrow>
      returns (f a b m1) (\<lambda>m2. permuted a b m1 m2 \<and> sorted_from (k + 1) a b m2)"
  shows "returns (run_bind (vec_get row 0) (\<lambda>prev0.
       run_bind (for_range 256 1 (\<lambda>i (prev, m).
         run_bind (vec_get row i) (\<lambda>h.
         run_bind (if 1 < h - prev then f (lo + prev) (lo + h) m else Some (Inr m)) (\<lambda>m'. Some (Inr (h, m'))))) (prev0, m3))
       (\<lambda>(_, m4). Some (Inr m4)))) (\<lambda>m4. permuted lo hi m m4 \<and> sorted_from k lo hi m4)"
proof -
  have d': "permuted lo hi m m3" "\<And>j. 0 \<le> c j" "offset c 257 = hi - lo" "regions lo k c m3"
    "\<And>b. 0 \<le> b \<Longrightarrow> b < 257 \<Longrightarrow> hist l m3 b = offset c (b + 1)" using d by (auto simp: distributed_def)
  have sz3: "ms_sized m3" using d'(1) by (simp add: permuted_def)
  have get: "vec_get row i = Some (Inr (offset c (i + 1)))" if "0 \<le> i" "i < 257" for i
    using ms_sized_row [OF sz3 kl(2,3)] d'(5) [OF that] that by (simp add: row hist_def)
  define I where "I = (\<lambda>i (prev, m'). prev = offset c i \<and> permuted lo hi m m' \<and> regions lo k c m' \<and> buckets_done lo k c i m')"
  let ?g = "\<lambda>i (prev, m). run_bind (vec_get row i) (\<lambda>h. run_bind (if 1 < h - prev then f (lo + prev) (lo + h) m else Some (Inr m)) (\<lambda>m'. Some (Inr (h, m'))))"
  have rng: "0 \<le> offset c b" "offset c b \<le> offset c (b + 1)" "offset c (b + 1) \<le> hi - lo" if "0 \<le> b" "b < 257" for b
    using offset_mono [of c 0 b] offset_mono [of c b "b + 1"] offset_mono [of c "b + 1" 257] d'(2,3) that by auto
  have "returns (for_range 256 1 ?g (offset c 1, m3)) (I (1 + int 256))"
  proof (rule for_range_ok)
    have s3: "strings_ok k lo hi m3" by (rule permuted_strings [OF d'(1) ok])
    have "drop (nat k) (s_at m3 p) = []" if "lo \<le> p" "p < lo + offset c 1" for p
      using region_code [OF d'(4), of 0 p] that code_end [of k "s_at m3 p"] kl(1) by simp
    then have "sorted_from k (lo + offset c 0) (lo + offset c (0 + 1)) m3" by (simp add: sorted_from_def)
    moreover have "b = 0" if "0 \<le> b" "b < 1" for b :: int using that by simp
    ultimately have "buckets_done lo k c 1 m3" unfolding buckets_done_def by metis
    then show "I 1 (offset c 1, m3)" using d' by (simp add: I_def)
    fix i w assume i: "1 \<le> i" "i < 1 + int 256" and w: "I i w"
    obtain prev m' where w': "w = (prev, m')" by (cases w)
    have m': "prev = offset c i" "permuted lo hi m m'" "regions lo k c m'" "buckets_done lo k c i m'" using w w' by (auto simp: I_def)
    have i': "0 \<le> i" "i < 257" using i by auto
    let ?a = "lo + offset c i" and ?b = "lo + offset c (i + 1)"
    have ok': "ms_ok lo hi m'" "strings_ok k lo hi m'" by (rule permuted_ok [OF m'(2) ok(1)], rule permuted_strings [OF m'(2) ok])
    have "returns (if 1 < offset c (i + 1) - offset c i then f ?a ?b m' else Some (Inr m')) (\<lambda>m2. permuted ?a ?b m' m2 \<and> sorted_from (k + 1) ?a ?b m2)"
      using m'(2) by (intro one_bucket_ok [OF ok' m'(3) i(1) i'(2) rng [OF i']] f) (auto simp: permuted_def)
    then have "returns (run_bind (if 1 < offset c (i + 1) - offset c i then f ?a ?b m' else Some (Inr m')) (\<lambda>m'. Some (Inr (offset c (i + 1), m')))) (I (i + 1))"
    proof (rule returns_bind)
      fix m2 assume m2: "permuted ?a ?b m' m2 \<and> sorted_from (k + 1) ?a ?b m2"
      note st = bucket_step [OF ok'(1) d'(2,3) m'(3) kl(1) i' m'(4) conjunct1 [OF m2] conjunct2 [OF m2]]
      have "permuted lo hi m m2" using permuted_trans [OF m'(2)] permuted_mono [of ?a ?b m' m2 lo hi] m2 rng [OF i'] by auto
      then show "returns (Some (Inr (offset c (i + 1), m2))) (I (i + 1))" using st by (simp add: I_def)
    qed
    then show "returns (?g i w) (I (i + 1))" using w' m'(1) get [OF i'] by simp
  qed
  then have "returns (run_bind (for_range 256 1 ?g (offset c 1, m3)) (\<lambda>(_, m4). Some (Inr m4))) (\<lambda>m4. permuted lo hi m m4 \<and> sorted_from k lo hi m4)"
  proof (rule returns_bind, goal_cases)
    case (1 w)
    obtain prev m4 where w: "w = (prev, m4)" by (cases w)
    have m4: "permuted lo hi m m4" "regions lo k c m4" "buckets_done lo k c 257 m4" using 1 w by (auto simp: I_def)
    then show ?case using w buckets_sorted [OF permuted_strings [OF m4(1) ok] kl(1) d'(2,3) m4(2,3)] by simp
  qed
  then show ?thesis using get [of 0] by simp
qed

lemma fallback_range_ok:
  assumes ok: "ms_ok a b m" "strings_ok k a b m" and k: "0 \<le> k" "a \<le> b"
  shows "returns (fallback_range M a b k m) (\<lambda>m'. permuted a b m m' \<and> sorted_from k a b m')"
proof -
  have "returns (mo_fallback_sort M k a b (ms_sorter m)) (\<lambda>t. invar t \<and> perm_in a b (elems (ms_sorter m)) (elems t) \<and>
      (\<forall>i j. a \<le> i \<longrightarrow> i \<le> j \<longrightarrow> j < b \<longrightarrow> drop (nat k) (str (el (elems t) i)) \<le> drop (nat k) (str (el (elems t) j))))"
    using ok k by (intro fallback_ok) (auto simp: ms_ok_def strings_ok_def s_at_def)
  then show ?thesis
    unfolding fallback_range_def
  proof (rule returns_bind)
    fix t assume t: "invar t \<and> perm_in a b (elems (ms_sorter m)) (elems t) \<and>
      (\<forall>i j. a \<le> i \<longrightarrow> i \<le> j \<longrightarrow> j < b \<longrightarrow> drop (nat k) (str (el (elems t) i)) \<le> drop (nat k) (str (el (elems t) j)))"
    have "ms_sized (m\<lparr>ms_sorter := t\<rparr>)" using ok(1) by (simp add: ms_ok_def ms_sized_def)
    then show "returns (Some (Inr (m\<lparr>ms_sorter := t\<rparr>))) (\<lambda>m'. permuted a b m m' \<and> sorted_from k a b m')"
      using t by (simp add: permuted_def sorted_from_def s_at_def)
  qed
qed

text \<open>When all strings share their next codes, either all of them go on or all of them have ended.\<close>

lemma agree_lengths:
  assumes a: "agree lo hi k len m" and k: "0 \<le> k" "0 < len" and p: "lo \<le> p" "p < hi" and q: "lo \<le> q" "q < hi"
    and l: "int (length (s_at m p)) < k + len" "k \<le> int (length (s_at m p))"
  shows "int (length (s_at m q)) < k + len"
proof -
  let ?r = "int (length (s_at m p)) - k"
  have "code (k + ?r) (s_at m p) = code (k + ?r) (s_at m lo)" "code (k + ?r) (s_at m q) = code (k + ?r) (s_at m lo)"
    using l agreeD [OF a p, of ?r] agreeD [OF a q, of ?r] by simp_all
  then have "code (k + ?r) (s_at m q) = - 1" using code_end [of "k + ?r" "s_at m p"] by simp
  then show ?thesis using code_end [of "k + ?r" "s_at m q"] l(1) by simp
qed

lemma agree_sorted:
  assumes a: "agree lo hi k len m" "0 \<le> len" "0 \<le> k" and s: "sorted_from (k + len) lo hi m"
  shows "sorted_from k lo hi m"
  unfolding sorted_from_def
proof (intro allI impI)
  fix i j assume ij: "lo \<le> i" "i \<le> j" "j < hi"
  show "drop (nat k) (s_at m i) \<le> drop (nat k) (s_at m j)"
  proof (rule codes_eq_drop [OF a(3), of "nat len"])
    show "code (k + q) (s_at m i) = code (k + q) (s_at m j)" if "0 \<le> q" "q < int (nat len)" for q
    proof -
      have "code (k + q) (s_at m i) = code (k + q) (s_at m lo)" "code (k + q) (s_at m j) = code (k + q) (s_at m lo)"
        using agreeD [OF a(1), of i q] agreeD [OF a(1), of j q] ij that a(2) by simp_all
      then show ?thesis by simp
    qed
    show "drop (nat (k + int (nat len))) (s_at m i) \<le> drop (nat (k + int (nat len))) (s_at m j)"
      using s ij a(2) by (simp add: sorted_from_def)
  qed
qed

lemma sorted_ended: "(\<And>p. lo \<le> p \<Longrightarrow> p < hi \<Longrightarrow> int (length (s_at m p)) \<le> k) \<Longrightarrow> sorted_from k lo hi m"
  unfolding sorted_from_def by (metis drop_all dual_order.refl nat_int nat_mono order_le_less_trans order_trans)

text \<open>Agreement is a property of the strings of the range, so that it survives their permutation.\<close>

lemma agree_permuted:
  assumes ok: "ms_ok lo hi m" and p: "permuted lo hi m m'" and r: "lo < hi" and a: "agree lo hi k len m"
  shows "agree lo hi k len m'"
  unfolding agree_def
proof (intro allI impI)
  fix p q assume pq: "lo \<le> p" "p < hi" "0 \<le> q" "q < len"
  have "code (k + q) (s_at m' p') = code (k + q) (s_at m lo)" if "lo \<le> p'" "p' < hi" for p'
    by (rule permuted_all [where P = "\<lambda>x. code (k + q) x = code (k + q) (s_at m lo)", OF assms(2) ok _ that])
      (rule agreeD [OF a _ _ pq(3,4)])
  from this [OF pq(1,2)] this [OF order_refl r] show "code (k + q) (s_at m' p) = code (k + q) (s_at m' lo)" by simp
qed

lemma prefix_case_ok:
  assumes ok: "ms_ok lo hi m" "strings_ok k lo hi m" and r: "lo < hi" and kl: "0 \<le> k" "0 \<le> l" "l < 8"
    and pp: "prefix_post lo hi k l m (len, m1)" and len: "0 < len"
    and rec: "k + len < ms_max_length m \<Longrightarrow> strings_ok (k + len) lo hi m1 \<Longrightarrow>
      returns (radix_sort M lo hi (k + len) l m1) (\<lambda>m2. permuted lo hi m1 m2 \<and> sorted_from (k + len) lo hi m2)"
  shows "returns (run_bind (hist_get l 0 m1) (\<lambda>h0. if k + len < ms_max_length m1 \<and> h0 < hi - lo then radix_sort M lo hi (k + len) l m1 else Some (Inr m1)))
    (\<lambda>m2. permuted lo hi m m2 \<and> sorted_from k lo hi m2)"
proof -
  have sd: "same_data m m1" and ag: "agree lo hi k len m" and h0: "hist l m1 0 = (if code k (s_at m lo) = - 1 then hi - lo else 0)"
    using pp len by (auto simp: prefix_post_def)
  have ok1: "ms_ok lo hi m1" and at1: "s_at m1 = s_at m" and ml: "ms_max_length m1 = ms_max_length m" and sz1: "ms_sized m1"
    using same_data_ok [OF sd ok(1)] same_data_at [OF sd] sd by (auto simp: same_data_def)
  have ag1: "agree lo hi k len m1" using ag unfolding agree_def at1 .
  have p1: "permuted lo hi m m1" by (rule same_data_permuted [OF sd ok(1)])
  have so: "k \<le> int (length (s_at m p))" "int (length (s_at m p)) < ms_max_length m" if "lo \<le> p" "p < hi" for p using ok(2) that by (auto simp: strings_ok_def)
  define ended where "ended \<longleftrightarrow> int (length (s_at m lo)) < k + len"
  have end1: "int (length (s_at m p)) < k + len" if "lo \<le> p" "p < hi" ended for p
    using agree_lengths [OF ag kl(1) len _ r that(1,2)] so [of lo] r that(3) by (simp add: ended_def)
  have cont: "k + len \<le> int (length (s_at m p))" if "lo \<le> p" "p < hi" "\<not> ended" for p
    using agree_lengths [OF ag kl(1) len that(1,2) order_refl r] so(1) [OF that(1,2)] that(3) by (force simp: ended_def)
  have done1: "sorted_from k lo hi m1" if ended
  proof (rule agree_sorted [OF ag1 _ kl(1)])
    show "sorted_from (k + len) lo hi m1" by (rule sorted_ended) (use end1 that in \<open>force simp: at1\<close>)
  qed (use len in simp)
  show ?thesis
  proof (cases "k + len < ms_max_length m1 \<and> hist l m1 0 < hi - lo")
    case True
    have "returns (radix_sort M lo hi (k + len) l m1) (\<lambda>m2. permuted lo hi m m2 \<and> sorted_from k lo hi m2)"
    proof (cases ended)
      case e: True
      have "returns (radix_sort M lo hi (k + len) l m1) (same_data m1)"
        using ok1 r kl len True end1 e by (intro radix_ended) (force simp: at1)+
      then show ?thesis
      proof (rule returns_mono)
        fix m2 assume m2: "same_data m1 m2"
        have "sorted_from k lo hi m2" using done1 [OF e] same_data_at [OF m2] by (simp add: sorted_from_def)
        then show "permuted lo hi m m2 \<and> sorted_from k lo hi m2" using same_data_permuted [OF same_data_trans [OF sd m2] ok(1)] by simp
      qed
    next
      case False
      then have "strings_ok (k + len) lo hi m1" using cont so(2) by (simp add: strings_ok_def at1 ml)
      then have "returns (radix_sort M lo hi (k + len) l m1) (\<lambda>m2. permuted lo hi m1 m2 \<and> sorted_from (k + len) lo hi m2)"
        using True ml by (intro rec) auto
      then show ?thesis
      proof (rule returns_mono)
        fix m2 assume m2: "permuted lo hi m1 m2 \<and> sorted_from (k + len) lo hi m2"
        have "agree lo hi k len m2" by (rule agree_permuted [OF ok1 conjunct1 [OF m2] r ag1])
        then show "permuted lo hi m m2 \<and> sorted_from k lo hi m2"
          using agree_sorted [of lo hi k len m2] m2 len kl(1) permuted_trans [OF p1] by auto
      qed
    qed
    then show ?thesis using True hist_get_ok [OF sz1 kl(2,3), of 0] by simp
  next
    case False
    have ended
    proof (rule ccontr)
      assume "\<not> ended"
      then have "k + len < ms_max_length m1" using cont [of lo] so(2) [of lo] r ml by simp
      moreover have "code k (s_at m lo) \<noteq> - 1" using cont [of lo] \<open>\<not> ended\<close> r len code_end [of k "s_at m lo"] by simp
      ultimately show False using False h0 r by simp
    qed
    then show ?thesis using False hist_get_ok [OF sz1 kl(2,3), of 0] done1 p1 by auto
  qed
qed

text \<open>The other case: the strings are distributed and the buckets sorted, by any \<open>f\<close>.\<close>

lemma distribute_case_ok:
  assumes ok: "ms_ok lo hi m" "strings_ok k lo hi m" and r: "lo < hi" and kl: "0 \<le> k" "0 \<le> l" "l < 8" and k1: "k + 1 < ms_max_length m"
    and pp: "prefix_post lo hi k l m (0, m1)"
    and f: "\<And>a b m1. ms_ok a b m1 \<Longrightarrow> ms_max_length m1 = ms_max_length m \<Longrightarrow> a + 1 < b \<Longrightarrow> strings_ok (k + 1) a b m1 \<Longrightarrow>
      returns (f a b m1) (\<lambda>m2. permuted a b m1 m2 \<and> sorted_from (k + 1) a b m2)"
  shows "returns (run_bind (run_bind (sum_histogram l m1) (reorder M lo k l)) (\<lambda>m3.
      run_bind (vec_get (ms_histograms m3) l) (\<lambda>end_offsets.
        if k + 1 < ms_max_length m3
        then run_bind (vec_get end_offsets 0) (\<lambda>prev0.
             run_bind (for_range 256 1 (\<lambda>i (prev, m).
               run_bind (vec_get end_offsets i) (\<lambda>h.
               run_bind (if 1 < h - prev then f (lo + prev) (lo + h) m else Some (Inr m)) (\<lambda>m'. Some (Inr (h, m'))))) (prev0, m3)) (\<lambda>(_, m4). Some (Inr m4)))
        else Some (Inr m3)))) (\<lambda>m'. permuted lo hi m m' \<and> sorted_from k lo hi m')"
proof (rule returns_bind [OF distribute_ok(2) [OF ok(1) r kl pp]], goal_cases)
  case (1 m3)
  then obtain c where c: "distributed lo hi k l m c m3" by blast
  have "ms_max_length m3 = ms_max_length m" "length (ms_histograms m3) = 8" using c by (auto simp: distributed_def permuted_def ms_sized_def)
  then show ?case using bucket_loop_ok [where f = f, OF ok r kl c refl f] k1 kl by simp
qed

lemma radix_sort_ok:
  assumes "ms_ok lo hi m" "strings_ok k lo hi m" "lo < hi" "0 \<le> k" "0 \<le> l" "l < 8" "k < ms_max_length m" "ms_max_length m = ml"
  shows "returns (radix_sort M lo hi k l m) (\<lambda>m'. permuted lo hi m m' \<and> sorted_from k lo hi m')"
  using assms
proof (induction "nat ((8 - l) * ml + (ml - k))" arbitrary: lo hi k l m rule: less_induct)
  case less
  note ok = less.prems(1,2) and r = less.prems(3) and kl = less.prems(4-6) and km = less.prems(7) and ml = less.prems(8)
  show ?case
  proof (rule radix_start [OF ok(1) r kl km], goal_cases)
    case (1 len m1)
    have sd: "same_data m m1" "0 \<le> len" using 1 by (auto simp: prefix_post_def)
    have ok1: "ms_ok lo hi m1" "ms_max_length m1 = ml" using same_data_ok [OF sd(1) ok(1)] sd(1) ml by (auto simp: same_data_def)
    show ?case
    proof (cases "0 < len")
      case True
      have "returns (radix_sort M lo hi (k + len) l m1) (\<lambda>m2. permuted lo hi m1 m2 \<and> sorted_from (k + len) lo hi m2)"
        if "k + len < ms_max_length m" "strings_ok (k + len) lo hi m1"
        using that ok1 r kl True ml by (intro less.hyps) (auto intro!: nat_mono_iff [THEN iffD2] add_nonneg_pos mult_nonneg_nonneg)
      then show ?thesis using prefix_case_ok [OF ok r kl 1 True] True by simp
    next
      case False
      then have l0: "len = 0" using sd(2) by simp
      note asserted = distribute_ok(1) [OF ok(1) r kl 1 [unfolded l0]]
      obtain p where p: "lo \<le> p" "p < hi" "code k (s_at m p) \<noteq> code k (s_at m lo)" using 1 l0 by (auto simp: prefix_post_def)
      then have "code k (s_at m p) \<noteq> - 1 \<or> code k (s_at m lo) \<noteq> - 1" by auto
      then have k1: "k + 1 < ml" using ok(2) p r ml code_end [of k "s_at m p"] code_end [of k "s_at m lo"] by (force simp: strings_ok_def)
      let ?f = "\<lambda>a b m. if b - a \<le> LENGTH_THRESHOLD \<or> LEVEL_THRESHOLD \<le> l + 1 then fallback_range M a b (k + 1) m else radix_sort M a b (k + 1) (l + 1) m"
      have f: "returns (?f a b m1) (\<lambda>m2. permuted a b m1 m2 \<and> sorted_from (k + 1) a b m2)"
        if "ms_ok a b m1" "ms_max_length m1 = ms_max_length m" "a + 1 < b" "strings_ok (k + 1) a b m1" for a b m1
      proof (cases "b - a \<le> LENGTH_THRESHOLD \<or> LEVEL_THRESHOLD \<le> l + 1")
        case True
        then show ?thesis using fallback_range_ok [OF that(1,4)] kl that(3) by simp
      next
        case False
        then have l1: "l + 1 < 8" by (simp add: LEVEL_THRESHOLD_def)
        have "(8 - (l + 1)) * ml + (ml - (k + 1)) < (8 - l) * ml + (ml - k)" using k1 kl by (simp add: algebra_simps)
        moreover have "0 \<le> (8 - (l + 1)) * ml" using l1 k1 kl(1) by (intro mult_nonneg_nonneg) auto
        ultimately have "nat ((8 - (l + 1)) * ml + (ml - (k + 1))) < nat ((8 - l) * ml + (ml - k))" using k1 by linarith
        then have "returns (radix_sort M a b (k + 1) (l + 1) m1) (\<lambda>m'. permuted a b m1 m' \<and> sorted_from (k + 1) a b m')"
          using that k1 kl l1 ml by (intro less.hyps) auto
        then show ?thesis using False by simp
      qed
      note distribute_case_ok [where f = ?f, OF ok r kl k1 [folded ml] 1 [unfolded l0] f]
      moreover have "nat (MSB_HISTOGRAM_SIZE - 1) = 256" by (simp add: MSB_HISTOGRAM_SIZE_def)
      ultimately show ?thesis by (simp only: l0 asserted run_bind_assoc run_bind_simps less_irrefl if_False)
    qed
  qed
qed

lemma msb_sort_ok:
  assumes ok: "ms_ok lo hi m" "strings_ok 0 lo hi m" and r: "lo \<le> hi"
  shows "returns (msb_sort M lo hi m) (\<lambda>m'. permuted lo hi m m' \<and> sorted_from 0 lo hi m')"
proof (cases "hi - lo \<le> LENGTH_THRESHOLD")
  case True
  then show ?thesis using fallback_range_ok [OF ok] r by (simp add: msb_sort_def sort_inner_def)
next
  case False
  then have "lo < hi" by (simp add: LENGTH_THRESHOLD_def)
  moreover have "0 < ms_max_length m" using ok(2) calculation unfolding strings_ok_def by force
  ultimately show ?thesis
    using radix_sort_ok [OF ok, of 0 "ms_max_length m"] False r by (simp add: msb_sort_def sort_inner_def LEVEL_THRESHOLD_def)
qed

end

section \<open>The terms of a hash as implementors\<close>

definition term_of_id :: "bytes_ref_hash \<Rightarrow> int \<Rightarrow> bytes" where
  "term_of_id h e = (case term_at (brh_buffers h) (brh_bytes_start h) e of Inl _ \<Rightarrow> [] | Inr x \<Rightarrow> x)"

definition readable :: "bytes_ref_hash \<Rightarrow> int \<Rightarrow> bool" where
  "readable h e \<longleftrightarrow> (\<exists>x. term_at (brh_buffers h) (brh_bytes_start h) e = Inr x)"

text \<open>The sorters change nothing of the hash but its ids.\<close>

definition only_ids :: "bytes_ref_hash \<Rightarrow> bytes_ref_hash \<Rightarrow> bool" where
  "only_ids h h' \<longleftrightarrow> h' = h\<lparr>brh_ids := brh_ids h'\<rparr>"

lemma only_ids_upd [simp]: "only_ids h h' \<Longrightarrow> only_ids h (h'\<lparr>brh_ids := xs\<rparr>)"
  unfolding only_ids_def by (metis bytes_ref_hash.ext_inject bytes_ref_hash.surjective bytes_ref_hash.update_convs(5))

lemma only_ids_fields: "only_ids h h' \<Longrightarrow> brh_buffers h' = brh_buffers h \<and> brh_bytes_start h' = brh_bytes_start h"
  unfolding only_ids_def by (metis bytes_ref_hash.select_convs(1,6) bytes_ref_hash.surjective bytes_ref_hash.update_convs(5))

definition fallback_inv :: "bytes_ref_hash \<Rightarrow> int \<Rightarrow> int \<Rightarrow> int \<Rightarrow> fallback \<Rightarrow> bool" where
  "fallback_inv H k a b f \<longleftrightarrow> only_ids H (fb_sorter f) \<and> fb_k f = k \<and> 0 \<le> k \<and> 0 \<le> a \<and>
     b \<le> int (length (brh_ids (fb_sorter f))) \<and> (\<forall>i. a \<le> i \<longrightarrow> i < b \<longrightarrow>
       readable H (el (brh_ids (fb_sorter f)) i) \<and> k \<le> int (length (term_of_id H (el (brh_ids (fb_sorter f)) i))))"

lemma msb_get_eq:
  assumes "only_ids H h" "0 \<le> i" "i < int (length (brh_ids h))" "readable H (el (brh_ids h) i)"
  shows "msb_get i h = Some (Inr (term_of_id H (el (brh_ids h) i)))"
  using assms only_ids_fields [OF assms(1)] by (auto simp: msb_get_def readable_def term_of_id_def)

lemma msb_swap_eq: "0 \<le> i \<Longrightarrow> i < int (length (brh_ids h)) \<Longrightarrow> 0 \<le> j \<Longrightarrow> j < int (length (brh_ids h)) \<Longrightarrow>
    msb_swap i j h = Some (Inr (h\<lparr>brh_ids := swapped i j (brh_ids h)\<rparr>))"
  by (simp add: msb_swap_def swapped_def)

lemma fallback_get_eq:
  "fallback_inv H k a b f \<Longrightarrow> a \<le> i \<Longrightarrow> i < b \<Longrightarrow>
    fallback_get i f = Some (Inr (drop (nat k) (term_of_id H (el (brh_ids (fb_sorter f)) i))))"
  using msb_get_eq [of H "fb_sorter f" i] by (auto simp: fallback_get_def fallback_inv_def)

interpretation fallback: comparison_sorter fallback_ops "\<lambda>f. brh_ids (fb_sorter f)" "\<lambda>e. drop (nat k) (term_of_id H e)" fb_pivot
  "fallback_inv H k a b" a b for H k a b
proof (unfold_locales, goal_cases)
  case (2 s i j)
  have ij: "0 \<le> i" "i < int (length (brh_ids (fb_sorter s)))" "0 \<le> j" "j < int (length (brh_ids (fb_sorter s)))"
    using 2 by (auto simp: fallback_inv_def)
  have "fallback_inv H k a b (s\<lparr>fb_sorter := (fb_sorter s)\<lparr>brh_ids := swapped i j (brh_ids (fb_sorter s))\<rparr>\<rparr>)"
    using 2 ij by (auto simp: fallback_inv_def el_swapped)
  then show ?case using msb_swap_eq [of i "fb_sorter s" j] ij by (simp add: fallback_ops_def)
next
  case (3 s i)
  then show ?case using fallback_get_eq [OF 3] by (simp add: fallback_ops_def fallback_inv_def)
qed (auto simp: fallback_ops_def fallback_get_eq)

lemma log_bounds: "\<exists>d. log x 2 = Inr d \<and> 0 \<le> d \<and> 2 * d \<le> 2147483647" if "0 \<le> x" "x \<le> 2 ^ 30"
proof (cases "1 \<le> x")
  case True
  obtain n where n: "log_loop x 2 0 = int n" "2 ^ n \<le> x" using log_loop_spec [of 2 x 0] True by auto
  have "(2 :: int) ^ n \<le> 2 ^ 30" using n(2) that(2) by linarith
  then have "n \<le> 30" by (metis one_less_numeral_iff power_increasing_iff semiring_norm(76))
  then show ?thesis using n(1) by (simp add: log_def)
next
  case False
  then show ?thesis by (subst log_def) (simp add: log_loop.simps [of x])
qed

definition hash_inv :: "bytes_ref_hash \<Rightarrow> int \<Rightarrow> bytes_ref_hash \<Rightarrow> bool" where
  "hash_inv H n h \<longleftrightarrow> only_ids H h \<and> n \<le> int (length (brh_ids h)) \<and> (\<forall>i. 0 \<le> i \<longrightarrow> i < n \<longrightarrow> readable H (el (brh_ids h) i))"

interpretation terms: string_sorter bytes_ref_msb brh_ids "term_of_id H" "hash_inv H n" n for H n
proof (unfold_locales, goal_cases)
  case (1 t i k)
  then have "only_ids H t" "readable H (el (brh_ids t) i)" "i < int (length (brh_ids t))" by (auto simp: hash_inv_def)
  then show ?case using 1(2,4) msb_get_eq [of H t i] by (simp add: bytes_ref_msb_def msb_byte_at_def Let_def)
next
  case (2 t i j)
  have ij: "i < int (length (brh_ids t))" "j < int (length (brh_ids t))" using 2 by (auto simp: hash_inv_def)
  then have "hash_inv H n (t\<lparr>brh_ids := swapped i j (brh_ids t)\<rparr>)" using 2 by (auto simp: hash_inv_def el_swapped)
  then show ?case using msb_swap_eq [OF 2(2) ij(1) 2(4) ij(2)] by (simp add: bytes_ref_msb_def)
next
  case (3 t lo hi k)
  have len: "hi \<le> int (length (brh_ids t))" using 3 by (simp add: hash_inv_def)
  have inv: "fallback_inv H k lo hi (fallback_sorter k t)"
    using 3 by (auto simp: fallback_inv_def fallback_sorter_def hash_inv_def)
  obtain d where d: "log (hi - lo) 2 = Inr d" "0 \<le> d" "2 * d \<le> 2147483647" using log_bounds [of "hi - lo"] 3(2,3,5) by auto
  let ?s = "\<lambda>f. brh_ids (fb_sorter f)"
  have "returns (quick_sort fallback_ops lo hi (2 * d) (fallback_sorter k t)) (\<lambda>f'. fallback.rearranged H k lo hi lo hi (fallback_sorter k t) f' \<and>
      fallback.sorted_in k H lo hi f')"
    using inv 3 len d by (intro fallback.quick_sort_ok) (auto simp: fallback_sorter_def)
  then have "returns (quick_sort fallback_ops lo hi (2 * d) (fallback_sorter k t)) (\<lambda>f'. fallback_inv H k lo hi f' \<and> perm_in lo hi (brh_ids t) (?s f') \<and>
      (\<forall>i j. lo \<le> i \<longrightarrow> i \<le> j \<longrightarrow> j < hi \<longrightarrow> drop (nat k) (term_of_id H (el (?s f') i)) \<le> drop (nat k) (term_of_id H (el (?s f') j))))"
    by (rule returns_mono)
      (simp add: fallback.rearranged_def fallback.sorted_in_def fallback.k_at_def fallback_sorter_def)
  then have "returns (run_bind (quick_sort fallback_ops lo hi (2 * d) (fallback_sorter k t)) (\<lambda>f. Some (Inr (fb_sorter f)))) (\<lambda>t'. hash_inv H n t' \<and>
      perm_in lo hi (brh_ids t) (brh_ids t') \<and>
      (\<forall>i j. lo \<le> i \<longrightarrow> i \<le> j \<longrightarrow> j < hi \<longrightarrow> drop (nat k) (term_of_id H (el (brh_ids t') i)) \<le> drop (nat k) (term_of_id H (el (brh_ids t') j))))"
  proof (rule returns_bind)
    fix f' assume f': "fallback_inv H k lo hi f' \<and> perm_in lo hi (brh_ids t) (?s f') \<and>
      (\<forall>i j. lo \<le> i \<longrightarrow> i \<le> j \<longrightarrow> j < hi \<longrightarrow> drop (nat k) (term_of_id H (el (?s f') i)) \<le> drop (nat k) (term_of_id H (el (?s f') j)))"
    have "readable H (el (?s f') i)" if "0 \<le> i" "i < n" for i
    proof (cases "lo \<le> i \<and> i < hi")
      case True
      then show ?thesis using f' by (simp add: fallback_inv_def)
    next
      case False
      then have "el (?s f') i = el (brh_ids t) i" using f' perm_in_outside [of lo hi "brh_ids t" "?s f'" i] that 3(1) by (auto simp: hash_inv_def)
      then show ?thesis using 3(1) that by (simp add: hash_inv_def)
    qed
    then have "hash_inv H n (fb_sorter f')"
      using f' 3(1) perm_in_length [of lo hi "brh_ids t" "?s f'"] by (auto simp: hash_inv_def fallback_inv_def)
    then show "returns (Some (Inr (fb_sorter f'))) (\<lambda>t'. hash_inv H n t' \<and> perm_in lo hi (brh_ids t) (brh_ids t') \<and>
      (\<forall>i j. lo \<le> i \<longrightarrow> i \<le> j \<longrightarrow> j < hi \<longrightarrow> drop (nat k) (term_of_id H (el (brh_ids t') i)) \<le> drop (nat k) (term_of_id H (el (brh_ids t') j))))"
      using f' by simp
  qed
  then show ?case using d(1) 3(3) by (simp add: bytes_ref_msb_def fb_sort_def)
qed

section \<open>Sorting the hash\<close>

definition compacted :: "nat \<Rightarrow> int list \<Rightarrow> int list" where
  "compacted n ids = (let used = filter (\<lambda>e. e \<noteq> - 1) (take n ids) in used @ replicate (n - length used) (- 1) @ drop n ids)"

lemma used_length: "n \<le> length ids \<Longrightarrow> length (filter P (take n ids)) \<le> n"
  using length_filter_le [of P "take n ids"] by simp

lemma length_compacted: "n \<le> length ids \<Longrightarrow> length (compacted n ids) = length ids"
  using used_length [of n ids "\<lambda>e. e \<noteq> - 1"] by (simp add: compacted_def Let_def)

lemma take_compacted: "n \<le> length ids \<Longrightarrow> take (length (filter (\<lambda>e. e \<noteq> - 1) (take n ids))) (compacted n ids) = filter (\<lambda>e. e \<noteq> - 1) (take n ids)"
  by (simp add: compacted_def Let_def)

lemma used_compacted:
  assumes "n \<le> length ids"
  shows "filter (\<lambda>e. e \<noteq> - 1) (take n (compacted n ids)) = filter (\<lambda>e. e \<noteq> - 1) (take n ids)"
  using used_length [OF assms, of "\<lambda>e. e \<noteq> - 1"] by (simp add: compacted_def Let_def)

lemma compacted_idem: "n \<le> length ids \<Longrightarrow> compacted n (compacted n ids) = compacted n ids"
  using used_compacted [of n ids] used_length [of n ids "\<lambda>e. e \<noteq> - 1"] unfolding compacted_def [of n "compacted n ids"]
  by (simp add: compacted_def Let_def)

lemma compacted_Suc:
  assumes i: "i < length ids" and F: "F = filter (\<lambda>e. e \<noteq> - 1) (take i ids)"
  shows "filter (\<lambda>e. e \<noteq> - 1) (take (Suc i) ids) = F @ (if ids ! i \<noteq> - 1 then [ids ! i] else [])"
    and "compacted i ids ! i = ids ! i"
    and "ids ! i = - 1 \<Longrightarrow> compacted (Suc i) ids = compacted i ids"
    and "ids ! i \<noteq> - 1 \<Longrightarrow> length F = i \<Longrightarrow> compacted (Suc i) ids = compacted i ids"
    and "ids ! i \<noteq> - 1 \<Longrightarrow> length F < i \<Longrightarrow> compacted (Suc i) ids = (compacted i ids)[length F := ids ! i, i := - 1]"
proof -
  have le: "length F \<le> i" using used_length [of i ids "\<lambda>e. e \<noteq> - 1"] i F by simp
  have d: "drop i ids = ids ! i # drop (Suc i) ids" using i by (simp add: Cons_nth_drop_Suc)
  have c: "compacted i ids = F @ replicate (i - length F) (- 1) @ ids ! i # drop (Suc i) ids" using F d by (simp add: compacted_def Let_def)
  show t: "filter (\<lambda>e. e \<noteq> - 1) (take (Suc i) ids) = F @ (if ids ! i \<noteq> - 1 then [ids ! i] else [])"
    using i F by (simp add: take_Suc_conv_app_nth)
  show "compacted i ids ! i = ids ! i" unfolding c using le by (simp add: nth_append)
  have c1: "compacted (Suc i) ids = (F @ (if ids ! i \<noteq> - 1 then [ids ! i] else [])) @ replicate (Suc i - length (F @ (if ids ! i \<noteq> - 1 then [ids ! i] else []))) (- 1) @ drop (Suc i) ids"
    unfolding compacted_def t Let_def by simp
  have r: "replicate (Suc i - length F) (- 1 :: int) = replicate (i - length F) (- 1) @ [- 1]" using le by (simp add: Suc_diff_le replicate_append_same)
  show "compacted (Suc i) ids = compacted i ids" if "ids ! i = - 1" unfolding c1 c using that r by simp
  show "compacted (Suc i) ids = compacted i ids" if "ids ! i \<noteq> - 1" "length F = i" unfolding c1 c using that by simp
  show "compacted (Suc i) ids = (compacted i ids)[length F := ids ! i, i := - 1]" if "ids ! i \<noteq> - 1" "length F < i"
  proof -
    obtain q where q: "i = length F + Suc q" using \<open>length F < i\<close> less_iff_Suc_add by auto
    have "(compacted i ids)[length F := ids ! i, i := - 1] = F @ ids ! i # replicate q (- 1) @ [- 1] @ drop (Suc i) ids"
      unfolding c using q by (simp add: list_update_append)
    also have "\<dots> = compacted (Suc i) ids" unfolding c1 using that q by (simp add: replicate_append_same [symmetric])
    finally show ?thesis by simp
  qed
qed

lemma compact_eq:
  assumes n: "brh_hash_size h \<le> length (brh_ids h)" and c: "brh_count h = length (filter (\<lambda>e. e \<noteq> - 1) (take (brh_hash_size h) (brh_ids h)))"
  shows "compact h = Some (Inr (h\<lparr>brh_ids := compacted (brh_hash_size h) (brh_ids h), brh_last_count := int (brh_count h)\<rparr>))"
proof -
  let ?ids = "brh_ids h"
  define I where "I = (\<lambda>i (filled, ids). filled = int (length (filter (\<lambda>e. e \<noteq> - 1) (take (nat i) ?ids))) \<and> ids = compacted (nat i) ?ids)"
  let ?f = "\<lambda>i (filled, ids). run_bind (vec_get ids i) (\<lambda>e. if e \<noteq> - 1
         then if filled < i then run_bind (vec_set ids filled e) (\<lambda>ids1. run_bind (vec_set ids1 i (- 1)) (\<lambda>ids2. Some (Inr (filled + 1, ids2))))
              else Some (Inr (filled + 1, ids))
         else Some (Inr (filled, ids)))"
  have "returns (for_range (brh_hash_size h) 0 ?f (0, ?ids)) (I (0 + int (brh_hash_size h)))"
  proof (rule for_range_ok)
    show "I 0 (0, ?ids)" by (simp add: I_def compacted_def)
    fix i w assume i: "0 \<le> i" "i < 0 + int (brh_hash_size h)" and w: "I i w"
    obtain j where j: "i = int j" using i(1) by (metis nonneg_int_cases)
    define F where "F = filter (\<lambda>e. e \<noteq> - 1) (take j ?ids)"
    have lt: "j < length ?ids" using i j n by simp
    have w': "w = (int (length F), compacted j ?ids)" using w j by (cases w) (auto simp: I_def F_def)
    have le: "length F \<le> j" "length (compacted j ?ids) = length ?ids" using used_length [of j ?ids] length_compacted [of j ?ids] lt by (simp_all add: F_def)
    note st = compacted_Suc [OF lt F_def]
    have get: "vec_get (compacted j ?ids) i = Some (Inr (?ids ! j))" using st(2) lt le j by (simp add: el_def)
    have nx: "nat (i + 1) = Suc j" "nat (int j + 1) = Suc j" using j by simp_all
    consider "?ids ! j = - 1" | "?ids ! j \<noteq> - 1" "length F = j" | "?ids ! j \<noteq> - 1" "length F < j" using le by linarith
    then show "returns (?f i w) (I (i + 1))"
    proof cases
      case 1 then show ?thesis using get w' st(1,3) by (simp add: I_def nx)
    next
      case 2 then show ?thesis using get w' st(1,4) j by (simp add: I_def nx)
    next
      case 3 then show ?thesis using get w' st(1,5) j le lt by (simp add: I_def nx)
    qed
  qed
  then have "for_range (brh_hash_size h) 0 ?f (0, ?ids) = Some (Inr (int (brh_count h), compacted (brh_hash_size h) ?ids))"
    unfolding returns_def by (auto simp: I_def c)
  then show ?thesis by (simp add: compact_def)
qed

text \<open>A hash whose ids stand for terms that can be read.\<close>

definition hash_ok :: "bytes_ref_hash \<Rightarrow> bool" where
  "hash_ok h \<longleftrightarrow> brh_hash_size h \<le> length (brh_ids h) \<and>
     brh_count h = length (filter (\<lambda>e. e \<noteq> - 1) (take (brh_hash_size h) (brh_ids h))) \<and> brh_count h \<le> 2 ^ 30 \<and>
     (\<forall>e\<in>set (take (brh_hash_size h) (brh_ids h)). e \<noteq> - 1 \<longrightarrow> readable h e)"

lemma u8_bound: "unat (b :: u8) < 256"
proof -
  have "unat b < 2 ^ LENGTH(8)" by (rule unsigned_less)
  then show ?thesis by simp
qed

lemma set_bytes_ref_length:
  assumes "set_bytes_ref B p = Inr x"
  shows "length x \<le> 65536"
proof -
  have len: "unat (b0 :: u8) \<le> 65536" "unat (b0 AND 127 :: u8) + unat (b1 :: u8) * 128 \<le> 65536" for b0 b1
    using u8_bound [of b0] u8_bound [of "b0 AND 127"] u8_bound [of b1] by linarith+
  have take: "length (take l ys) \<le> 65536" if "l \<le> 65536" for l and ys :: bytes using that by simp
  show ?thesis
    using assms unfolding set_bytes_ref_def Let_def
    by (auto simp: rbind_eq_Inr simp del: length_take intro!: take len split: if_splits)
qed

lemma term_length: "int (length (term_of_id h e)) < 2147483647"
proof -
  have "length x \<le> 65536" if "term_at B St e = Inr x" for B St x using that set_bytes_ref_length by (simp add: term_at_def split: if_splits)
  then show ?thesis by (force simp: term_of_id_def split: sum.splits)
qed

text \<open>
  C9: sorting the hash of terms returns, for every hash of at most 2 ^ 30 terms that can be read:
  the ids in use are moved to the front, each as often as before, in the byte order of their terms;
  the places behind them are free, and nothing else of the hash changes but its last count. This is
  the most-significant-byte radix sort with its prefix skipping, its distribution in place and its
  recursion into the buckets, and the quick sort with its fallbacks to heap sort and binary sort: no
  loop of them runs on, no index is out of bounds and no assertion fails.
\<close>

theorem hash_sort_sorts:
  assumes "hash_ok h"
  shows "\<exists>h'. hash_sort h = Some (Inr h') \<and> h' = h\<lparr>brh_ids := brh_ids h', brh_last_count := int (brh_count h)\<rparr> \<and>
    mset (take (brh_count h) (brh_ids h')) = mset (filter (\<lambda>e. e \<noteq> - 1) (take (brh_hash_size h) (brh_ids h))) \<and>
    sorted (map (term_of_id h) (take (brh_count h) (brh_ids h'))) \<and>
    drop (brh_count h) (brh_ids h') = replicate (brh_hash_size h - brh_count h) (- 1) @ drop (brh_hash_size h) (brh_ids h)"
proof -
  define n where "n = brh_count h"
  define ids where "ids = compacted (brh_hash_size h) (brh_ids h)"
  define h2 where "h2 = h\<lparr>brh_ids := ids, brh_last_count := int n\<rparr>"
  let ?used = "filter (\<lambda>e. e \<noteq> - 1) (take (brh_hash_size h) (brh_ids h))"
  have ok: "brh_hash_size h \<le> length (brh_ids h)" "n = length ?used" "n \<le> 2 ^ 30"
    "\<And>e. e \<in> set ?used \<Longrightarrow> readable h e" using assms by (auto simp: hash_ok_def n_def)
  have ids: "length ids = length (brh_ids h)" "take n ids = ?used" "n \<le> length ids"
    "drop n ids = replicate (brh_hash_size h - n) (- 1) @ drop (brh_hash_size h) (brh_ids h)"
    using ok length_compacted [OF ok(1)] take_compacted [OF ok(1)] used_length [OF ok(1), of "\<lambda>e. e \<noteq> - 1"]
    by (auto simp: ids_def compacted_def Let_def)
  have c1: "compact h = Some (Inr h2)" using compact_eq [OF ok(1)] ok(2) by (simp add: h2_def ids_def n_def)
  have c2: "compact h2 = Some (Inr h2)"
    using compact_eq [of h2] ok(1,2) ids(1) used_compacted [OF ok(1)] compacted_idem [OF ok(1)] by (simp add: h2_def ids_def n_def)
  let ?m = "msb_new 2147483647 h2"
  have rd: "readable h2 e \<longleftrightarrow> readable h e" "term_of_id h2 e = term_of_id h e" for e by (simp_all add: readable_def term_of_id_def h2_def)
  have "readable h2 (el ids i)" if "0 \<le> i" "i < int n" for i
  proof -
    have i: "nat i < n" using that by simp
    have "take n ids ! nat i \<in> set ?used" unfolding ids(2) using i ok(2) by (intro nth_mem) simp
    then have "readable h (take n ids ! nat i)" by (rule ok(4))
    then show ?thesis using i by (simp add: rd el_def)
  qed
  then have inv: "hash_inv h2 (int n) h2" using ids(3) by (simp add: hash_inv_def only_ids_def h2_def)
  have "returns (msb_sort bytes_ref_msb 0 (int n) ?m) (\<lambda>m'. terms.permuted h2 (int n) 0 (int n) ?m m' \<and> terms.sorted_from h2 0 0 (int n) m')"
    using inv ids(3) ok(3) ms_sized_new [of 2147483647 h2] term_length
    by (intro terms.msb_sort_ok) (auto simp: terms.ms_ok_def terms.strings_ok_def terms.s_at_def msb_new_def h2_def)
  then obtain m' where m': "msb_sort bytes_ref_msb 0 (int n) ?m = Some (Inr m')" "hash_inv h2 (int n) (ms_sorter m')"
    "perm_in 0 (int n) ids (brh_ids (ms_sorter m'))"
    "\<And>i j. 0 \<le> i \<Longrightarrow> i \<le> j \<Longrightarrow> j < int n \<Longrightarrow> term_of_id h (el (brh_ids (ms_sorter m')) i) \<le> term_of_id h (el (brh_ids (ms_sorter m')) j)"
    by (auto simp: returns_def terms.permuted_def terms.sorted_from_def terms.s_at_def msb_new_def h2_def rd [unfolded h2_def])
  let ?ids = "brh_ids (ms_sorter m')"
  have len: "length ?ids = length ids" by (rule perm_in_length [OF m'(3)])
  have "mset (take n ?ids) = mset ?used"
    using perm_in_segment [OF m'(3)] ids(2,3) by (simp add: segment_def)
  moreover have "sorted (map (term_of_id h) (take n ?ids))"
    unfolding sorted_iff_nth_mono using m'(4) [of "int _" "int _"] len ids(3) by (simp add: el_def)
  moreover have "?ids ! k = ids ! k" if "n \<le> k" "k < length ids" for k
    using perm_in_outside [OF m'(3), of "int k"] that by (simp add: el_def)
  then have "drop n ?ids = drop n ids" using len by (intro nth_equalityI) auto
  moreover have "ms_sorter m' = h\<lparr>brh_ids := ?ids, brh_last_count := int n\<rparr>"
  proof -
    have "ms_sorter m' = h2\<lparr>brh_ids := ?ids\<rparr>" using m'(2) unfolding hash_inv_def only_ids_def by blast
    also have "\<dots> = h\<lparr>brh_ids := ?ids, brh_last_count := int n\<rparr>" by (cases h) (simp add: h2_def)
    finally show ?thesis .
  qed
  moreover have "hash_sort h = Some (Inr (ms_sorter m'))" using c1 c2 m'(1) by (simp add: hash_sort_def h2_def n_def)
  ultimately show ?thesis unfolding n_def [symmetric] using ids(4) by (intro exI [of _ "ms_sorter m'"]) auto
qed

definition two_terms :: bytes_ref_hash where
  "two_terms = \<lparr>brh_buffers = [[2, 98, 97, 1, 97, 0, 0]], brh_hash_size = 4, brh_count = 2, brh_last_count = - 1,
     brh_ids = [- 1, 0, - 1, 1], brh_bytes_start = [0, 3]\<rparr>"

theorem hash_sort_sorts_witness:
  "hash_ok two_terms \<and> (\<exists>h'. hash_sort two_terms = Some (Inr h') \<and> mset (take 2 (brh_ids h')) = {#0, 1#} \<and>
     sorted (map (term_of_id two_terms) (take 2 (brh_ids h'))) \<and> drop 2 (brh_ids h') = [- 1, - 1])"
proof -
  have "readable two_terms 0" "readable two_terms 1"
    by (simp_all add: readable_def two_terms_def term_at_def set_bytes_ref_def slice_get_def BYTE_BLOCK_SIZE_def BYTE_BLOCK_SHIFT_def)
  then have ok: "hash_ok two_terms" by (simp add: hash_ok_def two_terms_def)
  from hash_sort_sorts [OF ok] show ?thesis using ok by (auto simp: two_terms_def numeral_2_eq_2)
qed

section \<open>Merging in place\<close>

text \<open>
  Merging the sorted halves \<open>a, c\<close> and \<open>b, d\<close> skips \<open>a\<close> and \<open>d\<close>, cuts the second half, of length
  one, at its start, and so rotates an empty range, which fails the assertion of \<open>rotate\<close> although
  its next line handles this case.
\<close>

definition two_halves :: fallback where
  "two_halves = fallback_sorter 0 \<lparr>brh_buffers = [[1, 97, 1, 99, 1, 98, 1, 100]], brh_hash_size = 4, brh_count = 4,
     brh_last_count = - 1, brh_ids = [0, 1, 2, 3], brh_bytes_start = [0, 2, 4, 6]\<rparr>"

lemma two_halves_compare:
  "sr_compare fallback_ops 0 2 two_halves = Some (Inr Less)"
  "sr_compare fallback_ops 1 2 two_halves = Some (Inr Greater)"
  "sr_compare fallback_ops 1 3 two_halves = Some (Inr Less)"
  "sr_compare fallback_ops 2 1 two_halves = Some (Inr Less)"
  by (simp_all add: two_halves_def fallback_sorter_def fallback_ops_def fallback_get_def msb_get_def vec_get_def term_at_def
      set_bytes_ref_def slice_get_def BYTE_BLOCK_SIZE_def BYTE_BLOCK_SHIFT_def cmp_def)

lemma merge_in_place_asserts:
  "merge_in_place fallback_ops 0 2 4 two_halves = Some (Inl (Panic ''low < mid && mid < high''))"
proof -
  have "merge_front fallback_ops 1 2 two_halves = Some (Inr 1)"
    by (subst merge_front.simps) (simp add: two_halves_compare)
  then have front: "merge_front fallback_ops 0 2 two_halves = Some (Inr 1)"
    by (subst merge_front.simps) (simp add: two_halves_compare)
  have "merge_back fallback_ops 2 3 two_halves = Some (Inr 3)"
    by (subst merge_back.simps) (simp add: two_halves_compare)
  then have rear: "merge_back fallback_ops 2 4 two_halves = Some (Inr 3)"
    by (subst merge_back.simps) (simp add: two_halves_compare)
  have "upper_loop fallback_ops 1 0 2 two_halves = Some (Inr 1)" by (subst upper_loop.simps) simp
  then have "upper fallback_ops 1 2 2 two_halves = Some (Inr 1)"
    unfolding upper_def by (subst upper_loop.simps) (simp add: two_halves_compare ushr1_def)
  then have cuts: "merge_cuts fallback_ops 1 2 3 two_halves = Some (Inr (1, 2, 0))"
    by (simp add: merge_cuts_def Let_def ushr1_def)
  show ?thesis
    by (subst merge_in_place.simps) (simp add: two_halves_compare front rear cuts rotate_range_def)
qed

end
