(* ===== verification/Spec2Isabelle.thy ===== *)
theory Spec2Isabelle
  imports Data_IO Bulk_Scorer Bits Doc_Id_Set Top_Docs Disi Query_Cache Cache_Policy Msb_Sorter
begin

text \<open>
  A verification development for rucene, a port of the Lucene search library to Rust (\<^verbatim>\<open>src/src/core\<close>).

  \<^bold>\<open>The program.\<close> An index is a set of segments; a segment holds documents numbered from 0. A query
  makes a scorer for a segment: an iterator over the documents that match, which other scorers
  combine. A bulk scorer runs the scorer to its end and hands the documents to a collector, which
  keeps the best ones in a heap. The documents of a query may be cached as a document id set, so that
  the next search iterates over the set. Below lie the utilities (bit sets, heaps, sorters, caches)
  and the byte-level codec in which everything is stored. The development models the parts of this
  path that are computation: codec, iterators, sets, scorers, collectors, caches and sorters.

  \<^bold>\<open>Conventions.\<close> A Rust integer is a word of its width where bits or wrap-around matter; a \<open>usize\<close> is a
  natural number; a document id and an \<open>i32\<close> index are integers, with the checks of a debug
  build written out: an overflow, an index out of bounds and a failed assertion are the value
  \<open>Inl (Panic ..)\<close>, as an \<open>Err\<close> is \<open>Inl\<close> of its error (the type \<open>result\<close>). A struct is a record, an
  enum a datatype; a method is a function that takes and returns the state. A hash map is a finite
  map; a trait is a record of its methods, which the generic code takes as an argument, and what an
  implementor promises is a locale, interpreted on the implementors of the sources. A floating-point
  number is its bit pattern. There is no fuel: a loop is a function with a termination proof, or
  a partial function into option types, whose value \<open>None\<close> is a run that does not end (the type \<open>run\<close>);
  the theorems state that the value is \<open>Some\<close>.

  \<^bold>\<open>Theories.\<close>

  \<^item> \<open>Rucene_Prelude\<close>: types, errors, sequencing (\<open>rbind\<close>, \<open>run_bind\<close>), total correctness of a run
    (\<open>returns\<close>), integer methods of the standard library, shared lemmas.
  \<^item> \<open>Bit_Util\<close> (\<^verbatim>\<open>util/bit_util.rs\<close>, \<^verbatim>\<open>util/math.rs\<close>, \<^verbatim>\<open>util/numeric.rs\<close>, \<^verbatim>\<open>util/small_float.rs\<close>): zig-zag encoding
    and its inverse, binary gcd, the byte encodings of numbers that sort like the numbers.
  \<^item> \<open>Data_IO\<close> (\<^verbatim>\<open>store/io/data_output.rs\<close>, \<^verbatim>\<open>data_input.rs\<close>, \<^verbatim>\<open>byte_array_data_input.rs\<close>,
    \<^verbatim>\<open>growable_byte_array_output.rs\<close>): variable-length integers, strings, maps and sets over any reader and
    writer; what is written is read back, and malformed input is refused.
  \<^item> \<open>Doc_Iterator\<close> (\<^verbatim>\<open>search/mod.rs\<close>, \<^verbatim>\<open>search/query/match_all_query.rs\<close>): the iterator trait. The locales
    \<open>doc_cursor\<close>, \<open>approximation\<close>, \<open>two_phase\<close> and \<open>exact_cursor\<close> say that an iterator runs
    through a set of documents, with a second phase that confirms each.
  \<^item> \<open>Scorers\<close> (\<^verbatim>\<open>search/scorer/mod.rs\<close>, \<^verbatim>\<open>conjunction_scorer.rs\<close>, \<^verbatim>\<open>disjunction_scorer.rs\<close>): conjunctions iterate
    over intersections and disjunctions over unions; an iterator as bits.
  \<^item> \<open>Bulk_Scorer\<close> (\<^verbatim>\<open>search/scorer/bulk_scorer.rs\<close>, \<^verbatim>\<open>search/query/filter_query.rs\<close>,
    \<^verbatim>\<open>search/collector/early_terminating.rs\<close>, \<^verbatim>\<open>chain.rs\<close>): the loops that collect, in one phase and in two.
  \<^item> \<open>Heap_Order\<close>, \<open>Binary_Heap\<close> (\<^verbatim>\<open>util/external/binary_heap.rs\<close>): the heap with its hole and its guard
    refines a priority queue.
  \<^item> \<open>Top_Docs\<close> (\<^verbatim>\<open>search/collector/top_docs.rs\<close>, \<^verbatim>\<open>search/sort_field/collapse_top_docs.rs\<close>): the best documents of
    a sequential and of a parallel search.
  \<^item> \<open>Disi\<close> (\<^verbatim>\<open>util/disi.rs\<close>): the queue of iterators by document, a heap of pointers into a buffer, and
    the linked list of the iterators on one document.
  \<^item> \<open>Bit_Set\<close> (\<^verbatim>\<open>util/bit_set.rs\<close>), \<open>Bits\<close> (\<^verbatim>\<open>util/bits.rs\<close>): the operations on words are those on sets of
    indices; the galloping search of a sparse column answers membership.
  \<^item> \<open>Doc_Id_Set\<close> (\<^verbatim>\<open>util/doc_id_set.rs\<close>), \<open>Roaring\<close> (\<open>RoaringDocIdSet\<close> of \<^verbatim>\<open>search/cache/query_cache.rs\<close>): every
    encoding of a set of documents iterates over that set; a built set holds what was added.
  \<^item> \<open>Lru_Cache\<close> (\<^verbatim>\<open>search/cache/lru_cache.rs\<close>): the linked entries, free list and table behave like a list
    in order of use.
  \<^item> \<open>Query_Cache\<close> (\<^verbatim>\<open>search/cache/query_cache.rs\<close>): the cache stays within its size, and a search
    through it finds the documents a search without it finds.
  \<^item> \<open>Cache_Policy\<close> (\<^verbatim>\<open>search/cache/cache_policy.rs\<close>): the ring buffer with its open-addressing table counts
    the recent uses of every query.
  \<^item> \<open>Sorter\<close>, \<open>Msb_Sorter\<close> (\<^verbatim>\<open>util/sorter.rs\<close>, \<^verbatim>\<open>util/bytes_ref_hash.rs\<close>, \<^verbatim>\<open>util/byte_block_pool.rs\<close>): binary sort,
    heap sort, quick sort and the radix sort by most significant bytes, down to the terms of a hash.

  \<^bold>\<open>How the parts rest on each other.\<close> The query cache is proved from the LRU cache, the roaring set,
  the document id sets and the collecting loops; the collecting loops from the iterator locales, which
  the scorers and sets interpret; the document id sets from the bit sets; the collector of the
  best documents from the binary heap; the sort of the terms from the locales \<open>comparison_sorter\<close> and
  \<open>string_sorter\<close>, interpreted on the sorters of the hash.

  \<^bold>\<open>Bounds.\<close> Document ids lie below the sentinel \<open>NO_MORE_DOCS\<close>, the largest \<open>i32\<close>. The sorts are
  proved for at most \<open>2 ^ 30\<close> elements: above it the sum of two indices, or the child of a heap index,
  can leave the \<open>i32\<close>. A term has at most 65536 bytes, since its length is stored in two bytes, far
  below the maximal length the radix sort is given.

  \<^bold>\<open>Parameters.\<close> Code outside the sources is an argument of the definitions: the hash codes and the
  names of query types for the policy, the comparison of segment sizes in floating point, whether the lock
  of the cache was free, the bytes of live documents and the reader and writer of a stream.

  \<^bold>\<open>Not modelled.\<close>

  \<^item> Scores, similarity and explanations, and the scorers that only combine scores: the library theories
    used here have no floating-point arithmetic. Where scores are compared, they are compared by
    their bit patterns.
  \<^item> Index writer and readers, merging, searcher, thread pool: concurrent orchestration of files,
    locks and threads.
  \<^item> Codecs of postings, document values, stored fields, term vectors, norms and points, block k-d
    trees: they read and write whole files through directories.
  \<^item> Directories, memory maps, checksums: the operating system.
  \<^item> Packed integers, finite state transducers, selectors, compression: pure computation of the same
    kind as the parts modelled, but without definitions here.
  \<^item> Queries and weights, analysis, highlighting, documents and fields: they build the parts above
    from text and postings.
  \<^item> Of the modelled files: the least-significant-byte radix sort and the galloping searches of
    \<^verbatim>\<open>util/sorter.rs\<close>; insertion into the hash of terms, which hashes with another crate, and the allocation of
    the byte pool; the flag by which a caching weight reports its first use to the policy.
\<close>

end
